(* ===== verification/Prelude.thy ===== *)
theory Prelude
  imports Complex_Main "HOL-Library.AList" "HOL-Library.Multiset"
begin

text \<open>
  Shared vocabulary of the development: Python exceptions as values, Python dictionaries
  (insertion ordered) as association lists with distinct keys, ordered dictionaries that are used
  as ordered key sets as distinct lists, and the generic lemmas the components share.
  The lemma collections are \<open>dict_simps\<close> (dictionary updates and reads) and \<open>order_simps\<close>
  (ordered key sets).
\<close>

named_theorems dict_simps \<open>reads, domains and key lists of updated dictionaries\<close>
named_theorems order_simps \<open>membership and distinctness of ordered key sets\<close>

section \<open>Python exceptions as values\<close>

datatype py_error =
    ValueError
  | RuntimeError
  | KeyError
  | TypeError
  | ImportError
  | OverflowError
  | ZeroDivisionError
  | IndexError
  | AssertionError
  | NotImplementedError

type_synonym 'a result = "py_error + 'a"

text \<open>\<open>ensures r Q\<close>: the computation raises nothing and its value satisfies \<open>Q\<close>.\<close>

definition ensures :: "'a result \<Rightarrow> ('a \<Rightarrow> bool) \<Rightarrow> bool" where
  "ensures r Q = (case r of Inl _ \<Rightarrow> False | Inr x \<Rightarrow> Q x)"

lemma ensures_Inr [simp]: "ensures (Inr x) Q = Q x"
  by (simp add: ensures_def)

lemma ensures_Inl [simp]: "\<not> ensures (Inl e) Q"
  by (simp add: ensures_def)

lemma ensuresE: "ensures r Q \<Longrightarrow> (\<And>x. r = Inr x \<Longrightarrow> Q x \<Longrightarrow> thesis) \<Longrightarrow> thesis"
  by (cases r) (auto simp: ensures_def)

lemma ensures_mono: "ensures r P \<Longrightarrow> (\<And>x. P x \<Longrightarrow> Q x) \<Longrightarrow> ensures r Q"
  by (cases r) (auto simp: ensures_def)

lemma ensures_bind:
  "ensures r P \<Longrightarrow> (\<And>x. P x \<Longrightarrow> ensures (f x) Q) \<Longrightarrow> ensures (case r of Inl e \<Rightarrow> Inl e | Inr x \<Rightarrow> f x) Q"
  by (cases r) (auto simp: ensures_def)

text \<open>A comprehension whose body may raise.\<close>

fun traverse :: "('a \<Rightarrow> 'b result) \<Rightarrow> 'a list \<Rightarrow> 'b list result" where
  "traverse f [] = Inr []"
| "traverse f (x # xs) =
     (case f x of Inl e \<Rightarrow> Inl e | Inr y \<Rightarrow> (case traverse f xs of Inl e \<Rightarrow> Inl e | Inr ys \<Rightarrow> Inr (y # ys)))"

lemma traverse_Inr: "(\<And>x. x \<in> set xs \<Longrightarrow> f x = Inr (g x)) \<Longrightarrow> traverse f xs = Inr (map g xs)"
  by (induction xs) auto

section \<open>Dictionaries\<close>

text \<open>
  A \<open>dict\<close> is the list of its items in insertion order. \<open>d[k] = v\<close> is \<^const>\<open>AList.update\<close>
  (it keeps the position of an existing key and appends a new one), \<open>del d[k]\<close> and
  \<open>d.pop(k, None)\<close> are \<^const>\<open>AList.delete\<close>, \<open>d.get(k)\<close> is \<^const>\<open>map_of\<close>.
\<close>

type_synonym ('k, 'v) dict = "('k \<times> 'v) list"

abbreviation dict_keys :: "('k, 'v) dict \<Rightarrow> 'k list" where
  "dict_keys d \<equiv> map fst d"

abbreviation dict_values :: "('k, 'v) dict \<Rightarrow> 'v list" where
  "dict_values d \<equiv> map snd d"

abbreviation dict_ok :: "('k, 'v) dict \<Rightarrow> bool" where
  "dict_ok d \<equiv> distinct (map fst d)"

definition dict_sum :: "('v \<Rightarrow> int) \<Rightarrow> ('k, 'v) dict \<Rightarrow> int" where
  "dict_sum f d = sum_list (map (\<lambda>p. f (snd p)) d)"

lemma map_of_dict_update [dict_simps, simp]:
  "map_of (AList.update k v d) = (map_of d)(k \<mapsto> v)"
  by (rule update_conv')

lemma map_of_dict_delete [dict_simps, simp]:
  "map_of (AList.delete k d) = (map_of d)(k := None)"
  by (rule delete_conv')

lemma dict_keys_update [dict_simps]:
  "set (dict_keys (AList.update k v d)) = insert k (set (dict_keys d))"
  by (simp add: dom_update)

lemma dict_keys_delete [dict_simps]:
  "set (dict_keys (AList.delete k d)) = set (dict_keys d) - {k}"
  by (simp add: delete_keys)

lemma dict_ok_update [dict_simps, simp]: "dict_ok d \<Longrightarrow> dict_ok (AList.update k v d)"
  by (rule distinct_update)

lemma dict_ok_delete [dict_simps, simp]: "dict_ok d \<Longrightarrow> dict_ok (AList.delete k d)"
  by (rule distinct_delete)

lemma dict_get_None_iff: "map_of d k = None \<longleftrightarrow> k \<notin> set (dict_keys d)"
  by (simp add: map_of_eq_None_iff)

lemma dict_get_Some_iff: "dict_ok d \<Longrightarrow> map_of d k = Some v \<longleftrightarrow> (k, v) \<in> set d"
  by simp

lemma dict_sum_Nil [simp]: "dict_sum f [] = 0"
  by (simp add: dict_sum_def)

lemma dict_sum_Cons [simp]: "dict_sum f (p # d) = f (snd p) + dict_sum f d"
  by (simp add: dict_sum_def)

lemma dict_sum_update_new: "map_of d k = None \<Longrightarrow> dict_sum f (AList.update k v d) = dict_sum f d + f v"
  by (induction d) (auto split: if_splits)

lemma dict_sum_update_old:
  "map_of d k = Some w \<Longrightarrow> dict_sum f (AList.update k v d) = dict_sum f d + f v - f w"
  by (induction d) (auto split: if_splits)

lemma dict_delete_absent: "map_of d k = None \<Longrightarrow> AList.delete k d = d"
  by (induction d) (auto simp: AList.delete_eq split: if_splits)

lemma dict_sum_delete:
  "dict_ok d \<Longrightarrow> map_of d k = Some w \<Longrightarrow> dict_sum f (AList.delete k d) = dict_sum f d - f w"
proof (induction d)
  case Nil
  then show ?case by simp
next
  case (Cons p d)
  show ?case
  proof (cases "fst p = k")
    case True
    with Cons.prems have "map_of d k = None" and "snd p = w"
      by (auto simp: map_of_eq_None_iff)
    with True show ?thesis
      by (cases p) (simp add: dict_delete_absent)
  next
    case False
    with Cons show ?thesis
      by (cases p) auto
  qed
qed

lemma dict_values_delete:
  "dict_ok d \<Longrightarrow> map_of d k = Some w \<Longrightarrow>
    mset (dict_values d) = add_mset w (mset (dict_values (AList.delete k d)))"
proof (induction d)
  case Nil
  then show ?case by simp
next
  case (Cons p d)
  then show ?case
    by (cases p) (auto simp: dict_delete_absent map_of_eq_None_iff)
qed

lemma dict_values_update_new:
  "map_of d k = None \<Longrightarrow> mset (dict_values (AList.update k v d)) = add_mset v (mset (dict_values d))"
  by (induction d) (auto split: if_splits)

lemma dict_values_update_old:
  "map_of d k = Some w \<Longrightarrow>
     add_mset w (mset (dict_values (AList.update k v d))) = add_mset v (mset (dict_values d))"
  by (induction d) (auto simp: add_mset_commute split: if_splits)

lemma set_dict_values_update: "set (dict_values (AList.update k v d)) \<subseteq> insert v (set (dict_values d))"
  by (induction d) auto

lemma set_dict_values_delete: "set (dict_values (AList.delete k d)) \<subseteq> set (dict_values d)"
  by (auto simp: AList.delete_eq)

text \<open>The values of a dictionary of lists, all together.\<close>

lemma dict_concat_update_new:
  "map_of d k = None \<Longrightarrow>
     mset (concat (map f (dict_values (AList.update k v d)))) = mset (f v) + mset (concat (map f (dict_values d)))"
  by (induction d) (auto split: if_splits)

lemma dict_concat_update_old:
  "map_of d k = Some w \<Longrightarrow>
     mset (f w) + mset (concat (map f (dict_values (AList.update k v d)))) =
     mset (f v) + mset (concat (map f (dict_values d)))"
  by (induction d) (auto simp: ac_simps split: if_splits)

lemma dict_concat_delete:
  "dict_ok d \<Longrightarrow> map_of d k = Some w \<Longrightarrow>
     mset (concat (map f (dict_values d))) = mset (f w) + mset (concat (map f (dict_values (AList.delete k d))))"
proof (induction d)
  case (Cons p d)
  then show ?case
    by (cases p) (auto simp: dict_delete_absent map_of_eq_None_iff ac_simps)
qed simp

section \<open>Ordered key sets\<close>

text \<open>
  An \<open>OrderedDict[K, None]\<close> is the distinct list of its keys, oldest first: \<open>od_del\<close> is
  \<open>del od[k]\<close> and \<open>od.pop(k, None)\<close>, \<open>od_move_to_end\<close> is \<open>move_to_end\<close> on a member and
  \<open>od_set\<close> is \<open>od[k] = None\<close>, which leaves the position of a member alone.
\<close>

definition od_del :: "'k \<Rightarrow> 'k list \<Rightarrow> 'k list" where
  "od_del k xs = filter (\<lambda>x. x \<noteq> k) xs"

definition od_move_to_end :: "'k \<Rightarrow> 'k list \<Rightarrow> 'k list" where
  "od_move_to_end k xs = od_del k xs @ [k]"

definition od_set :: "'k \<Rightarrow> 'k list \<Rightarrow> 'k list" where
  "od_set k xs = (if k \<in> set xs then xs else xs @ [k])"

lemma set_od_del [order_simps, simp]: "set (od_del k xs) = set xs - {k}"
  by (auto simp: od_del_def)

lemma distinct_od_del [order_simps, simp]: "distinct xs \<Longrightarrow> distinct (od_del k xs)"
  by (simp add: od_del_def)

lemma set_od_move_to_end [order_simps, simp]: "set (od_move_to_end k xs) = insert k (set xs)"
  by (auto simp: od_move_to_end_def)

lemma distinct_od_move_to_end [order_simps, simp]:
  "distinct xs \<Longrightarrow> distinct (od_move_to_end k xs)"
  by (simp add: od_move_to_end_def)

lemma set_od_set [order_simps, simp]: "set (od_set k xs) = insert k (set xs)"
  by (auto simp: od_set_def)

lemma distinct_od_set [order_simps, simp]: "distinct xs \<Longrightarrow> distinct (od_set k xs)"
  by (simp add: od_set_def)

lemma od_del_absent: "k \<notin> set xs \<Longrightarrow> od_del k xs = xs"
  by (induction xs) (auto simp: od_del_def)

lemma length_od_del: "distinct xs \<Longrightarrow> k \<in> set xs \<Longrightarrow> length (od_del k xs) = length xs - 1"
proof -
  assume "distinct xs" and "k \<in> set xs"
  have "length xs = length (od_del k xs) + length (filter (\<lambda>x. x = k) xs)"
    using sum_length_filter_compl [of "\<lambda>x. x \<noteq> k" xs] by (simp add: od_del_def)
  moreover have "length (filter (\<lambda>x. x = k) xs) = 1"
    using \<open>distinct xs\<close> \<open>k \<in> set xs\<close> by (simp add: distinct_length_filter Int_absorb1 insert_absorb)
  ultimately show ?thesis by simp
qed

lemma length_od_del_le: "length (od_del k xs) \<le> length xs"
  by (simp add: od_del_def)

section \<open>Lists\<close>

lemma sum_list_update_int:
  fixes xs :: "int list"
  shows "i < length xs \<Longrightarrow> sum_list (xs[i := v]) = sum_list xs + v - xs ! i"
proof (induction xs arbitrary: i)
  case Nil
  then show ?case by simp
next
  case (Cons x xs)
  then show ?case by (cases i) auto
qed

end
