(* ===== verification/Address_Manager.thy ===== *)
theory Address_Manager
  imports Prelude "HOL-Library.Word"
begin

text \<open>
  The virtual address space of the memory allocators: \<open>FreeBlock\<close> and \<open>AddressManager\<close> of
  \<open>lmcache/v1/memory_management.py\<close>. The explicit free list is a \<open>sortedcontainers.SortedList\<close>
  keyed by the block start; that package is not part of the repository, so its three operations are
  a field of the state and their documented behaviour is the predicate \<open>sorted_list_contract\<close>.
  The state is refined by the set of free addresses: every operation removes or adds exactly one
  region of that set.
\<close>

unbundle bit_operations_syntax

section \<open>Data\<close>

record free_block =
  start :: int
  blk_size :: int

definition can_be_coalesced :: "free_block \<Rightarrow> free_block \<Rightarrow> bool" where
  "can_be_coalesced b succ \<longleftrightarrow> start b + blk_size b = start succ"

text \<open>The operations of the sorted list that the address manager calls.\<close>

record sorted_list =
  sl_add :: "free_block \<Rightarrow> free_block list \<Rightarrow> free_block list"
  sl_remove :: "free_block \<Rightarrow> free_block list \<Rightarrow> free_block list"
  sl_bisect_left :: "free_block \<Rightarrow> free_block list \<Rightarrow> nat"

abbreviation by_start :: "free_block list \<Rightarrow> bool" where
  "by_start bs \<equiv> sorted (map start bs)"

definition sorted_list_contract :: "sorted_list \<Rightarrow> bool" where
  "sorted_list_contract sl \<longleftrightarrow>
     (\<forall>b bs. by_start bs \<longrightarrow>
        by_start (sl_add sl b bs) \<and> mset (sl_add sl b bs) = add_mset b (mset bs)) \<and>
     (\<forall>b bs. by_start bs \<longrightarrow> b \<in> set bs \<longrightarrow>
        by_start (sl_remove sl b bs) \<and> mset (sl_remove sl b bs) = mset bs - {#b#}) \<and>
     (\<forall>b bs. by_start bs \<longrightarrow>
        sl_bisect_left sl b bs \<le> length bs \<and>
        (\<forall>j < sl_bisect_left sl b bs. start (bs ! j) < start b) \<and>
        (\<forall>j. sl_bisect_left sl b bs \<le> j \<longrightarrow> j < length bs \<longrightarrow> start b \<le> start (bs ! j)))"

record address_manager =
  am_size :: int
  am_align :: int
  explicit_list :: "free_block list"
  am_sorted_list :: sorted_list
  total_allocated_size :: int

section \<open>Operations\<close>

definition am_init :: "sorted_list \<Rightarrow> int \<Rightarrow> int \<Rightarrow> address_manager" where
  "am_init sl sz align_bytes =
     \<lparr>am_size = sz, am_align = align_bytes,
      explicit_list = sl_add sl \<lparr>start = 0, blk_size = sz\<rparr> [],
      am_sorted_list = sl, total_allocated_size = 0\<rparr>"

definition compute_aligned_size :: "address_manager \<Rightarrow> int \<Rightarrow> int" where
  "compute_aligned_size am raw_size =
     (raw_size + am_align am - 1) AND NOT (am_align am - 1)"

text \<open>
  A block object that sits in the list is referred to by its index, so that the in-place update
  \<open>prev_block.sz += ...\<close> is a list update.
\<close>

definition coalesce ::
  "address_manager \<Rightarrow> free_block \<Rightarrow> nat option \<Rightarrow> nat option \<Rightarrow> bool \<times> address_manager" where
  "coalesce am cur prev succ =
     (let bs = explicit_list am; sl = am_sorted_list am;
          merge_prev = (case prev of None \<Rightarrow> False | Some i \<Rightarrow> can_be_coalesced (bs ! i) cur);
          merge_succ = (case succ of None \<Rightarrow> False | Some j \<Rightarrow> can_be_coalesced cur (bs ! j));
          i = (case prev of None \<Rightarrow> 0 | Some i \<Rightarrow> i);
          j = (case succ of None \<Rightarrow> 0 | Some j \<Rightarrow> j)
      in if merge_prev \<and> merge_succ then
           (True, am\<lparr>explicit_list := sl_remove sl (bs ! j)
              (bs[i := (bs ! i)\<lparr>blk_size := blk_size (bs ! i) + (blk_size cur + blk_size (bs ! j))\<rparr>])\<rparr>)
         else if merge_prev then
           (True, am\<lparr>explicit_list :=
              bs[i := (bs ! i)\<lparr>blk_size := blk_size (bs ! i) + blk_size cur\<rparr>]\<rparr>)
         else if merge_succ then
           (True, am\<lparr>explicit_list := sl_add sl
              \<lparr>start = start (bs ! j) - blk_size cur, blk_size = blk_size (bs ! j) + blk_size cur\<rparr>
              (sl_remove sl (bs ! j) bs)\<rparr>)
         else (False, am))"

fun first_fit :: "int \<Rightarrow> free_block list \<Rightarrow> free_block option" where
  "first_fit aligned_size [] = None"
| "first_fit aligned_size (b # bs) =
     (if blk_size b \<ge> aligned_size then Some b else first_fit aligned_size bs)"

definition am_allocate :: "address_manager \<Rightarrow> int \<Rightarrow> ((int \<times> int) \<times> address_manager) result" where
  "am_allocate am sz =
     (if sz \<le> 0 then Inl ValueError
      else let aligned_size = compute_aligned_size am sz; sl = am_sorted_list am in
        (case first_fit aligned_size (explicit_list am) of
           None \<Rightarrow> Inl RuntimeError
         | Some block \<Rightarrow>
             let bs = sl_remove sl block (explicit_list am);
                 bs' = (if blk_size block > aligned_size
                        then sl_add sl \<lparr>start = start block + aligned_size,
                                        blk_size = blk_size block - aligned_size\<rparr> bs
                        else bs)
             in Inr ((start block, aligned_size),
                     am\<lparr>explicit_list := bs',
                        total_allocated_size := total_allocated_size am + aligned_size\<rparr>)))"

text \<open>
  The scan of \<open>batched_allocate\<close> over the free list: the blocks still to look at, the remaining
  count, the regions carved so far and the blocks to remove from and to add to the list.
\<close>

record carve_state =
  cv_remaining :: int
  cv_result :: "(int \<times> int) list"
  cv_remove :: "free_block list"
  cv_add :: "free_block list"

fun carve :: "int \<Rightarrow> free_block list \<Rightarrow> carve_state \<Rightarrow> carve_state result" where
  "carve aligned_size [] cv = Inr cv"
| "carve aligned_size (block # bs) cv =
     (if cv_remaining cv \<le> 0 then Inr cv
      else if blk_size block < aligned_size then carve aligned_size bs cv
      else if aligned_size = 0 then Inl ZeroDivisionError
      else let num_from_block = min (cv_remaining cv) (blk_size block div aligned_size);
               used = num_from_block * aligned_size
           in carve aligned_size bs
                \<lparr>cv_remaining = cv_remaining cv - num_from_block,
                 cv_result = cv_result cv @
                   map (\<lambda>i. (start block + int i * aligned_size, aligned_size)) [0..<nat num_from_block],
                 cv_remove = cv_remove cv @ [block],
                 cv_add = cv_add cv @
                   (if blk_size block > used
                    then [\<lparr>start = start block + used, blk_size = blk_size block - used\<rparr>] else [])\<rparr>)"

definition am_batched_allocate ::
  "address_manager \<Rightarrow> int \<Rightarrow> int \<Rightarrow> ((int \<times> int) list \<times> address_manager) result" where
  "am_batched_allocate am sz batch_size =
     (if sz \<le> 0 then Inl ValueError
      else if batch_size < 0 then Inl RuntimeError
      else let aligned_size = compute_aligned_size am sz; sl = am_sorted_list am in
        (case carve aligned_size (explicit_list am)
                \<lparr>cv_remaining = batch_size, cv_result = [], cv_remove = [], cv_add = []\<rparr> of
           Inl e \<Rightarrow> Inl e
         | Inr cv \<Rightarrow>
             if cv_remaining cv > 0 then Inl RuntimeError
             else Inr (cv_result cv,
                    am\<lparr>explicit_list := fold (sl_add sl) (cv_add cv)
                         (fold (sl_remove sl) (cv_remove cv) (explicit_list am)),
                       total_allocated_size := total_allocated_size am + aligned_size * batch_size\<rparr>)))"

definition am_free :: "address_manager \<Rightarrow> int \<Rightarrow> int \<Rightarrow> address_manager" where
  "am_free am address sz =
     (let new_free_block = \<lparr>start = address, blk_size = sz\<rparr>;
          index = sl_bisect_left (am_sorted_list am) new_free_block (explicit_list am);
          prev = (if index > 0 then Some (index - 1) else None);
          succ = (if index < length (explicit_list am) then Some index else None);
          (coalesced, am1) = coalesce am new_free_block prev succ;
          am2 = (if coalesced then am1
                 else am1\<lparr>explicit_list :=
                        sl_add (am_sorted_list am) new_free_block (explicit_list am1)\<rparr>)
      in am2\<lparr>total_allocated_size := total_allocated_size am2 - sz\<rparr>)"

definition am_sbrk :: "address_manager \<Rightarrow> int \<Rightarrow> address_manager" where
  "am_sbrk am raw_size =
     (let sz = compute_aligned_size am raw_size;
          new_block = \<lparr>start = am_size am, blk_size = sz\<rparr>;
          prev = (if length (explicit_list am) > 0 then Some (length (explicit_list am) - 1) else None);
          (coalesced, am1) = coalesce am new_block prev None;
          am2 = (if coalesced then am1
                 else am1\<lparr>explicit_list :=
                        sl_add (am_sorted_list am) new_block (explicit_list am1)\<rparr>)
      in am2\<lparr>am_size := am_size am2 + sz\<rparr>)"

definition get_heap_size :: "address_manager \<Rightarrow> int" where
  "get_heap_size am = am_size am"

definition get_free_size :: "address_manager \<Rightarrow> int" where
  "get_free_size am = am_size am - total_allocated_size am"

fun adjacent_coalesced :: "free_block list \<Rightarrow> bool" where
  "adjacent_coalesced (prev # succ # bs) \<longleftrightarrow>
     \<not> can_be_coalesced prev succ \<and> adjacent_coalesced (succ # bs)"
| "adjacent_coalesced bs \<longleftrightarrow> True"

definition check_consistency :: "address_manager \<Rightarrow> bool" where
  "check_consistency am \<longleftrightarrow>
     adjacent_coalesced (explicit_list am) \<and>
     sum_list (map blk_size (explicit_list am)) + total_allocated_size am = am_size am"


section \<open>Abstraction and invariant\<close>

text \<open>
  A free list stands for the set of its addresses. \<open>gapped\<close> says that blocks are non-empty,
  disjoint and never adjacent, so a block is a maximal run of free addresses.
\<close>

definition block_addrs :: "free_block \<Rightarrow> int set" where
  "block_addrs b = {start b ..< start b + blk_size b}"

definition addrs :: "free_block set \<Rightarrow> int set" where
  "addrs S = (\<Union>b \<in> S. block_addrs b)"

definition free_addrs :: "address_manager \<Rightarrow> int set" where
  "free_addrs am = addrs (set (explicit_list am))"

definition gapped :: "free_block set \<Rightarrow> bool" where
  "gapped S \<longleftrightarrow> (\<forall>b \<in> S. 0 < blk_size b) \<and>
     (\<forall>b \<in> S. \<forall>c \<in> S. start b < start c \<longrightarrow> start b + blk_size b < start c) \<and>
     (\<forall>b \<in> S. \<forall>c \<in> S. start b = start c \<longrightarrow> b = c)"

definition fl_ok :: "free_block list \<Rightarrow> bool" where
  "fl_ok bs \<longleftrightarrow> by_start bs \<and> distinct (map start bs) \<and> gapped (set bs)"

definition am_inv :: "address_manager \<Rightarrow> bool" where
  "am_inv am \<longleftrightarrow> sorted_list_contract (am_sorted_list am) \<and> fl_ok (explicit_list am) \<and>
     free_addrs am \<subseteq> {0 ..< am_size am} \<and>
     sum_list (map blk_size (explicit_list am)) + total_allocated_size am = am_size am \<and>
     (\<exists>k. am_align am = 2 ^ k)"

lemma gappedD:
  assumes "gapped S"
  shows "b \<in> S \<Longrightarrow> 0 < blk_size b"
    and "b \<in> S \<Longrightarrow> c \<in> S \<Longrightarrow> start b < start c \<Longrightarrow> start b + blk_size b < start c"
    and "b \<in> S \<Longrightarrow> c \<in> S \<Longrightarrow> start b = start c \<Longrightarrow> b = c"
  using assms by (auto simp: gapped_def)

lemma gapped_subset: "gapped S \<Longrightarrow> T \<subseteq> S \<Longrightarrow> gapped T"
  unfolding gapped_def by (meson subsetD)

lemma gapped_insert:
  assumes "gapped S" and "0 < blk_size x"
    and "\<And>b. b \<in> S \<Longrightarrow> start b + blk_size b < start x \<or> start x + blk_size x < start b"
  shows "gapped (insert x S)"
proof -
  have pos: "0 < blk_size b" if "b \<in> S" for b
    using that assms(1) by (rule gappedD(1)[rotated])
  have sep: "start b < start c \<longrightarrow> start b + blk_size b < start c" "start b = start c \<longrightarrow> b = c"
    if mem: "b \<in> insert x S" "c \<in> insert x S" for b c
  proof -
    consider "b = x" "c = x" | "b = x" "c \<in> S" | "b \<in> S" "c = x" | "b \<in> S" "c \<in> S"
      using mem by blast
    then have "(start b < start c \<longrightarrow> start b + blk_size b < start c) \<and> (start b = start c \<longrightarrow> b = c)"
    proof cases
      case 1
      then show ?thesis by simp
    next
      case 2
      with assms(2) assms(3)[of c] pos[of c] show ?thesis by fastforce
    next
      case 3
      with assms(2) assms(3)[of b] pos[of b] show ?thesis by fastforce
    next
      case 4
      with assms(1) gappedD show ?thesis by blast
    qed
    then show "start b < start c \<longrightarrow> start b + blk_size b < start c" "start b = start c \<longrightarrow> b = c"
      by auto
  qed
  show ?thesis
    unfolding gapped_def using pos sep assms(2) by blast
qed

lemma addrs_simps [simp]:
  "addrs {} = {}" "addrs (insert b S) = block_addrs b \<union> addrs S" "addrs (S \<union> T) = addrs S \<union> addrs T"
  by (auto simp: addrs_def)

lemma addrs_remove:
  "gapped S \<Longrightarrow> b \<in> S \<Longrightarrow> addrs (S - {b}) = addrs S - block_addrs b"
proof -
  assume g: "gapped S" and b: "b \<in> S"
  have "block_addrs c \<inter> block_addrs b = {}" if "c \<in> S" "c \<noteq> b" for c
  proof (cases "start c" "start b" rule: linorder_cases)
    case less
    with gappedD(2)[OF g that(1) b] show ?thesis by (auto simp: block_addrs_def)
  next
    case equal
    with gappedD(3)[OF g that(1) b] that(2) show ?thesis by simp
  next
    case greater
    with gappedD(2)[OF g b that(1)] show ?thesis by (auto simp: block_addrs_def)
  qed
  then show ?thesis
    using b by (auto simp: addrs_def)
qed

lemma gapped_no_next:
  assumes "gapped S" and "b \<in> S" and "c \<in> S"
    and "start c \<le> start b + blk_size b" and "start b + blk_size b < start c + blk_size c"
  shows False
proof (cases "start c" "start b" rule: linorder_cases)
  case less
  with gappedD(2)[OF assms(1,3,2)] gappedD(1)[OF assms(1,2)] assms(5) show False by linarith
next
  case equal
  with gappedD(3)[OF assms(1,3,2)] assms(5) show False by simp
next
  case greater
  with gappedD(2)[OF assms(1,2,3)] assms(4) show False by linarith
qed

text \<open>A set of addresses has at most one gapped free list.\<close>

lemma gapped_block_unique:
  assumes S: "gapped S" and T: "gapped T" and eq: "addrs S = addrs T" and b: "b \<in> S"
  shows "b \<in> T"
proof -
  have inS: "\<exists>b' \<in> S. start b' \<le> x \<and> x < start b' + blk_size b'" if "x \<in> addrs S" for x
    using that by (auto simp: addrs_def block_addrs_def)
  have inT: "\<exists>c \<in> T. start c \<le> x \<and> x < start c + blk_size c" if "x \<in> addrs T" for x
    using that by (auto simp: addrs_def block_addrs_def)
  have memS: "x \<in> addrs S" if "b' \<in> S" "start b' \<le> x" "x < start b' + blk_size b'" for b' x
    using that by (auto simp: addrs_def block_addrs_def)
  have memT: "x \<in> addrs T" if "c \<in> T" "start c \<le> x" "x < start c + blk_size c" for c x
    using that by (auto simp: addrs_def block_addrs_def)
  have "start b \<in> addrs T"
    using memS[OF b, of "start b"] gappedD(1)[OF S b] eq by simp
  then obtain c where c: "c \<in> T" "start c \<le> start b" "start b < start c + blk_size c"
    using inT by blast
  have st: "start b = start c"
  proof (rule ccontr)
    assume "start b \<noteq> start c"
    then have "start b - 1 \<in> addrs S"
      using memT[OF c(1), of "start b - 1"] c eq by simp
    then obtain b' where b': "b' \<in> S" "start b' \<le> start b - 1" "start b - 1 < start b' + blk_size b'"
      using inS by blast
    with gappedD(2)[OF S b'(1) b] show False by simp
  qed
  have "blk_size b = blk_size c"
  proof (rule ccontr)
    assume "blk_size b \<noteq> blk_size c"
    then consider "blk_size b < blk_size c" | "blk_size c < blk_size b" by linarith
    then show False
    proof cases
      case 1
      then have "start b + blk_size b \<in> addrs S"
        using memT[OF c(1), of "start b + blk_size b"] st gappedD(1)[OF S b] eq by simp
      then obtain b' where b': "b' \<in> S" "start b' \<le> start b + blk_size b"
        "start b + blk_size b < start b' + blk_size b'"
        using inS by blast
      then show False by (rule gapped_no_next[OF S b])
    next
      case 2
      then have "start c + blk_size c \<in> addrs T"
        using memS[OF b, of "start c + blk_size c"] st gappedD(1)[OF T c(1)] eq by simp
      then obtain c' where c': "c' \<in> T" "start c' \<le> start c + blk_size c"
        "start c + blk_size c < start c' + blk_size c'"
        using inT by blast
      then show False by (rule gapped_no_next[OF T c(1)])
    qed
  qed
  with st have "b = c" by simp
  with c(1) show ?thesis by simp
qed

lemma fl_ok_canonical:
  assumes "fl_ok bs" and "fl_ok cs" and "addrs (set bs) = addrs (set cs)"
  shows "bs = cs"
proof -
  have "set bs = set cs"
    using gapped_block_unique[of "set bs" "set cs"] gapped_block_unique[of "set cs" "set bs"] assms
    by (auto simp: fl_ok_def)
  moreover have "inj_on start (set bs \<union> set cs)"
    using assms(1) calculation by (auto simp: fl_ok_def distinct_map)
  moreover have "map start bs = map start cs"
    using assms calculation
    by (intro sorted_distinct_set_unique) (auto simp: fl_ok_def)
  ultimately show ?thesis
    by (simp add: inj_on_map_eq_map)
qed


section \<open>The sorted list at the level of sets\<close>

lemma sl_add_ok:
  assumes "sorted_list_contract sl" and "by_start bs" and "distinct (map start bs)"
    and "start x \<notin> start ` set bs"
  shows "by_start (sl_add sl x bs)" and "distinct (map start (sl_add sl x bs))"
    and "set (sl_add sl x bs) = insert x (set bs)"
    and "sum_list (map blk_size (sl_add sl x bs)) = sum_list (map blk_size bs) + blk_size x"
proof -
  have m: "mset (sl_add sl x bs) = mset (x # bs)" and "by_start (sl_add sl x bs)"
    using assms by (auto simp: sorted_list_contract_def)
  then show "by_start (sl_add sl x bs)" by simp
  have "mset (map start (sl_add sl x bs)) = mset (map start (x # bs))"
    using m by (simp only: mset_map)
  then show "distinct (map start (sl_add sl x bs))"
    using mset_eq_imp_distinct_iff assms by fastforce
  show "set (sl_add sl x bs) = insert x (set bs)"
    using mset_eq_setD[OF m] by simp
  have "sum_mset (image_mset blk_size (mset (sl_add sl x bs))) = sum_mset (image_mset blk_size (mset (x # bs)))"
    using m by simp
  then show "sum_list (map blk_size (sl_add sl x bs)) = sum_list (map blk_size bs) + blk_size x"
    by (simp flip: mset_map add: sum_mset_sum_list)
qed

lemma sl_remove_ok:
  assumes "sorted_list_contract sl" and "by_start bs" and "distinct (map start bs)" and "x \<in> set bs"
  shows "by_start (sl_remove sl x bs)" and "distinct (map start (sl_remove sl x bs))"
    and "set (sl_remove sl x bs) = set bs - {x}"
    and "sum_list (map blk_size (sl_remove sl x bs)) = sum_list (map blk_size bs) - blk_size x"
proof -
  have m: "mset (sl_remove sl x bs) = mset (remove1 x bs)" and "by_start (sl_remove sl x bs)"
    using assms by (auto simp: sorted_list_contract_def)
  then show "by_start (sl_remove sl x bs)" by simp
  have d: "distinct bs" "inj_on start (set bs)"
    using assms(3) by (auto simp: distinct_map)
  then have "distinct (map start (remove1 x bs))"
    by (auto simp: distinct_map intro: inj_on_subset)
  moreover have "mset (map start (sl_remove sl x bs)) = mset (map start (remove1 x bs))"
    using m by (simp only: mset_map)
  ultimately show "distinct (map start (sl_remove sl x bs))"
    using mset_eq_imp_distinct_iff by blast
  show "set (sl_remove sl x bs) = set bs - {x}"
    using mset_eq_setD[OF m] d by simp
  have "sum_list (map blk_size (sl_remove sl x bs)) = sum_list (map blk_size (remove1 x bs))"
    using m by (metis mset_map sum_mset_sum_list)
  then show "sum_list (map blk_size (sl_remove sl x bs)) = sum_list (map blk_size bs) - blk_size x"
    using sum_list_map_remove1[OF assms(4), of blk_size] by simp
qed

lemma fl_update_ok:
  assumes "distinct (map start bs)" and "i < length bs" and "start y = start (bs ! i)"
  shows "map start (bs[i := y]) = map start bs"
    and "set (bs[i := y]) = insert y (set bs - {bs ! i})"
    and "sum_list (map blk_size (bs[i := y])) = sum_list (map blk_size bs) + blk_size y - blk_size (bs ! i)"
proof -
  show "map start (bs[i := y]) = map start bs"
    using assms(2,3) by (simp add: map_update list_update_same_conv)
  show "set (bs[i := y]) = insert y (set bs - {bs ! i})"
    using assms(1,2) by (intro set_update_distinct) (auto simp: distinct_map)
  show "sum_list (map blk_size (bs[i := y])) = sum_list (map blk_size bs) + blk_size y - blk_size (bs ! i)"
    using assms(2) by (simp add: map_update sum_list_update_int)
qed

section \<open>Inserting a region\<close>

definition clear_of :: "free_block set \<Rightarrow> int \<Rightarrow> int \<Rightarrow> bool" where
  "clear_of S a n \<longleftrightarrow> (\<forall>b \<in> S. start b + blk_size b \<le> a \<or> a + n \<le> start b)"

lemma clear_of_iff:
  assumes "gapped S" and "0 < n"
  shows "clear_of S a n \<longleftrightarrow> addrs S \<inter> {a ..< a + n} = {}"
proof
  assume c: "clear_of S a n"
  show "addrs S \<inter> {a ..< a + n} = {}"
  proof (rule ccontr)
    assume "addrs S \<inter> {a ..< a + n} \<noteq> {}"
    then obtain x b where "x \<in> {a ..< a + n}" "b \<in> S" "x \<in> block_addrs b"
      unfolding addrs_def by blast
    with c show False by (fastforce simp: clear_of_def block_addrs_def)
  qed
next
  assume d: "addrs S \<inter> {a ..< a + n} = {}"
  show "clear_of S a n"
    unfolding clear_of_def
  proof
    fix b assume b: "b \<in> S"
    have "block_addrs b \<inter> {a ..< a + n} = {}"
      using d b by (auto simp: addrs_def)
    then have "max (start b) a \<notin> block_addrs b \<inter> {a ..< a + n}" by blast
    then show "start b + blk_size b \<le> a \<or> a + n \<le> start b"
      using gappedD(1)[OF assms(1) b] assms(2) by (auto simp: block_addrs_def)
  qed
qed

text \<open>The four outcomes of \<open>coalesce\<close>, on the set of blocks.\<close>

lemma merge_both_sets:
  assumes g: "gapped S" and c: "clear_of S a n" and n: "0 < n"
    and p: "p \<in> S" "start p + blk_size p = a" and q: "q \<in> S" "a + n = start q"
    and m: "start m = start p" "blk_size m = blk_size p + (n + blk_size q)"
  shows "gapped (insert m (S - {p}) - {q})"
    and "addrs (insert m (S - {p}) - {q}) = addrs S \<union> {a ..< a + n}"
proof -
  have pos: "0 < blk_size p" "0 < blk_size q"
    using gappedD(1)[OF g] p q by auto
  have eq: "insert m (S - {p}) - {q} = insert m (S - {p} - {q})"
    using p(2) q(2) n m pos by auto
  have "start b + blk_size b < start m \<or> start m + blk_size m < start b" if b: "b \<in> S - {p} - {q}" for b
  proof (cases "start b < start p")
    case True
    with gappedD(2)[OF g _ p(1), of b] b m show ?thesis by simp
  next
    case False
    with b gappedD(3)[OF g _ p(1), of b] have "start p < start b" by force
    with gappedD(2)[OF g p(1), of b] b p(2) have "a < start b" by simp
    with c b gappedD(1)[OF g, of b] have "a + n \<le> start b" by (fastforce simp: clear_of_def)
    with q(2) b gappedD(3)[OF g _ q(1), of b] have "start q < start b" by force
    with gappedD(2)[OF g q(1), of b] b m p(2) q(2) show ?thesis by simp
  qed
  then show "gapped (insert m (S - {p}) - {q})"
    unfolding eq using m n pos by (intro gapped_insert gapped_subset[OF g]) auto
  have "p \<noteq> q" using p(2) q(2) n pos by auto
  then have "S = insert p (insert q (S - {p} - {q}))" using p(1) q(1) by auto
  then have "addrs S = block_addrs p \<union> (block_addrs q \<union> addrs (S - {p} - {q}))"
    by (metis addrs_simps(2))
  moreover have "block_addrs m = block_addrs p \<union> {a ..< a + n} \<union> block_addrs q"
    using m p(2) q(2) n pos by (auto simp: block_addrs_def)
  ultimately show "addrs (insert m (S - {p}) - {q}) = addrs S \<union> {a ..< a + n}"
    unfolding eq by auto
qed

lemma merge_prev_sets:
  assumes g: "gapped S" and c: "clear_of S a n" and n: "0 < n"
    and p: "p \<in> S" "start p + blk_size p = a" and nq: "\<And>q. q \<in> S \<Longrightarrow> a + n \<noteq> start q"
    and m: "start m = start p" "blk_size m = blk_size p + n"
  shows "gapped (insert m (S - {p}))" and "addrs (insert m (S - {p})) = addrs S \<union> {a ..< a + n}"
proof -
  have pos: "0 < blk_size p" using gappedD(1)[OF g] p by auto
  have "start b + blk_size b < start m \<or> start m + blk_size m < start b" if b: "b \<in> S - {p}" for b
  proof (cases "start b < start p")
    case True
    with gappedD(2)[OF g _ p(1), of b] b m show ?thesis by simp
  next
    case False
    with b gappedD(3)[OF g _ p(1), of b] have "start p < start b" by force
    with gappedD(2)[OF g p(1), of b] b p(2) have "a < start b" by simp
    with c b gappedD(1)[OF g, of b] have "a + n \<le> start b" by (fastforce simp: clear_of_def)
    with nq[of b] b m p(2) show ?thesis by simp
  qed
  then show "gapped (insert m (S - {p}))"
    using m n pos by (intro gapped_insert gapped_subset[OF g]) auto
  have "S = insert p (S - {p})" using p(1) by auto
  then have "addrs S = block_addrs p \<union> addrs (S - {p})" by (metis addrs_simps(2))
  moreover have "block_addrs m = block_addrs p \<union> {a ..< a + n}"
    using m p(2) n pos by (auto simp: block_addrs_def)
  ultimately show "addrs (insert m (S - {p})) = addrs S \<union> {a ..< a + n}" by auto
qed

lemma merge_succ_sets:
  assumes g: "gapped S" and c: "clear_of S a n" and n: "0 < n"
    and q: "q \<in> S" "a + n = start q" and np: "\<And>p. p \<in> S \<Longrightarrow> start p + blk_size p \<noteq> a"
    and m: "start m = a" "blk_size m = blk_size q + n"
  shows "gapped (insert m (S - {q}))" and "addrs (insert m (S - {q})) = addrs S \<union> {a ..< a + n}"
proof -
  have pos: "0 < blk_size q" using gappedD(1)[OF g] q by auto
  have "start b + blk_size b < start m \<or> start m + blk_size m < start b" if b: "b \<in> S - {q}" for b
  proof (cases "start q < start b")
    case True
    with gappedD(2)[OF g q(1), of b] b m q(2) show ?thesis by simp
  next
    case False
    with b gappedD(3)[OF g _ q(1), of b] have "start b < start q" by force
    with c b q(2) have "start b + blk_size b \<le> a" by (fastforce simp: clear_of_def)
    with np[of b] b m show ?thesis by simp
  qed
  then show "gapped (insert m (S - {q}))"
    using m n pos by (intro gapped_insert gapped_subset[OF g]) auto
  have "S = insert q (S - {q})" using q(1) by auto
  then have "addrs S = block_addrs q \<union> addrs (S - {q})" by (metis addrs_simps(2))
  moreover have "block_addrs m = block_addrs q \<union> {a ..< a + n}"
    using m q(2) n pos by (auto simp: block_addrs_def)
  ultimately show "addrs (insert m (S - {q})) = addrs S \<union> {a ..< a + n}" by auto
qed

lemma add_new_sets:
  assumes g: "gapped S" and c: "clear_of S a n" and n: "0 < n"
    and np: "\<And>p. p \<in> S \<Longrightarrow> start p + blk_size p \<noteq> a" and nq: "\<And>q. q \<in> S \<Longrightarrow> a + n \<noteq> start q"
  shows "gapped (insert \<lparr>start = a, blk_size = n\<rparr> S)"
    and "addrs (insert \<lparr>start = a, blk_size = n\<rparr> S) = addrs S \<union> {a ..< a + n}"
proof -
  have "start b + blk_size b < a \<or> a + n < start b" if b: "b \<in> S" for b
    using c np[OF b] nq[OF b] b by (force simp: clear_of_def)
  then show "gapped (insert \<lparr>start = a, blk_size = n\<rparr> S)"
    using n g by (intro gapped_insert) auto
  show "addrs (insert \<lparr>start = a, blk_size = n\<rparr> S) = addrs S \<union> {a ..< a + n}"
    by (auto simp: block_addrs_def)
qed


section \<open>The free list operations\<close>

definition prev_of :: "free_block list \<Rightarrow> int \<Rightarrow> nat option \<Rightarrow> bool" where
  "prev_of bs a prev \<longleftrightarrow>
     (case prev of
        None \<Rightarrow> (\<forall>b \<in> set bs. a \<le> start b)
      | Some i \<Rightarrow> i < length bs \<and> start (bs ! i) < a \<and>
          (\<forall>b \<in> set bs. start b < a \<longrightarrow> start b \<le> start (bs ! i)))"

definition succ_of :: "free_block list \<Rightarrow> int \<Rightarrow> nat option \<Rightarrow> bool" where
  "succ_of bs a succ \<longleftrightarrow>
     (case succ of
        None \<Rightarrow> (\<forall>b \<in> set bs. start b < a)
      | Some j \<Rightarrow> j < length bs \<and> a \<le> start (bs ! j) \<and>
          (\<forall>b \<in> set bs. a \<le> start b \<longrightarrow> start (bs ! j) \<le> start b))"

lemma merge_prev_complete:
  assumes ok: "fl_ok bs" and prev: "prev_of bs a prev" and b: "b \<in> set bs" "start b + blk_size b = a"
  shows "\<exists>i. prev = Some i \<and> bs ! i = b"
proof -
  have g: "gapped (set bs)" using ok by (simp add: fl_ok_def)
  have "start b < a" using gappedD(1)[OF g b(1)] b(2) by simp
  with prev b obtain i where i: "prev = Some i" "i < length bs" "start (bs ! i) < a" "start b \<le> start (bs ! i)"
    by (auto simp: prev_of_def split: option.splits)
  have "start b = start (bs ! i)"
    using gappedD(2)[OF g b(1), of "bs ! i"] i b(2) by force
  then have "bs ! i = b" using gappedD(3)[OF g b(1), of "bs ! i"] i(2) by simp
  with i(1) show ?thesis by blast
qed

lemma merge_succ_complete:
  assumes ok: "fl_ok bs" and succ: "succ_of bs a succ" and c: "clear_of (set bs) a n"
    and n: "0 < n" and b: "b \<in> set bs" "a + n = start b"
  shows "\<exists>j. succ = Some j \<and> bs ! j = b"
proof -
  have g: "gapped (set bs)" using ok by (simp add: fl_ok_def)
  have "a \<le> start b" using b(2) n by simp
  with succ b obtain j where j: "succ = Some j" "j < length bs" "a \<le> start (bs ! j)" "start (bs ! j) \<le> start b"
    by (force simp: succ_of_def split: option.splits)
  have "bs ! j \<in> set bs" using j(2) by simp
  then have "a + n \<le> start (bs ! j)"
    using c j(3) gappedD(1)[OF g, of "bs ! j"] by (fastforce simp: clear_of_def)
  with j(4) b(2) have "start b = start (bs ! j)" by simp
  then have "bs ! j = b" using gappedD(3)[OF g b(1), of "bs ! j"] j(2) by simp
  with j(1) show ?thesis by blast
qed

text \<open>The part that \<open>free\<close> and \<open>sbrk\<close> share: merge the region, or add it as a new block.\<close>

definition put_region ::
  "address_manager \<Rightarrow> free_block \<Rightarrow> nat option \<Rightarrow> nat option \<Rightarrow> address_manager" where
  "put_region am cur prev succ =
     (let (coalesced, am1) = coalesce am cur prev succ
      in if coalesced then am1
         else am1\<lparr>explicit_list := sl_add (am_sorted_list am) cur (explicit_list am1)\<rparr>)"

lemma put_region_frame [simp]:
  "am_size (put_region am cur prev succ) = am_size am"
  "am_align (put_region am cur prev succ) = am_align am"
  "am_sorted_list (put_region am cur prev succ) = am_sorted_list am"
  "total_allocated_size (put_region am cur prev succ) = total_allocated_size am"
  by (auto simp: put_region_def coalesce_def Let_def split: option.splits if_splits)

text \<open>The four outcomes of \<open>coalesce\<close>, on the list.\<close>

definition fl_adds :: "free_block list \<Rightarrow> int \<Rightarrow> int \<Rightarrow> free_block list \<Rightarrow> bool" where
  "fl_adds bs a n bs' \<longleftrightarrow> fl_ok bs' \<and> addrs (set bs') = addrs (set bs) \<union> {a ..< a + n} \<and>
     sum_list (map blk_size bs') = sum_list (map blk_size bs) + n"

lemma fl_okD:
  assumes "fl_ok bs"
  shows "by_start bs" and "distinct (map start bs)" and "gapped (set bs)"
  using assms by (auto simp: fl_ok_def)

lemma clear_of_fresh:
  assumes "gapped S" and "clear_of S a n" and "0 < n" and "b \<in> S"
  shows "start b \<noteq> a"
proof -
  have "start b + blk_size b \<le> a \<or> a + n \<le> start b" using assms(2,4) by (simp add: clear_of_def)
  with gappedD(1)[OF assms(1,4)] assms(3) show ?thesis by linarith
qed

lemma fl_merge_both:
  assumes con: "sorted_list_contract sl" and ok: "fl_ok bs" and n: "0 < n" and c: "clear_of (set bs) a n"
    and i: "i < length bs" "start (bs ! i) + blk_size (bs ! i) = a"
    and j: "j < length bs" "a + n = start (bs ! j)"
    and m: "start m = start (bs ! i)" "blk_size m = blk_size (bs ! i) + (n + blk_size (bs ! j))"
  shows "fl_adds bs a n (sl_remove sl (bs ! j) (bs[i := m]))"
proof -
  note u = fl_update_ok[OF fl_okD(2)[OF ok] i(1) m(1)]
  have "0 < blk_size (bs ! i)" using gappedD(1)[OF fl_okD(3)[OF ok] nth_mem[OF i(1)]] .
  then have "bs ! j \<noteq> bs ! i" using i(2) j(2) n by auto
  then have "bs ! j \<in> set (bs[i := m])" unfolding u(2) using nth_mem[OF j(1)] by blast
  moreover have "by_start (bs[i := m])" "distinct (map start (bs[i := m]))"
    unfolding u(1) by (rule fl_okD[OF ok])+
  ultimately have r: "by_start (sl_remove sl (bs ! j) (bs[i := m]))"
    "distinct (map start (sl_remove sl (bs ! j) (bs[i := m])))"
    "set (sl_remove sl (bs ! j) (bs[i := m])) = insert m (set bs - {bs ! i}) - {bs ! j}"
    "sum_list (map blk_size (sl_remove sl (bs ! j) (bs[i := m]))) =
       sum_list (map blk_size bs) + blk_size m - blk_size (bs ! i) - blk_size (bs ! j)"
    using sl_remove_ok[OF con, of "bs[i := m]" "bs ! j"] unfolding u(2,3) by blast+
  note M = merge_both_sets[OF fl_okD(3)[OF ok] c n nth_mem[OF i(1)] i(2) nth_mem[OF j(1)] j(2) m]
  show ?thesis
    unfolding fl_adds_def fl_ok_def r(3) r(4) m(2) using r(1,2) M by simp
qed

lemma fl_merge_prev:
  assumes ok: "fl_ok bs" and n: "0 < n" and c: "clear_of (set bs) a n"
    and i: "i < length bs" "start (bs ! i) + blk_size (bs ! i) = a"
    and nq: "\<And>q. q \<in> set bs \<Longrightarrow> a + n \<noteq> start q"
    and m: "start m = start (bs ! i)" "blk_size m = blk_size (bs ! i) + n"
  shows "fl_adds bs a n (bs[i := m])"
proof -
  note u = fl_update_ok[OF fl_okD(2)[OF ok] i(1) m(1)]
  note M = merge_prev_sets[OF fl_okD(3)[OF ok] c n nth_mem[OF i(1)] i(2) nq m]
  show ?thesis
    unfolding fl_adds_def fl_ok_def u using fl_okD[OF ok] M m(2) by simp
qed

lemma fl_merge_succ:
  assumes con: "sorted_list_contract sl" and ok: "fl_ok bs" and n: "0 < n" and c: "clear_of (set bs) a n"
    and j: "j < length bs" "a + n = start (bs ! j)"
    and np: "\<And>p. p \<in> set bs \<Longrightarrow> start p + blk_size p \<noteq> a"
    and m: "start m = a" "blk_size m = blk_size (bs ! j) + n"
  shows "fl_adds bs a n (sl_add sl m (sl_remove sl (bs ! j) bs))"
proof -
  note r = sl_remove_ok[OF con fl_okD(1,2)[OF ok] nth_mem[OF j(1)]]
  have "start b \<noteq> a" if "b \<in> set bs" for b
    using clear_of_fresh[OF fl_okD(3)[OF ok] c n that] .
  then have "start m \<notin> start ` set (sl_remove sl (bs ! j) bs)"
    unfolding r(3) m(1) by blast
  note A = sl_add_ok[OF con r(1,2) this]
  note M = merge_succ_sets[OF fl_okD(3)[OF ok] c n nth_mem[OF j(1)] j(2) np m]
  show ?thesis
    unfolding fl_adds_def fl_ok_def A(3) r(3) using A(1,2,4) r(4) M m(2) by simp
qed

lemma fl_add_new:
  assumes con: "sorted_list_contract sl" and ok: "fl_ok bs" and n: "0 < n" and c: "clear_of (set bs) a n"
    and np: "\<And>p. p \<in> set bs \<Longrightarrow> start p + blk_size p \<noteq> a"
    and nq: "\<And>q. q \<in> set bs \<Longrightarrow> a + n \<noteq> start q"
  shows "fl_adds bs a n (sl_add sl \<lparr>start = a, blk_size = n\<rparr> bs)"
proof -
  have "start b \<noteq> a" if "b \<in> set bs" for b
    using clear_of_fresh[OF fl_okD(3)[OF ok] c n that] .
  then have "start \<lparr>start = a, blk_size = n\<rparr> \<notin> start ` set bs" by auto
  note A = sl_add_ok[OF con fl_okD(1,2)[OF ok] this]
  note M = add_new_sets[OF fl_okD(3)[OF ok] c n np nq]
  show ?thesis
    unfolding fl_adds_def fl_ok_def A(3) using A(1,2,4) M by simp
qed

lemma prev_merges_iff:
  assumes "fl_ok bs" and "prev_of bs a prev"
  shows "(case prev of None \<Rightarrow> False | Some i \<Rightarrow> can_be_coalesced (bs ! i) \<lparr>start = a, blk_size = n\<rparr>) \<longleftrightarrow>
    (\<exists>p \<in> set bs. start p + blk_size p = a)"
proof (cases prev)
  case None
  with merge_prev_complete[OF assms] show ?thesis by auto
next
  case (Some i)
  then have "bs ! i \<in> set bs" using assms(2) by (simp add: prev_of_def)
  moreover have "bs ! i = p" if "p \<in> set bs" "start p + blk_size p = a" for p
    using merge_prev_complete[OF assms that] Some by simp
  ultimately show ?thesis
    unfolding Some option.case can_be_coalesced_def free_block.simps by metis
qed

lemma succ_merges_iff:
  assumes "fl_ok bs" and "succ_of bs a succ" and "clear_of (set bs) a n" and "0 < n"
  shows "(case succ of None \<Rightarrow> False | Some j \<Rightarrow> can_be_coalesced \<lparr>start = a, blk_size = n\<rparr> (bs ! j)) \<longleftrightarrow>
    (\<exists>q \<in> set bs. a + n = start q)"
proof (cases succ)
  case None
  with merge_succ_complete[OF assms] show ?thesis by auto
next
  case (Some j)
  then have "bs ! j \<in> set bs" using assms(2) by (simp add: succ_of_def)
  moreover have "bs ! j = q" if "q \<in> set bs" "a + n = start q" for q
    using merge_succ_complete[OF assms that] Some by simp
  ultimately show ?thesis
    unfolding Some option.case can_be_coalesced_def free_block.simps by metis
qed

lemma put_region_refines:
  assumes con: "sorted_list_contract (am_sorted_list am)" and ok: "fl_ok (explicit_list am)"
    and prev: "prev_of (explicit_list am) a prev" and succ: "succ_of (explicit_list am) a succ"
    and n: "0 < n" and c: "clear_of (set (explicit_list am)) a n"
  shows "fl_adds (explicit_list am) a n
    (explicit_list (put_region am \<lparr>start = a, blk_size = n\<rparr> prev succ))"
proof -
  let ?bs = "explicit_list am" and ?r = "\<lparr>start = a, blk_size = n\<rparr>"
  let ?mp = "case prev of None \<Rightarrow> False | Some i \<Rightarrow> can_be_coalesced (?bs ! i) ?r"
  let ?mq = "case succ of None \<Rightarrow> False | Some j \<Rightarrow> can_be_coalesced ?r (?bs ! j)"
  have np: "start p + blk_size p \<noteq> a" if "\<not> ?mp" "p \<in> set ?bs" for p
    using prev_merges_iff[OF ok prev, of n] that by blast
  have nq: "a + n \<noteq> start q" if "\<not> ?mq" "q \<in> set ?bs" for q
    using succ_merges_iff[OF ok succ c n] that by blast
  have i: "\<exists>i. prev = Some i \<and> i < length ?bs \<and> start (?bs ! i) + blk_size (?bs ! i) = a" if ?mp
    using that prev by (auto simp: prev_of_def can_be_coalesced_def split: option.splits)
  have j: "\<exists>j. succ = Some j \<and> j < length ?bs \<and> a + n = start (?bs ! j)" if ?mq
    using that succ by (auto simp: succ_of_def can_be_coalesced_def split: option.splits)
  note unf = put_region_def coalesce_def Let_def
  consider (both) ?mp ?mq | (prv) ?mp "\<not> ?mq" | (suc) "\<not> ?mp" ?mq | (new) "\<not> ?mp" "\<not> ?mq" by blast
  then show ?thesis
  proof cases
    case both
    obtain k l where k: "prev = Some k" "k < length ?bs" "start (?bs ! k) + blk_size (?bs ! k) = a"
      and l: "succ = Some l" "l < length ?bs" "a + n = start (?bs ! l)"
      using i[OF both(1)] j[OF both(2)] by blast
    show ?thesis
      using fl_merge_both[OF con ok n c k(2,3) l(2,3), of "(?bs ! k)\<lparr>blk_size := blk_size (?bs ! k) + (n + blk_size (?bs ! l))\<rparr>"]
        both k(1) l(1) by (simp add: unf)
  next
    case prv
    obtain k where k: "prev = Some k" "k < length ?bs" "start (?bs ! k) + blk_size (?bs ! k) = a"
      using i[OF prv(1)] by blast
    let ?m = "(?bs ! k)\<lparr>blk_size := blk_size (?bs ! k) + n\<rparr>"
    have "explicit_list (put_region am ?r prev succ) = ?bs[k := ?m]"
      using prv k(1) by (cases succ) (simp_all add: unf)
    then show ?thesis
      using fl_merge_prev[OF ok n c k(2,3) nq[OF prv(2)], of ?m] by simp
  next
    case suc
    obtain l where l: "succ = Some l" "l < length ?bs" "a + n = start (?bs ! l)"
      using j[OF suc(2)] by blast
    let ?m = "\<lparr>start = start (?bs ! l) - n, blk_size = blk_size (?bs ! l) + n\<rparr>"
    have "explicit_list (put_region am ?r prev succ) =
        sl_add (am_sorted_list am) ?m (sl_remove (am_sorted_list am) (?bs ! l) ?bs)"
      using suc l(1) by (cases prev) (simp_all add: unf)
    then show ?thesis
      using fl_merge_succ[OF con ok n c l(2,3) np[OF suc(1)], of ?m] l(3) by simp
  next
    case new
    have "explicit_list (put_region am ?r prev succ) = sl_add (am_sorted_list am) ?r ?bs"
      using new by (simp add: unf)
    then show ?thesis
      using fl_add_new[OF con ok n c np[OF new(1)] nq[OF new(2)]] by simp
  qed
qed

text \<open>Cutting a region off the front of a block.\<close>

definition fl_cuts :: "free_block list \<Rightarrow> int \<Rightarrow> int \<Rightarrow> free_block list \<Rightarrow> bool" where
  "fl_cuts bs a n bs' \<longleftrightarrow> fl_ok bs' \<and> addrs (set bs') = addrs (set bs) - {a ..< a + n} \<and>
     sum_list (map blk_size bs') = sum_list (map blk_size bs) - n"

lemma fl_ok_Cons:
  "fl_ok (b # bs) \<longleftrightarrow>
     0 < blk_size b \<and> (\<forall>c \<in> set bs. start b + blk_size b < start c) \<and> fl_ok bs"
  (is "?l \<longleftrightarrow> ?r")
proof
  assume l: ?l
  then have g: "gapped (insert b (set bs))" and lt: "start b < start c" if "c \<in> set bs" for c
    using that by (force simp: fl_ok_def)+
  have "gapped (set bs)" using l gapped_subset[of "set (b # bs)" "set bs"] by (auto simp: fl_ok_def)
  then show ?r
    using l lt gappedD(2)[of "set (b # bs)" b] gappedD(1)[of "set (b # bs)" b] by (auto simp: fl_ok_def)
next
  assume r: ?r
  then have "gapped (insert b (set bs))"
    by (intro gapped_insert) (auto simp: fl_ok_def)
  with r show ?l by (force simp: fl_ok_def)
qed

lemma fl_cut:
  assumes con: "sorted_list_contract sl" and ok: "fl_ok bs" and b: "b \<in> set bs"
    and n: "0 < n" "n \<le> blk_size b"
  defines "r \<equiv> \<lparr>start = start b + n, blk_size = blk_size b - n\<rparr>"
  shows "fl_cuts bs (start b) n
    (if blk_size b > n then sl_add sl r (sl_remove sl b bs) else sl_remove sl b bs)"
proof -
  note g = fl_okD(3)[OF ok] and rm = sl_remove_ok[OF con fl_okD(1,2)[OF ok] b]
  note rest = gapped_subset[OF g Diff_subset[of _ "{b}"]] addrs_remove[OF g b]
  have sub: "block_addrs b \<subseteq> addrs (set bs)" using b by (auto simp: addrs_def)
  show ?thesis
  proof (cases "blk_size b > n")
    case False
    then have "block_addrs b = {start b ..< start b + n}" using n by (simp add: block_addrs_def)
    then show ?thesis
      unfolding fl_cuts_def fl_ok_def using False n rm rest by simp
  next
    case True
    have sep: "start c + blk_size c < start r \<or> start r + blk_size r < start c" if "c \<in> set bs - {b}" for c
    proof (cases "start b" "start c" rule: linorder_cases)
      case less
      with gappedD(2)[OF g b, of c] that show ?thesis by (simp add: r_def)
    next
      case equal
      with gappedD(3)[OF g b, of c] that show ?thesis by auto
    next
      case greater
      with gappedD(2)[OF g _ b, of c] that n show ?thesis by (simp add: r_def)
    qed
    then have "gapped (insert r (set bs - {b}))"
      using True rest(1) by (intro gapped_insert) (auto simp: r_def)
    moreover have "start r \<notin> start ` set (sl_remove sl b bs)"
      unfolding rm(3) using sep gappedD(1)[OF g] True by (force simp: r_def)
    note A = sl_add_ok[OF con rm(1,2) this]
    moreover have "block_addrs r = block_addrs b - {start b ..< start b + n}" "{start b ..< start b + n} \<subseteq> block_addrs b"
      using n by (auto simp: block_addrs_def r_def)
    then have "block_addrs r \<union> (addrs (set bs) - block_addrs b) = addrs (set bs) - {start b ..< start b + n}"
      using sub by blast
    ultimately show ?thesis
      unfolding fl_cuts_def fl_ok_def using True rm(3,4) rest(2) A by (simp add: r_def)
  qed
qed

text \<open>Block starts are the addresses where a run of free addresses begins.\<close>

lemma gapped_start_iff:
  assumes "gapped S"
  shows "a \<in> start ` S \<longleftrightarrow> a \<in> addrs S \<and> a - 1 \<notin> addrs S"
proof
  assume "a \<in> start ` S"
  then obtain b where b: "b \<in> S" "a = start b" by blast
  have "start c \<le> start b - 1 \<Longrightarrow> \<not> start b - 1 < start c + blk_size c" if "c \<in> S" for c
    using gappedD(2)[OF assms that b(1)] by linarith
  with b gappedD(1)[OF assms b(1)] show "a \<in> addrs S \<and> a - 1 \<notin> addrs S"
    by (fastforce simp: addrs_def block_addrs_def)
next
  assume a: "a \<in> addrs S \<and> a - 1 \<notin> addrs S"
  then obtain b where b: "b \<in> S" "start b \<le> a" "a < start b + blk_size b"
    by (auto simp: addrs_def block_addrs_def)
  with a have "a = start b" by (force simp: addrs_def block_addrs_def)
  with b(1) show "a \<in> start ` S" by blast
qed

section \<open>Alignment\<close>

lemma and_not_mask_int: "x AND NOT (2 ^ k - 1) = x div 2 ^ k * (2 ^ k :: int)"
proof -
  have "x AND NOT (mask k) = push_bit k (drop_bit k x)"
    by (rule bit_eqI) (auto simp: bit_simps)
  then show ?thesis by (simp add: mask_eq_exp_minus_1 push_bit_eq_mult drop_bit_eq_div)
qed

lemma round_up_bounds:
  fixes x d :: int
  assumes "0 < d"
  shows "x \<le> (x + d - 1) div d * d" and "(x + d - 1) div d * d < x + d"
proof -
  have "(x + d - 1) div d * d + (x + d - 1) mod d = x + d - 1" by simp
  moreover have "0 \<le> (x + d - 1) mod d" "(x + d - 1) mod d < d" using assms by simp_all
  ultimately show "x \<le> (x + d - 1) div d * d" and "(x + d - 1) div d * d < x + d" by linarith+
qed

lemma compute_aligned_size_eq:
  "am_align am = 2 ^ k \<Longrightarrow> compute_aligned_size am x = (x + am_align am - 1) div am_align am * am_align am"
  by (simp add: compute_aligned_size_def and_not_mask_int)

lemma aligned_size_pos:
  assumes "am_inv am" and "0 < sz"
  shows "sz \<le> compute_aligned_size am sz" and "0 < compute_aligned_size am sz"
    and "am_align am dvd compute_aligned_size am sz"
proof -
  obtain k where k: "am_align am = 2 ^ k" using assms(1) by (auto simp: am_inv_def)
  then have "0 < am_align am" by simp
  from round_up_bounds(1)[OF this, of sz]
  show "sz \<le> compute_aligned_size am sz" by (simp only: compute_aligned_size_eq[OF k])
  with assms(2) show "0 < compute_aligned_size am sz" by linarith
  show "am_align am dvd compute_aligned_size am sz" by (simp add: compute_aligned_size_eq[OF k])
qed

section \<open>Single allocation\<close>

lemma first_fit_Some:
  "first_fit n bs = Some b \<Longrightarrow> by_start bs \<Longrightarrow>
     b \<in> set bs \<and> n \<le> blk_size b \<and> (\<forall>c \<in> set bs. n \<le> blk_size c \<longrightarrow> start b \<le> start c)"
  by (induction bs) (auto split: if_splits)

lemma first_fit_None_iff: "first_fit n bs = None \<longleftrightarrow> (\<forall>b \<in> set bs. blk_size b < n)"
  by (induction bs) auto

lemma am_invD:
  assumes "am_inv am"
  shows "sorted_list_contract (am_sorted_list am)" and "fl_ok (explicit_list am)"
    and "free_addrs am \<subseteq> {0 ..< am_size am}"
    and "sum_list (map blk_size (explicit_list am)) + total_allocated_size am = am_size am"
    and "\<exists>k. am_align am = 2 ^ k"
  using assms by (auto simp: am_inv_def)

text \<open>A run of free addresses lies in one block.\<close>

lemma run_in_block:
  assumes g: "gapped S" and n: "0 < n" and sub: "{a ..< a + n} \<subseteq> addrs S"
  shows "\<exists>b \<in> S. {a ..< a + n} \<subseteq> block_addrs b"
proof -
  have "a \<in> addrs S" using sub n by auto
  then obtain b where b: "b \<in> S" "start b \<le> a" "a < start b + blk_size b"
    by (auto simp: addrs_def block_addrs_def)
  have "start b + blk_size b \<notin> addrs S"
    using gapped_no_next[OF g b(1)] by (auto simp: addrs_def block_addrs_def)
  with sub b have "\<not> start b + blk_size b < a + n" by (meson atLeastLessThan_iff less_imp_le subsetD)
  with b show ?thesis by (auto simp: block_addrs_def intro!: bexI[of _ b])
qed

lemma am_allocate_step:
  assumes inv: "am_inv am" and res: "am_allocate am sz = Inr ((a, n), am')"
  shows "0 < sz" and "n = compute_aligned_size am sz"
    and "\<exists>b \<in> set (explicit_list am). a = start b \<and> n \<le> blk_size b \<and>
           (\<forall>c \<in> set (explicit_list am). n \<le> blk_size c \<longrightarrow> a \<le> start c)"
    and "fl_cuts (explicit_list am) a n (explicit_list am')"
    and "am_size am' = am_size am" and "am_align am' = am_align am" and "am_sorted_list am' = am_sorted_list am"
    and "total_allocated_size am' = total_allocated_size am + n"
proof -
  let ?n = "compute_aligned_size am sz"
  show sz: "0 < sz" using res by (auto simp: am_allocate_def split: if_splits)
  obtain b where ff: "first_fit ?n (explicit_list am) = Some b"
    using res sz by (cases "first_fit ?n (explicit_list am)") (auto simp: am_allocate_def Let_def)
  note b = first_fit_Some[OF ff fl_okD(1)[OF am_invD(2)[OF inv]]]
  have eqs: "a = start b" "n = ?n" and am': "am' = am\<lparr>explicit_list :=
      (if blk_size b > ?n then sl_add (am_sorted_list am) \<lparr>start = start b + ?n, blk_size = blk_size b - ?n\<rparr>
         (sl_remove (am_sorted_list am) b (explicit_list am))
       else sl_remove (am_sorted_list am) b (explicit_list am)),
      total_allocated_size := total_allocated_size am + ?n\<rparr>"
    using res sz ff by (auto simp: am_allocate_def Let_def)
  show "n = ?n" by fact
  show "\<exists>b \<in> set (explicit_list am). a = start b \<and> n \<le> blk_size b \<and>
      (\<forall>c \<in> set (explicit_list am). n \<le> blk_size c \<longrightarrow> a \<le> start c)"
    using b eqs by blast
  show "fl_cuts (explicit_list am) a n (explicit_list am')"
    using fl_cut[OF am_invD(1,2)[OF inv], of b ?n] b aligned_size_pos(2)[OF inv sz] eqs by (simp add: am')
  show "am_size am' = am_size am" "am_align am' = am_align am" "am_sorted_list am' = am_sorted_list am"
    "total_allocated_size am' = total_allocated_size am + n"
    by (simp_all add: am' eqs)
qed

lemma am_allocate_error:
  assumes inv: "am_inv am" and sz: "0 < sz"
  shows "am_allocate am sz = Inl e \<longleftrightarrow> e = RuntimeError \<and>
    \<not> (\<exists>a. {a ..< a + compute_aligned_size am sz} \<subseteq> free_addrs am)"
proof -
  let ?n = "compute_aligned_size am sz"
  have n: "0 < ?n" by (rule aligned_size_pos(2)[OF inv sz])
  note g = fl_okD(3)[OF am_invD(2)[OF inv]]
  have "(\<forall>b \<in> set (explicit_list am). blk_size b < ?n) \<longleftrightarrow> \<not> (\<exists>a. {a ..< a + ?n} \<subseteq> free_addrs am)"
  proof (intro iffI notI ballI)
    assume small: "\<forall>b \<in> set (explicit_list am). blk_size b < ?n" and "\<exists>a. {a ..< a + ?n} \<subseteq> free_addrs am"
    then obtain a b where "b \<in> set (explicit_list am)" "{a ..< a + ?n} \<subseteq> block_addrs b"
      unfolding free_addrs_def using run_in_block[OF g n] by blast
    with small n show False by (auto simp: block_addrs_def)
  next
    fix b assume no: "\<not> (\<exists>a. {a ..< a + ?n} \<subseteq> free_addrs am)" and b: "b \<in> set (explicit_list am)"
    show "blk_size b < ?n"
    proof (rule ccontr)
      assume "\<not> blk_size b < ?n"
      then have "{start b ..< start b + ?n} \<subseteq> block_addrs b" by (auto simp: block_addrs_def)
      with no b show False unfolding free_addrs_def addrs_def by blast
    qed
  qed
  then show ?thesis
    using sz by (auto simp: am_allocate_def Let_def first_fit_None_iff[symmetric] split: option.splits)
qed

lemma am_inv_cut:
  assumes "am_inv am" and "fl_cuts (explicit_list am) a n (explicit_list am')"
    and "am_size am' = am_size am" and "am_align am' = am_align am" and "am_sorted_list am' = am_sorted_list am"
    and "total_allocated_size am' = total_allocated_size am + n"
  shows "am_inv am'" and "free_addrs am' = free_addrs am - {a ..< a + n}"
  using assms by (auto simp: am_inv_def fl_cuts_def free_addrs_def)

section \<open>Batched allocation\<close>

definition region :: "int \<times> int \<Rightarrow> int set" where
  "region r = {fst r ..< fst r + snd r}"

definition regions :: "(int \<times> int) list \<Rightarrow> int set" where
  "regions rs = (\<Union>r \<in> set rs. region r)"

definition apart :: "(int \<times> int) list \<Rightarrow> bool" where
  "apart = sorted_wrt (\<lambda>r s. region r \<inter> region s = {})"

lemma regions_simps [simp]:
  "regions [] = {}" "regions (r # rs) = region r \<union> regions rs" "regions (rs @ ss) = regions rs \<union> regions ss"
  by (auto simp: regions_def)

lemma apart_append:
  "apart (rs @ ss) \<longleftrightarrow> apart rs \<and> apart ss \<and> regions rs \<inter> regions ss = {}"
  by (auto simp: apart_def sorted_wrt_append regions_def disjoint_iff)

lemma apart_simps [simp]:
  "apart []" "apart (r # rs) \<longleftrightarrow> apart rs \<and> region r \<inter> regions rs = {}"
  by (auto simp: apart_def regions_def disjoint_iff)

definition slices :: "int \<Rightarrow> int \<Rightarrow> nat \<Rightarrow> (int \<times> int) list" where
  "slices a n k = map (\<lambda>i. (a + int i * n, n)) [0..<k]"

lemma slices_Suc: "slices a n (Suc k) = slices a n k @ [(a + int k * n, n)]"
  by (simp add: slices_def)

lemma slices_regions:
  assumes "0 < n"
  shows "regions (slices a n k) = {a ..< a + int k * n}" and "apart (slices a n k)"
proof (induction k)
  case (Suc k)
  let ?m = "a + int k * n"
  have m: "a \<le> ?m" "?m \<le> ?m + n" using assms by simp_all
  have "regions (slices a n (Suc k)) = {a ..< ?m} \<union> {?m ..< ?m + n}"
    unfolding slices_Suc regions_simps Suc(1) by (simp add: region_def)
  also have "\<dots> = {a ..< ?m + n}" using ivl_disj_un_two(3)[OF m] .
  also have "?m + n = a + int (Suc k) * n" by (simp add: distrib_right)
  finally show "regions (slices a n (Suc k)) = {a ..< a + int (Suc k) * n}" .
  show "apart (slices a n (Suc k))"
    unfolding slices_Suc apart_append Suc(1) using Suc(2) by (simp add: region_def)
qed (simp_all add: slices_def)

text \<open>The free list that carving \<open>rem\<close> chunks of size \<open>n\<close> leaves, and the carved chunks.\<close>

fun carve_rest :: "int \<Rightarrow> int \<Rightarrow> free_block list \<Rightarrow> free_block list" where
  "carve_rest n rem [] = []"
| "carve_rest n rem (b # bs) =
     (if rem \<le> 0 then b # bs
      else if blk_size b < n then b # carve_rest n rem bs
      else let k = min rem (blk_size b div n); used = k * n
           in (if blk_size b > used then [\<lparr>start = start b + used, blk_size = blk_size b - used\<rparr>] else [])
              @ carve_rest n (rem - k) bs)"

fun carve_regions :: "int \<Rightarrow> int \<Rightarrow> free_block list \<Rightarrow> (int \<times> int) list" where
  "carve_regions n rem [] = []"
| "carve_regions n rem (b # bs) =
     (if rem \<le> 0 then []
      else if blk_size b < n then carve_regions n rem bs
      else let k = min rem (blk_size b div n)
           in slices (start b) n (nat k) @ carve_regions n (rem - k) bs)"

fun carve_removed :: "int \<Rightarrow> int \<Rightarrow> free_block list \<Rightarrow> free_block list" where
  "carve_removed n rem [] = []"
| "carve_removed n rem (b # bs) =
     (if rem \<le> 0 then []
      else if blk_size b < n then carve_removed n rem bs
      else b # carve_removed n (rem - min rem (blk_size b div n)) bs)"

fun carve_added :: "int \<Rightarrow> int \<Rightarrow> free_block list \<Rightarrow> free_block list" where
  "carve_added n rem [] = []"
| "carve_added n rem (b # bs) =
     (if rem \<le> 0 then []
      else if blk_size b < n then carve_added n rem bs
      else let k = min rem (blk_size b div n); used = k * n
           in (if blk_size b > used then [\<lparr>start = start b + used, blk_size = blk_size b - used\<rparr>] else [])
              @ carve_added n (rem - k) bs)"

lemma div_chunk_pos: "0 < n \<Longrightarrow> (n::int) \<le> s \<Longrightarrow> 0 < s div n"
  by (simp add: pos_imp_zdiv_pos_iff)

lemma carve_closed:
  assumes "0 < n"
  shows "carve n bs cv =
    Inr \<lparr>cv_remaining = cv_remaining cv - int (length (carve_regions n (cv_remaining cv) bs)),
      cv_result = cv_result cv @ carve_regions n (cv_remaining cv) bs,
      cv_remove = cv_remove cv @ carve_removed n (cv_remaining cv) bs,
      cv_add = cv_add cv @ carve_added n (cv_remaining cv) bs\<rparr>"
proof (induction bs arbitrary: cv)
  case (Cons b bs)
  show ?case
  proof (cases "0 < cv_remaining cv \<and> n \<le> blk_size b")
    case False
    with Cons show ?thesis by auto
  next
    case True
    define k where "k = min (cv_remaining cv) (blk_size b div n)"
    have k: "0 \<le> k" using True div_chunk_pos[OF assms, of "blk_size b"] by (simp add: k_def)
    have len: "length (slices (start b) n (nat k)) = nat k" by (simp add: slices_def)
    define cv' where "cv' = \<lparr>cv_remaining = cv_remaining cv - k,
      cv_result = cv_result cv @ slices (start b) n (nat k), cv_remove = cv_remove cv @ [b],
      cv_add = cv_add cv @ (if blk_size b > k * n
        then [\<lparr>start = start b + k * n, blk_size = blk_size b - k * n\<rparr>] else [])\<rparr>"
    have "carve n (b # bs) cv = carve n bs cv'"
      using True assms by (simp add: Let_def slices_def cv'_def k_def)
    moreover have "carve_regions n (cv_remaining cv) (b # bs) =
        slices (start b) n (nat k) @ carve_regions n (cv_remaining cv') bs"
      "carve_removed n (cv_remaining cv) (b # bs) = b # carve_removed n (cv_remaining cv') bs"
      "cv_add cv @ carve_added n (cv_remaining cv) (b # bs) = cv_add cv' @ carve_added n (cv_remaining cv') bs"
      using True by (simp_all add: Let_def cv'_def k_def)
    ultimately show ?thesis
      using Cons[of cv'] k len by (simp add: cv'_def)
  qed
qed simp

lemma subseteq_add_mset: "A \<subseteq># B \<Longrightarrow> A \<subseteq># add_mset b B"
  by (metis add_mset_add_single mset_subset_eq_add_left subset_mset.order_trans)

lemma carve_removed_sub: "mset (carve_removed n rem bs) \<subseteq># mset bs"
  by (induction n rem bs rule: carve_removed.induct) (simp_all add: subseteq_add_mset)

lemma carve_mset:
  "mset (carve_rest n rem bs) + mset (carve_removed n rem bs) = mset bs + mset (carve_added n rem bs)"
proof (induction bs arbitrary: rem)
  case (Cons b bs)
  show ?case
    using Cons[of rem] Cons[of "rem - min rem (blk_size b div n)"] by (simp add: Let_def)
qed simp

lemma carve_rest_starts:
  assumes "0 < n" and "c \<in> set (carve_rest n rem bs)"
  shows "\<exists>b \<in> set bs. start b \<le> start c"
  using assms(2)
proof (induction bs arbitrary: rem)
  case (Cons b bs)
  show ?case
  proof (cases "0 < rem \<and> n \<le> blk_size b")
    case False
    with Cons show ?thesis by (fastforce split: if_splits)
  next
    case True
    define k where "k = min rem (blk_size b div n)"
    have "0 \<le> k * n" using True div_chunk_pos[OF assms(1), of "blk_size b"] assms(1) by (simp add: k_def)
    with Cons True show ?thesis by (fastforce simp: Let_def k_def[symmetric] split: if_splits)
  qed
qed simp

text \<open>What carving does to a sorted, gapped list.\<close>

lemma carve_rest_step:
  assumes n: "0 < n" and ok: "fl_ok (b # bs)" and b: "0 < rem" "n \<le> blk_size b"
  defines "k \<equiv> min rem (blk_size b div n)"
  defines "tail \<equiv> (if blk_size b > k * n
     then [\<lparr>start = start b + k * n, blk_size = blk_size b - k * n\<rparr>] else [])"
  shows "carve_rest n rem (b # bs) = tail @ carve_rest n (rem - k) bs"
    and "carve_regions n rem (b # bs) = slices (start b) n (nat k) @ carve_regions n (rem - k) bs"
    and "0 < k" and "k \<le> rem" and "0 \<le> k * n" and "k * n \<le> blk_size b"
    and "addrs (set tail) = block_addrs b - {start b ..< start b + k * n}"
    and "sum_list (map blk_size tail) = blk_size b - k * n"
proof -
  show "carve_rest n rem (b # bs) = tail @ carve_rest n (rem - k) bs"
    and "carve_regions n rem (b # bs) = slices (start b) n (nat k) @ carve_regions n (rem - k) bs"
    using b by (simp_all add: Let_def k_def tail_def)
  show k: "0 < k" "k \<le> rem" using b div_chunk_pos[OF n b(2)] by (simp_all add: k_def)
  have "k * n \<le> blk_size b div n * n" using n by (simp add: k_def)
  also have "\<dots> \<le> blk_size b" using n by (simp add: minus_mod_eq_div_mult[symmetric])
  finally show le: "k * n \<le> blk_size b" .
  show "0 \<le> k * n" using k n by simp
  then show "addrs (set tail) = block_addrs b - {start b ..< start b + k * n}"
    using le by (cases "blk_size b > k * n") (auto simp: tail_def block_addrs_def)
  show "sum_list (map blk_size tail) = blk_size b - k * n"
    using le by (auto simp: tail_def)
qed

lemma addrs_above:
  "fl_ok (b # bs) \<Longrightarrow> block_addrs b \<inter> addrs (set bs) = {}"
  using fl_ok_Cons[of b bs] by (fastforce simp: addrs_def block_addrs_def)

lemma carve_ok:
  assumes n: "0 < n" and ok: "fl_ok bs"
  shows "fl_ok (carve_rest n rem bs) \<and> apart (carve_regions n rem bs) \<and>
    addrs (set bs) = addrs (set (carve_rest n rem bs)) \<union> regions (carve_regions n rem bs) \<and>
    addrs (set (carve_rest n rem bs)) \<inter> regions (carve_regions n rem bs) = {}"
  using ok
proof (induction bs arbitrary: rem)
  case Nil
  then show ?case by simp
next
  case (Cons b bs)
  have ok: "fl_ok bs" "0 < blk_size b" "\<And>c. c \<in> set bs \<Longrightarrow> start b + blk_size b < start c"
    using Cons.prems by (auto simp: fl_ok_Cons)
  have above: "start b + blk_size b < start c" if "c \<in> set (carve_rest n r bs)" for c r
    using carve_rest_starts[OF n that] ok(3) by force
  note dis = addrs_above[OF Cons.prems]
  consider "rem \<le> 0" | (skip) "0 < rem" "blk_size b < n" | (take) "0 < rem" "n \<le> blk_size b" by linarith
  then show ?case
  proof cases
    case 1
    with Cons.prems show ?thesis by simp
  next
    case skip
    with Cons.IH[OF ok(1), of rem] ok(2) above[of _ rem] dis show ?thesis
      by (auto simp: fl_ok_Cons)
  next
    case take
    define k where "k = min rem (blk_size b div n)"
    define tail where "tail = (if blk_size b > k * n
      then [\<lparr>start = start b + k * n, blk_size = blk_size b - k * n\<rparr>] else [])"
    note st = carve_rest_step[OF n Cons.prems take, folded k_def, folded tail_def]
    note IH = Cons.IH[OF ok(1), of "rem - k"] and S = slices_regions[OF n, of "start b" "nat k"]
    have cut: "{start b ..< start b + k * n} \<subseteq> block_addrs b" using st(6) by (auto simp: block_addrs_def)
    have "fl_ok (tail @ carve_rest n (rem - k) bs)"
      using IH above[of _ "rem - k"] by (auto simp: tail_def fl_ok_Cons)
    moreover have "regions (slices (start b) n (nat k)) = {start b ..< start b + k * n}"
      using S(1) st(3) by simp
    moreover have "regions (carve_regions n (rem - k) bs) \<subseteq> addrs (set bs)" using IH by blast
    ultimately show ?thesis
      unfolding st(1,2) apart_append set_append addrs_simps regions_simps st(7) list.set
      using IH S(2) cut dis by blast
  qed
qed

lemma carve_count:
  assumes n: "0 < n" and ok: "fl_ok bs" and rem: "0 \<le> rem"
  shows "int (length (carve_regions n rem bs)) = min rem (\<Sum>b\<leftarrow>bs. blk_size b div n)"
    and "sum_list (map blk_size (carve_rest n rem bs)) =
      sum_list (map blk_size bs) - n * int (length (carve_regions n rem bs))"
    and "\<forall>r \<in> set (carve_regions n rem bs). snd r = n"
  using ok rem
proof (induction bs arbitrary: rem)
  case Nil
  case 1 then show ?case by simp
  case 2 then show ?case by simp
  case 3 then show ?case by simp
next
  case (Cons b bs)
  have "(0::int) \<le> (\<Sum>b\<leftarrow>bs. blk_size b div n)" if "fl_ok bs"
    using that n gappedD(1)[OF fl_okD(3)[OF that]]
    by (intro sum_list_nonneg) (auto simp: pos_imp_zdiv_nonneg_iff less_imp_le)
  note nn = this
  have P: "int (length (carve_regions n rem (b # bs))) = min rem (\<Sum>b\<leftarrow>b # bs. blk_size b div n) \<and>
      sum_list (map blk_size (carve_rest n rem (b # bs))) =
        sum_list (map blk_size (b # bs)) - n * int (length (carve_regions n rem (b # bs))) \<and>
      (\<forall>r \<in> set (carve_regions n rem (b # bs)). snd r = n)"
    if ok: "fl_ok (b # bs)" and rem: "0 \<le> rem" for rem
  proof -
    have ok': "fl_ok bs" "0 < blk_size b" using ok by (auto simp: fl_ok_Cons)
    consider "rem = 0" | (skip) "0 < rem" "blk_size b < n" | (take) "0 < rem" "n \<le> blk_size b"
      using rem by linarith
    then show ?thesis
    proof cases
      case 1
      have "0 \<le> blk_size b div n" using ok'(2) n by (simp add: pos_imp_zdiv_nonneg_iff)
      with 1 nn[OF ok'(1)] show ?thesis by simp
    next
      case skip
      then have "blk_size b div n = 0" using ok'(2) by simp
      with skip Cons.IH[OF ok'(1), of rem] show ?thesis by simp
    next
      case take
      define k where "k = min rem (blk_size b div n)"
      define tail where "tail = (if blk_size b > k * n
        then [\<lparr>start = start b + k * n, blk_size = blk_size b - k * n\<rparr>] else [])"
      note st = carve_rest_step[OF n ok take, folded k_def, folded tail_def]
      have "0 \<le> rem - k" using st(4) by simp
      note IH = Cons.IH[OF ok'(1) this]
      have len: "length (slices (start b) n (nat k)) = nat k" "\<forall>r \<in> set (slices (start b) n (nat k)). snd r = n"
        by (auto simp: slices_def)
      have "min rem (blk_size b div n + (\<Sum>b\<leftarrow>bs. blk_size b div n)) =
          k + min (rem - k) (\<Sum>b\<leftarrow>bs. blk_size b div n)"
        using nn[OF ok'(1)] by (simp add: k_def min_def)
      then show ?thesis
        unfolding st(1,2) using IH st(3,8) len by (auto simp: algebra_simps)
    qed
  qed
  {
    case 1 then show ?case using P by blast
  next
    case 2 then show ?case using P by blast
  next
    case 3 then show ?case using P by blast
  }
qed

lemma fold_sl_remove:
  "sorted_list_contract sl \<Longrightarrow> by_start bs \<Longrightarrow> mset R \<subseteq># mset bs \<Longrightarrow>
     by_start (fold (sl_remove sl) R bs) \<and> mset (fold (sl_remove sl) R bs) = mset bs - mset R"
proof (induction R arbitrary: bs)
  case (Cons x R)
  then have "x \<in> set bs" by (auto dest: mset_subset_eqD)
  with Cons.prems have "by_start (sl_remove sl x bs)" "mset (sl_remove sl x bs) = mset bs - {#x#}"
    by (auto simp: sorted_list_contract_def)
  moreover have "mset R \<subseteq># mset bs - {#x#}"
    using Cons.prems(3) by (simp add: insert_subset_eq_iff)
  ultimately show ?case using Cons.IH[OF Cons.prems(1), of "sl_remove sl x bs"] by simp
qed simp

lemma fold_sl_add:
  "sorted_list_contract sl \<Longrightarrow> by_start bs \<Longrightarrow>
     by_start (fold (sl_add sl) A bs) \<and> mset (fold (sl_add sl) A bs) = mset bs + mset A"
proof (induction A arbitrary: bs)
  case (Cons x A)
  then have "by_start (sl_add sl x bs)" "mset (sl_add sl x bs) = add_mset x (mset bs)"
    by (auto simp: sorted_list_contract_def)
  with Cons.IH[OF Cons.prems(1), of "sl_add sl x bs"] show ?case by simp
qed simp

lemma fl_mset_unique:
  assumes "fl_ok bs" and "by_start cs" and "mset cs = mset bs"
  shows "cs = bs"
proof -
  have "inj_on start (set cs)"
    using fl_okD(2)[OF assms(1)] mset_eq_setD[OF assms(3)] by (simp add: distinct_map)
  with assms show ?thesis
    using map_sorted_distinct_set_unique[of start cs bs] fl_okD(1,2)[OF assms(1)] mset_eq_setD[OF assms(3)]
      mset_eq_imp_distinct_iff[of "map start cs" "map start bs"] by simp
qed

lemma am_batched_allocate_eq:
  assumes inv: "am_inv am" and sz: "0 < sz" and bn: "0 \<le> k"
  defines "n \<equiv> compute_aligned_size am sz"
  shows "am_batched_allocate am sz k =
    (if (\<Sum>b\<leftarrow>explicit_list am. blk_size b div n) < k then Inl RuntimeError
     else Inr (carve_regions n k (explicit_list am),
       am\<lparr>explicit_list := carve_rest n k (explicit_list am),
          total_allocated_size := total_allocated_size am + n * k\<rparr>))"
proof -
  let ?bs = "explicit_list am" and ?sl = "am_sorted_list am"
  have n: "0 < n" unfolding n_def by (rule aligned_size_pos(2)[OF inv sz])
  note con = am_invD(1)[OF inv] and ok = am_invD(2)[OF inv]
  have rm: "by_start (fold (sl_remove ?sl) (carve_removed n k ?bs) ?bs)"
    "mset (fold (sl_remove ?sl) (carve_removed n k ?bs) ?bs) = mset ?bs - mset (carve_removed n k ?bs)"
    using fold_sl_remove[OF con fl_okD(1)[OF ok] carve_removed_sub] by auto
  have "mset ?bs - mset (carve_removed n k ?bs) + mset (carve_added n k ?bs) = mset (carve_rest n k ?bs)"
    using carve_mset[of n k ?bs] carve_removed_sub[of n k ?bs]
    by (metis add_diff_cancel_right' subset_mset.add_diff_assoc2)
  then have "fold (sl_add ?sl) (carve_added n k ?bs) (fold (sl_remove ?sl) (carve_removed n k ?bs) ?bs) =
      carve_rest n k ?bs"
    using fold_sl_add[OF con rm(1)] rm(2) carve_ok[OF n ok] by (intro fl_mset_unique) auto
  then show ?thesis
    using sz bn carve_count(1)[OF n ok bn]
    by (auto simp: am_batched_allocate_def Let_def n_def[symmetric] carve_closed[OF n])
qed

lemma am_batched_allocate_step:
  assumes inv: "am_inv am" and sz: "0 < sz" and res: "am_batched_allocate am sz k = Inr (rs, am')"
  shows "am_inv am'" and "int (length rs) = k" and "\<forall>r \<in> set rs. snd r = compute_aligned_size am sz"
    and "apart rs" and "free_addrs am = free_addrs am' \<union> regions rs" and "free_addrs am' \<inter> regions rs = {}"
    and "am_size am' = am_size am" and "am_align am' = am_align am"
proof -
  let ?n = "compute_aligned_size am sz" and ?bs = "explicit_list am"
  have n: "0 < ?n" by (rule aligned_size_pos(2)[OF inv sz])
  note ok = am_invD(2)[OF inv]
  have k: "0 \<le> k" using res sz by (auto simp: am_batched_allocate_def split: if_splits)
  note eq = am_batched_allocate_eq[OF inv sz k]
  have enough: "k \<le> (\<Sum>b\<leftarrow>?bs. blk_size b div ?n)" and rs: "rs = carve_regions ?n k ?bs"
    and am': "am' = am\<lparr>explicit_list := carve_rest ?n k ?bs,
      total_allocated_size := total_allocated_size am + ?n * k\<rparr>"
    using res unfolding eq by (auto split: if_splits)
  note cnt = carve_count[OF n ok k] and C = carve_ok[OF n ok, of k]
  show len: "int (length rs) = k" using cnt(1) enough by (simp add: rs)
  show "\<forall>r \<in> set rs. snd r = ?n" "apart rs" using cnt(3) C by (auto simp: rs)
  show un: "free_addrs am = free_addrs am' \<union> regions rs" "free_addrs am' \<inter> regions rs = {}"
    using C by (simp_all add: rs am' free_addrs_def)
  show "am_size am' = am_size am" "am_align am' = am_align am" by (simp_all add: am')
  show "am_inv am'"
    using inv un(1) cnt(2) C len unfolding am_inv_def by (auto simp: am' rs algebra_simps)
qed

section \<open>Freeing and growing\<close>

lemma am_free_eq:
  "am_free am a n =
     (let index = sl_bisect_left (am_sorted_list am) \<lparr>start = a, blk_size = n\<rparr> (explicit_list am);
          am2 = put_region am \<lparr>start = a, blk_size = n\<rparr>
                  (if index > 0 then Some (index - 1) else None)
                  (if index < length (explicit_list am) then Some index else None)
      in am2\<lparr>total_allocated_size := total_allocated_size am2 - n\<rparr>)"
  by (simp add: am_free_def put_region_def Let_def split: prod.splits)

lemma am_sbrk_eq:
  "am_sbrk am raw =
     (let sz = compute_aligned_size am raw; bs = explicit_list am;
          am2 = put_region am \<lparr>start = am_size am, blk_size = sz\<rparr>
                  (if length bs > 0 then Some (length bs - 1) else None) None
      in am2\<lparr>am_size := am_size am2 + sz\<rparr>)"
  by (simp add: am_sbrk_def put_region_def Let_def split: prod.splits)

lemma bisect_neighbours:
  assumes con: "sorted_list_contract sl" and srt: "by_start bs"
    and k: "k = sl_bisect_left sl \<lparr>start = a, blk_size = n\<rparr> bs"
  shows "prev_of bs a (if k > 0 then Some (k - 1) else None)"
    and "succ_of bs a (if k < length bs then Some k else None)"
proof -
  have len: "k \<le> length bs" and below: "\<And>j. j < k \<Longrightarrow> start (bs ! j) < a"
    and above: "\<And>j. k \<le> j \<Longrightarrow> j < length bs \<Longrightarrow> a \<le> start (bs ! j)"
    using con[unfolded sorted_list_contract_def, THEN conjunct2, THEN conjunct2, rule_format,
        OF srt, of "\<lparr>start = a, blk_size = n\<rparr>"] by (simp_all add: k)
  have mono: "start (bs ! i) \<le> start (bs ! j)" if "i \<le> j" "j < length bs" for i j
    using sorted_nth_mono[OF srt that(1)] that by simp
  have lt: "i < k" if "i < length bs" "start (bs ! i) < a" for i
    using above[OF _ that(1)] that(2) by (cases "k \<le> i") auto
  have ge: "k \<le> i" if "i < length bs" "a \<le> start (bs ! i)" for i
    using below[of i] that(2) by (cases "i < k") auto
  show "prev_of bs a (if k > 0 then Some (k - 1) else None)"
  proof (cases "k > 0")
    case True
    have "start (bs ! i) \<le> start (bs ! (k - 1))" if "i < length bs" "start (bs ! i) < a" for i
      using mono[of i "k - 1"] lt[OF that] len by simp
    with True below[of "k - 1"] len show ?thesis by (auto simp: prev_of_def all_set_conv_all_nth)
  qed (use above in \<open>auto simp: prev_of_def all_set_conv_all_nth\<close>)
  show "succ_of bs a (if k < length bs then Some k else None)"
  proof (cases "k < length bs")
    case True
    have "start (bs ! k) \<le> start (bs ! i)" if "i < length bs" "a \<le> start (bs ! i)" for i
      using mono[OF ge[OF that] that(1)] .
    with True above[of k] show ?thesis by (auto simp: succ_of_def all_set_conv_all_nth)
  next
    case False
    with below len show ?thesis by (auto simp: succ_of_def all_set_conv_all_nth)
  qed
qed

text \<open>A region that may be freed: inside the heap and not free yet.\<close>

definition freeable :: "address_manager \<Rightarrow> int \<Rightarrow> int \<Rightarrow> bool" where
  "freeable am a n \<longleftrightarrow> 0 < n \<and> 0 \<le> a \<and> a + n \<le> am_size am \<and> free_addrs am \<inter> {a ..< a + n} = {}"

lemma am_free_step:
  assumes inv: "am_inv am" and f: "freeable am a n"
  shows "fl_adds (explicit_list am) a n (explicit_list (am_free am a n))"
    and "am_size (am_free am a n) = am_size am" and "am_align (am_free am a n) = am_align am"
    and "am_sorted_list (am_free am a n) = am_sorted_list am"
    and "total_allocated_size (am_free am a n) = total_allocated_size am - n"
proof -
  note con = am_invD(1)[OF inv] and ok = am_invD(2)[OF inv]
  have n: "0 < n" and c: "clear_of (set (explicit_list am)) a n"
    using f clear_of_iff[OF fl_okD(3)[OF ok]] by (auto simp: freeable_def free_addrs_def)
  show "fl_adds (explicit_list am) a n (explicit_list (am_free am a n))"
    unfolding am_free_eq Let_def
    using put_region_refines[OF con ok bisect_neighbours[OF con fl_okD(1)[OF ok] refl] n c] by simp
  show "am_size (am_free am a n) = am_size am" "am_align (am_free am a n) = am_align am"
    "am_sorted_list (am_free am a n) = am_sorted_list am"
    "total_allocated_size (am_free am a n) = total_allocated_size am - n"
    unfolding am_free_eq Let_def by simp_all
qed

lemma am_free_inv:
  assumes "am_inv am" and "freeable am a n"
  shows "am_inv (am_free am a n)" and "free_addrs (am_free am a n) = free_addrs am \<union> {a ..< a + n}"
  using assms am_free_step[OF assms] by (auto simp: am_inv_def fl_adds_def free_addrs_def freeable_def)

lemma am_sbrk_step:
  assumes inv: "am_inv am" and r: "0 < raw"
  defines "sz \<equiv> compute_aligned_size am raw"
  shows "fl_adds (explicit_list am) (am_size am) sz (explicit_list (am_sbrk am raw))"
    and "am_size (am_sbrk am raw) = am_size am + sz" and "am_align (am_sbrk am raw) = am_align am"
    and "am_sorted_list (am_sbrk am raw) = am_sorted_list am"
    and "total_allocated_size (am_sbrk am raw) = total_allocated_size am"
proof -
  let ?bs = "explicit_list am"
  note con = am_invD(1)[OF inv] and ok = am_invD(2)[OF inv]
  have n: "0 < sz" unfolding sz_def by (rule aligned_size_pos(2)[OF inv r])
  have below: "start b + blk_size b \<le> am_size am" "start b < am_size am" if b: "b \<in> set ?bs" for b
  proof -
    have "0 < blk_size b" using gappedD(1)[OF fl_okD(3)[OF ok] b] .
    then have "start b + blk_size b - 1 \<in> free_addrs am"
      using b by (auto simp: free_addrs_def addrs_def block_addrs_def intro!: bexI[of _ b])
    with am_invD(3)[OF inv] \<open>0 < blk_size b\<close>
    show "start b + blk_size b \<le> am_size am" "start b < am_size am" by auto
  qed
  then have c: "clear_of (set ?bs) (am_size am) sz" by (auto simp: clear_of_def)
  have mono: "start (?bs ! i) \<le> start (?bs ! (length ?bs - 1))" if "i < length ?bs" for i
    using sorted_nth_mono[OF fl_okD(1)[OF ok], of i "length ?bs - 1"] that by simp
  have prev: "prev_of ?bs (am_size am) (if length ?bs > 0 then Some (length ?bs - 1) else None)"
    using below mono by (auto simp: prev_of_def all_set_conv_all_nth)
  have succ: "succ_of ?bs (am_size am) None"
    using below by (auto simp: succ_of_def)
  show "fl_adds ?bs (am_size am) sz (explicit_list (am_sbrk am raw))"
    unfolding am_sbrk_eq Let_def sz_def[symmetric]
    using put_region_refines[OF con ok prev succ n c] by simp
  show "am_size (am_sbrk am raw) = am_size am + sz" "am_align (am_sbrk am raw) = am_align am"
    "am_sorted_list (am_sbrk am raw) = am_sorted_list am"
    "total_allocated_size (am_sbrk am raw) = total_allocated_size am"
    unfolding am_sbrk_eq Let_def sz_def by simp_all
qed

lemma am_sbrk_inv:
  assumes "am_inv am" and "0 < raw" and "0 \<le> am_size am"
  shows "am_inv (am_sbrk am raw)"
    and "free_addrs (am_sbrk am raw) = free_addrs am \<union> {am_size am ..< am_size (am_sbrk am raw)}"
  using assms(1,3) am_sbrk_step[OF assms(1,2)] aligned_size_pos(2)[OF assms(1,2)]
  by (auto simp: am_inv_def fl_adds_def free_addrs_def)

lemma am_init_list:
  assumes "sorted_list_contract sl"
  shows "explicit_list (am_init sl sz align_bytes) = [\<lparr>start = 0, blk_size = sz\<rparr>]"
proof -
  have "mset (sl_add sl \<lparr>start = 0, blk_size = sz\<rparr> []) = {#\<lparr>start = 0, blk_size = sz\<rparr>#}"
    using assms by (auto simp: sorted_list_contract_def)
  then show ?thesis by (simp add: am_init_def)
qed

lemma am_init_inv:
  assumes "sorted_list_contract sl" and "0 < sz"
  shows "am_inv (am_init sl sz (2 ^ k))" and "free_addrs (am_init sl sz (2 ^ k)) = {0 ..< sz}"
  using assms am_init_list[OF assms(1), of sz "2 ^ k"]
  by (auto simp: am_inv_def am_init_def fl_ok_def gapped_def free_addrs_def block_addrs_def)

section \<open>Clients\<close>

text \<open>
  A client of the address manager: the regions it holds and the calls it makes. It frees only
  regions that it holds, with the address and size that the allocation returned.
\<close>

inductive am_step :: "address_manager \<Rightarrow> (int \<times> int) list \<Rightarrow> address_manager \<Rightarrow> (int \<times> int) list \<Rightarrow> bool" where
  step_allocate: "am_allocate am sz = Inr (r, am') \<Longrightarrow> am_step am live am' (r # live)"
| step_batched: "0 < sz \<Longrightarrow> am_batched_allocate am sz k = Inr (rs, am') \<Longrightarrow> am_step am live am' (rs @ live)"
| step_free: "r \<in> set live \<Longrightarrow> am_step am live (am_free am (fst r) (snd r)) (remove1 r live)"
| step_sbrk: "0 < raw \<Longrightarrow> am_step am live (am_sbrk am raw) live"

inductive am_run :: "address_manager \<Rightarrow> address_manager \<Rightarrow> (int \<times> int) list \<Rightarrow> bool" for am0 where
  run_start: "am_run am0 am0 []"
| run_step: "am_run am0 am live \<Longrightarrow> am_step am live am' live' \<Longrightarrow> am_run am0 am' live'"

definition client_inv :: "address_manager \<Rightarrow> (int \<times> int) list \<Rightarrow> bool" where
  "client_inv am live \<longleftrightarrow> am_inv am \<and> 0 \<le> am_size am \<and> apart live \<and> (\<forall>r \<in> set live. 0 < snd r) \<and>
     free_addrs am \<union> regions live = {0 ..< am_size am} \<and> free_addrs am \<inter> regions live = {}"

lemma regions_remove1:
  assumes "apart live" and "r \<in> set live" and "\<forall>r \<in> set live. 0 < snd r"
  shows "regions (remove1 r live) = regions live - region r" and "apart (remove1 r live)"
proof -
  obtain xs ys where live: "live = xs @ r # ys" and r: "r \<notin> set xs"
    using split_list_first[OF assms(2)] by blast
  with assms(1) show "apart (remove1 r live)" "regions (remove1 r live) = regions live - region r"
    by (auto simp: remove1_append apart_append)
qed

lemma client_inv_free:
  assumes inv: "client_inv am live" and r: "r \<in> set live"
  shows "freeable am (fst r) (snd r)"
    and "free_addrs (am_free am (fst r) (snd r)) = free_addrs am \<union> {fst r ..< fst r + snd r}"
proof -
  have "region r \<subseteq> regions live" using r by (auto simp: regions_def)
  then have "{fst r ..< fst r + snd r} \<subseteq> {0 ..< am_size am}" "free_addrs am \<inter> {fst r ..< fst r + snd r} = {}"
    using inv unfolding client_inv_def region_def by blast+
  moreover have "0 < snd r" using inv r by (auto simp: client_inv_def)
  ultimately show f: "freeable am (fst r) (snd r)" by (auto simp: freeable_def)
  show "free_addrs (am_free am (fst r) (snd r)) = free_addrs am \<union> {fst r ..< fst r + snd r}"
    using am_free_inv(2)[OF _ f] inv by (simp add: client_inv_def)
qed

lemma client_inv_step:
  assumes step: "am_step am live am' live'" and inv: "client_inv am live"
  shows "client_inv am' live'"
  using step
proof cases
  case (step_allocate sz r)
  have am: "am_inv am" using inv by (simp add: client_inv_def)
  obtain a n where r: "r = (a, n)" by force
  note st = am_allocate_step[OF am step_allocate(2)[unfolded r]]
  note post = am_inv_cut[OF am st(4-8)]
  from st(3) obtain b where b: "b \<in> set (explicit_list am)" "a = start b" "n \<le> blk_size b" by blast
  then have "{a ..< a + n} \<subseteq> free_addrs am" by (auto simp: free_addrs_def addrs_def block_addrs_def)
  moreover have "0 < n" using st(1,2) aligned_size_pos(2)[OF am] by simp
  ultimately show ?thesis
    using inv post st(5) unfolding client_inv_def step_allocate(1) r by (auto simp: region_def)
next
  case (step_batched sz k rs)
  have am: "am_inv am" using inv by (simp add: client_inv_def)
  note st = am_batched_allocate_step[OF am step_batched(2,3)]
  have "\<forall>r \<in> set rs. 0 < snd r" using st(3) aligned_size_pos(2)[OF am step_batched(2)] by auto
  with st inv show ?thesis
    unfolding client_inv_def step_batched(1) apart_append regions_simps by auto
next
  case (step_free r)
  have am: "am_inv am" using inv by (simp add: client_inv_def)
  note f = client_inv_free(1)[OF inv step_free(3)]
  have sub: "region r \<subseteq> regions live" using step_free(3) by (auto simp: regions_def)
  have "regions (remove1 r live) = regions live - region r" "apart (remove1 r live)"
    using regions_remove1[OF _ step_free(3)] inv by (auto simp: client_inv_def)
  moreover have "\<forall>s \<in> set (remove1 r live). 0 < snd s"
    using inv set_remove1_subset[of r live] by (auto simp: client_inv_def)
  ultimately show ?thesis
    using inv am_free_inv[OF am f] am_free_step(2)[OF am f] sub
    unfolding client_inv_def step_free(1,2) by (auto simp: region_def)
next
  case (step_sbrk raw)
  have am: "am_inv am" "0 \<le> am_size am" using inv by (simp_all add: client_inv_def)
  note st = am_sbrk_step[OF am(1) step_sbrk(3)] and post = am_sbrk_inv[OF am(1) step_sbrk(3) am(2)]
  let ?m = "am_size am" and ?m' = "am_size (am_sbrk am raw)"
  have le: "?m \<le> ?m'" using st(2) aligned_size_pos(2)[OF am(1) step_sbrk(3)] by simp
  have "regions live \<subseteq> {0 ..< ?m}" using inv unfolding client_inv_def by blast
  then have "regions live \<inter> {?m ..< ?m'} = {}" by auto
  moreover have "free_addrs am \<union> {?m ..< ?m'} \<union> regions live = {0 ..< ?m'}"
    using inv ivl_disj_un_two(3)[OF am(2) le] unfolding client_inv_def by blast
  ultimately show ?thesis
    using inv post le unfolding client_inv_def step_sbrk(1,2) by auto
qed

lemma client_inv_run:
  "am_run am0 am live \<Longrightarrow> client_inv am0 [] \<Longrightarrow> client_inv am live"
  by (induction rule: am_run.induct) (auto intro: client_inv_step)

lemma am_inv_consistent: "am_inv am \<Longrightarrow> check_consistency am"
proof -
  assume inv: "am_inv am"
  have "adjacent_coalesced bs" if "fl_ok bs" for bs
    using that by (induction bs rule: adjacent_coalesced.induct) (auto simp: fl_ok_Cons can_be_coalesced_def)
  with am_invD[OF inv] show ?thesis by (simp add: check_consistency_def)
qed

text \<open>Aligned addresses: with an aligned heap size, every free block and every held region is aligned.\<close>

definition starts_aligned :: "address_manager \<Rightarrow> bool" where
  "starts_aligned am \<longleftrightarrow> (\<forall>b \<in> set (explicit_list am). am_align am dvd start b)"

definition client_aligned :: "address_manager \<Rightarrow> (int \<times> int) list \<Rightarrow> bool" where
  "client_aligned am live \<longleftrightarrow> am_align am dvd am_size am \<and> starts_aligned am \<and>
     (\<forall>r \<in> set live. am_align am dvd fst r \<and> am_align am dvd snd r)"

lemma cut_starts:
  assumes S: "gapped S" and T: "gapped T" and eq: "addrs T = addrs S - regions rs"
    and d: "\<forall>b \<in> S. d dvd start b" "\<forall>r \<in> set rs. d dvd fst r + snd r" and c: "c \<in> T"
  shows "d dvd start c"
proof -
  have x: "start c \<in> addrs S" "start c \<notin> regions rs" "start c - 1 \<notin> addrs S \<or> start c - 1 \<in> regions rs"
    using gapped_start_iff[OF T, of "start c"] c eq by auto
  show ?thesis
  proof (cases "start c - 1 \<in> addrs S")
    case False
    with gapped_start_iff[OF S, of "start c"] x(1) d(1) show ?thesis by auto
  next
    case True
    with x obtain r where r: "r \<in> set rs" "start c - 1 \<in> region r" by (auto simp: regions_def)
    moreover have "start c \<notin> region r" using x(2) r(1) by (auto simp: regions_def)
    ultimately have "start c = fst r + snd r" by (auto simp: region_def)
    with d(2) r(1) show ?thesis by simp
  qed
qed

lemma add_starts:
  assumes S: "gapped S" and T: "gapped T" and eq: "addrs T = addrs S \<union> {a ..< a + n}"
    and d: "\<forall>b \<in> S. d dvd start b" "d dvd a" and c: "c \<in> T"
  shows "d dvd start c"
proof -
  have x: "start c \<in> addrs S \<or> start c \<in> {a ..< a + n}" "start c - 1 \<notin> addrs S" "start c - 1 \<notin> {a ..< a + n}"
    using gapped_start_iff[OF T, of "start c"] c eq by auto
  show ?thesis
  proof (cases "start c \<in> addrs S")
    case True
    with gapped_start_iff[OF S, of "start c"] x(2) d(1) show ?thesis by auto
  next
    case False
    with x have "start c = a" by auto
    with d(2) show ?thesis by simp
  qed
qed

lemma carve_regions_aligned:
  "\<forall>b \<in> set bs. d dvd start b \<Longrightarrow> d dvd n \<Longrightarrow> \<forall>r \<in> set (carve_regions n rem bs). d dvd fst r"
  by (induction bs arbitrary: rem) (auto simp: Let_def slices_def)

lemma carve_regions_front:
  assumes "0 < n" and "r \<in> set (carve_regions n rem bs)"
  shows "\<exists>b \<in> set bs. \<exists>i. fst r = start b + int i * n \<and> (int i + 1) * n \<le> blk_size b"
  using assms(2)
proof (induction bs arbitrary: rem)
  case (Cons b bs)
  let ?k = "min rem (blk_size b div n)"
  have fit: "(int i + 1) * n \<le> blk_size b" if "i < nat ?k" for i
  proof -
    have "int i + 1 \<le> blk_size b div n" using that by linarith
    then have "(int i + 1) * n \<le> (blk_size b div n) * n" using assms(1) by (intro mult_right_mono) auto
    also have "\<dots> \<le> blk_size b" using assms(1) by (simp add: minus_mod_eq_div_mult[symmetric])
    finally show ?thesis .
  qed
  have "r \<in> set (slices (start b) n (nat ?k)) \<or> (\<exists>rem'. r \<in> set (carve_regions n rem' bs))"
    using Cons.prems by (auto simp: Let_def min.commute split: if_splits)
  then show ?case
  proof (elim disjE exE)
    assume "r \<in> set (slices (start b) n (nat ?k))"
    then obtain i where "i < nat ?k" "r = (start b + int i * n, n)" by (auto simp: slices_def)
    with fit show ?thesis by auto
  next
    fix rem' assume "r \<in> set (carve_regions n rem' bs)"
    with Cons show ?thesis by (metis list.set_intros(2))
  qed
qed simp

lemma batched_aligned:
  assumes inv: "am_inv am" and sz: "0 < sz" and res: "am_batched_allocate am sz k = Inr (rs, am')"
  shows "\<forall>r \<in> set rs. am_align am dvd snd r"
    and "starts_aligned am \<Longrightarrow> \<forall>r \<in> set rs. am_align am dvd fst r"
    and "starts_aligned am \<Longrightarrow> starts_aligned am'"
    and "\<forall>r \<in> set rs. \<exists>b \<in> set (explicit_list am). \<exists>i.
      fst r = start b + int i * compute_aligned_size am sz \<and>
      (int i + 1) * compute_aligned_size am sz \<le> blk_size b"
proof -
  note st = am_batched_allocate_step[OF assms]
  have k: "0 \<le> k" using st(2) by linarith
  have rs: "rs = carve_regions (compute_aligned_size am sz) k (explicit_list am)"
    using res unfolding am_batched_allocate_eq[OF inv sz k] by (auto split: if_splits)
  show an: "\<forall>r \<in> set rs. am_align am dvd snd r"
    using aligned_size_pos(3)[OF inv sz] st(3) by simp
  show fs: "\<forall>r \<in> set rs. am_align am dvd fst r" if "starts_aligned am"
    unfolding rs using that aligned_size_pos(3)[OF inv sz]
    by (intro carve_regions_aligned) (simp_all add: starts_aligned_def)
  have eq: "addrs (set (explicit_list am')) = addrs (set (explicit_list am)) - regions rs"
    using st(5,6) by (auto simp: free_addrs_def)
  show "starts_aligned am'" if al: "starts_aligned am"
    using cut_starts[OF fl_okD(3)[OF am_invD(2)[OF inv]] fl_okD(3)[OF am_invD(2)[OF st(1)]] eq,
        of "am_align am"] al an fs[OF al]
    by (auto simp: starts_aligned_def st(8))
  show "\<forall>r \<in> set rs. \<exists>b \<in> set (explicit_list am). \<exists>i.
      fst r = start b + int i * compute_aligned_size am sz \<and>
      (int i + 1) * compute_aligned_size am sz \<le> blk_size b"
    using carve_regions_front[OF aligned_size_pos(2)[OF inv sz]] unfolding rs by blast
qed

lemma client_aligned_step:
  assumes step: "am_step am live am' live'" and inv: "client_inv am live" and al: "client_aligned am live"
  shows "client_aligned am' live'"
proof -
  have am: "am_inv am" and g: "gapped (set (explicit_list am))"
    using inv fl_okD(3)[OF am_invD(2)] by (auto simp: client_inv_def)
  have g': "gapped (set (explicit_list am'))"
    using client_inv_step[OF step inv] fl_okD(3)[OF am_invD(2)] by (auto simp: client_inv_def)
  have st0: "\<forall>b \<in> set (explicit_list am). am_align am dvd start b" and sz0: "am_align am dvd am_size am"
    using al by (auto simp: client_aligned_def starts_aligned_def)
  from step show ?thesis
  proof cases
    case (step_allocate sz r)
    obtain a n where r: "r = (a, n)" by force
    note st = am_allocate_step[OF am step_allocate(2)[unfolded r]]
    have an: "am_align am dvd a" "am_align am dvd n"
      using st(3) st0 aligned_size_pos(3)[OF am st(1)] st(2) by auto
    have "addrs (set (explicit_list am')) = addrs (set (explicit_list am)) - regions [(a, n)]"
      using st(4) by (simp add: fl_cuts_def region_def)
    from cut_starts[OF g g' this st0] an have "starts_aligned am'"
      by (auto simp: starts_aligned_def st(6))
    then show ?thesis
      using al an st(5,6) by (auto simp: client_aligned_def step_allocate(1) r)
  next
    case (step_batched sz k rs)
    note st = am_batched_allocate_step[OF am step_batched(2,3)]
    note an = batched_aligned[OF am step_batched(2,3)]
    have "starts_aligned am'" using an(3) al by (simp add: client_aligned_def)
    moreover have "\<forall>r \<in> set rs. am_align am dvd fst r \<and> am_align am dvd snd r"
      using an(1,2) al by (simp add: client_aligned_def)
    ultimately show ?thesis
      using al st(7,8) by (auto simp: client_aligned_def step_batched(1))
  next
    case (step_free r)
    have r: "am_align am dvd fst r" using al step_free(3) by (auto simp: client_aligned_def)
    have al': "am_align am' = am_align am" "am_size am' = am_size am"
      unfolding step_free(1) am_free_eq Let_def by simp_all
    have "addrs (set (explicit_list am')) = addrs (set (explicit_list am)) \<union> {fst r ..< fst r + snd r}"
      using client_inv_free[OF inv step_free(3)] by (simp add: step_free(1) free_addrs_def)
    from add_starts[OF g g' this st0 r] have "starts_aligned am'"
      by (auto simp: starts_aligned_def al')
    then show ?thesis
      using al al' set_remove1_subset[of r live] by (auto simp: client_aligned_def step_free(2))
  next
    case (step_sbrk raw)
    note st = am_sbrk_step[OF am step_sbrk(3)]
    have "addrs (set (explicit_list am')) =
        addrs (set (explicit_list am)) \<union> {am_size am ..< am_size am + compute_aligned_size am raw}"
      using st(1) by (simp add: step_sbrk(1) fl_adds_def)
    from add_starts[OF g g' this st0 sz0] have "starts_aligned am'"
      by (auto simp: starts_aligned_def step_sbrk(1) st(3))
    then show ?thesis
      using al st(2,3) aligned_size_pos(3)[OF am step_sbrk(3)]
      by (auto simp: client_aligned_def step_sbrk(1,2))
  qed
qed

section \<open>Properties\<close>

text \<open>A list-based sorted list that meets the contract, for concrete runs.\<close>

definition std_sorted_list :: sorted_list where
  "std_sorted_list = \<lparr>sl_add = insort_key start, sl_remove = remove1,
     sl_bisect_left = (\<lambda>b bs. length (takeWhile (\<lambda>c. start c < start b) bs))\<rparr>"

lemma std_sorted_list_contract: "sorted_list_contract std_sorted_list"
proof -
  have "start b \<le> start (bs ! j)"
    if "by_start bs" "length (takeWhile (\<lambda>c. start c < start b) bs) \<le> j" "j < length bs" for b j and bs :: "free_block list"
  proof -
    let ?i = "length (takeWhile (\<lambda>c. start c < start b) bs)"
    have "?i < length bs" using that by simp
    then have "\<not> start (bs ! ?i) < start b" using nth_length_takeWhile by blast
    with sorted_nth_mono[OF that(1) that(2)] that \<open>?i < length bs\<close> show ?thesis by simp
  qed
  moreover have "start (bs ! j) < start b" if "j < length (takeWhile (\<lambda>c. start c < start b) bs)" for b j and bs :: "free_block list"
    using set_takeWhileD[OF nth_mem[OF that]] takeWhile_nth[OF that] by simp
  ultimately show ?thesis
    by (auto simp: sorted_list_contract_def std_sorted_list_def sorted_insort_key sorted_map_remove1
        length_takeWhile_le mset_insort)
qed

lemma init_inv_std: "am_inv (am_init std_sorted_list 16384 4096)"
  using am_init_inv(1)[OF std_sorted_list_contract, of 16384 12] by simp

text \<open>
  C18: a successful \<open>AddressManager.allocate\<close> hands out the lowest free region that fits: the size is
  the request rounded up to the alignment, the region was free and no free region of that size starts
  lower, exactly that region leaves the free addresses, and the invariant is kept.
\<close>

theorem am_allocate_refines:
  assumes "am_inv am" and "am_allocate am sz = Inr ((a, n), am')"
  shows "n = compute_aligned_size am sz \<and> sz \<le> n \<and> am_align am dvd n \<and>
    {a ..< a + n} \<subseteq> free_addrs am \<and>
    (\<forall>c. {c ..< c + n} \<subseteq> free_addrs am \<longrightarrow> a \<le> c) \<and>
    free_addrs am' = free_addrs am - {a ..< a + n} \<and>
    get_free_size am' = get_free_size am - n \<and> am_inv am'"
proof -
  note st = am_allocate_step[OF assms] and n = aligned_size_pos[OF assms(1) st(1), folded st(2)]
  note post = am_inv_cut[OF assms(1) st(4-8)] and g = fl_okD(3)[OF am_invD(2)[OF assms(1)]]
  from st(3) obtain b where b: "b \<in> set (explicit_list am)" "a = start b" "n \<le> blk_size b"
    "\<forall>c \<in> set (explicit_list am). n \<le> blk_size c \<longrightarrow> a \<le> start c" by blast
  have "{a ..< a + n} \<subseteq> free_addrs am"
    using b by (auto simp: free_addrs_def addrs_def block_addrs_def)
  moreover have "a \<le> c" if sub: "{c ..< c + n} \<subseteq> free_addrs am" for c
  proof -
    obtain d where d: "d \<in> set (explicit_list am)" "{c ..< c + n} \<subseteq> block_addrs d"
      using run_in_block[OF g n(2) sub[unfolded free_addrs_def]] by blast
    then have "start d \<le> c" "n \<le> blk_size d" using n(2) by (auto simp: block_addrs_def)
    with b(4) d(1) show ?thesis by force
  qed
  ultimately show ?thesis
    using st n post by (simp add: get_free_size_def)
qed

theorem am_allocate_refines_witness:
  "let am = am_init std_sorted_list 16384 4096 in
   case am_allocate am 5000 of Inr ((a, n), am') \<Rightarrow> a = 0 \<and> n = 8192 \<and> am_inv am' | Inl e \<Rightarrow> False"
proof -
  let ?am = "am_init std_sorted_list 16384 4096"
  obtain am' where r: "am_allocate ?am 5000 = Inr ((0, 8192), am')"
    by (simp add: am_allocate_def am_init_def std_sorted_list_def compute_aligned_size_def Let_def)
  from am_allocate_refines[OF init_inv_std r] r show ?thesis by simp
qed

text \<open>
  C19: \<open>AddressManager.allocate\<close> raises exactly when it must: a request that is not positive is a
  \<open>ValueError\<close>, and a positive one is a \<open>RuntimeError\<close> exactly when no run of free addresses
  of the aligned size exists.
\<close>

theorem am_allocate_fails_iff:
  assumes "am_inv am"
  shows "am_allocate am sz = Inl e \<longleftrightarrow>
    (if sz \<le> 0 then e = ValueError
     else e = RuntimeError \<and> \<not> (\<exists>a. {a ..< a + compute_aligned_size am sz} \<subseteq> free_addrs am))"
  using am_allocate_error[OF assms, of sz e] by (auto simp: am_allocate_def)

theorem am_allocate_fails_iff_witness:
  "am_allocate (am_init std_sorted_list 16384 4096) 16385 = Inl RuntimeError \<and>
   \<not> (\<exists>a. {a ..< a + compute_aligned_size (am_init std_sorted_list 16384 4096) 16385}
           \<subseteq> free_addrs (am_init std_sorted_list 16384 4096))"
proof -
  have "am_allocate (am_init std_sorted_list 16384 4096) 16385 = Inl RuntimeError"
    by (simp add: am_allocate_def am_init_def std_sorted_list_def compute_aligned_size_def Let_def)
  then show ?thesis using am_allocate_fails_iff[OF init_inv_std, of 16385 RuntimeError] by simp
qed

text \<open>
  C17: \<open>AddressManager.batched_allocate\<close> of a positive size and a non-negative batch either raises a
  \<open>RuntimeError\<close>, exactly when the free blocks hold fewer aligned chunks than asked for, or returns
  as many regions as asked for: all of the aligned size, pairwise disjoint, each a whole number of
  chunks from the front of a free block and inside it, and exactly they leave the free addresses.
  On a heap whose free blocks start at aligned addresses every returned region does too, and the
  blocks that stay free still do. The one pass over the free list with its deferred removals and
  insertions keeps the invariant.
\<close>

theorem am_batched_allocate_refines:
  assumes "am_inv am" and "0 < sz" and "0 \<le> k"
  defines "n \<equiv> compute_aligned_size am sz"
  shows "case am_batched_allocate am sz k of
      Inl e \<Rightarrow> e = RuntimeError \<and> (\<Sum>b\<leftarrow>explicit_list am. blk_size b div n) < k
    | Inr (rs, am') \<Rightarrow> k \<le> (\<Sum>b\<leftarrow>explicit_list am. blk_size b div n) \<and>
        int (length rs) = k \<and> (\<forall>r \<in> set rs. snd r = n \<and> am_align am dvd snd r) \<and> apart rs \<and>
        (\<forall>r \<in> set rs. \<exists>b \<in> set (explicit_list am). \<exists>i.
           fst r = start b + int i * n \<and> (int i + 1) * n \<le> blk_size b) \<and>
        (starts_aligned am \<longrightarrow> (\<forall>r \<in> set rs. am_align am dvd fst r) \<and> starts_aligned am') \<and>
        free_addrs am = free_addrs am' \<union> regions rs \<and> free_addrs am' \<inter> regions rs = {} \<and> am_inv am'"
proof (cases "am_batched_allocate am sz k")
  case (Inl e)
  with am_batched_allocate_eq[OF assms(1-3)] show ?thesis by (auto simp: n_def split: if_splits)
next
  case (Inr p)
  obtain rs am' where p: "p = (rs, am')" by force
  have "k \<le> (\<Sum>b\<leftarrow>explicit_list am. blk_size b div n)"
    using Inr am_batched_allocate_eq[OF assms(1-3)] by (auto simp: n_def split: if_splits)
  with am_batched_allocate_step[OF assms(1,2) Inr[unfolded p]]
    batched_aligned[OF assms(1,2) Inr[unfolded p]] Inr p
  show ?thesis by (simp add: n_def)
qed

theorem am_batched_allocate_refines_witness:
  "case am_batched_allocate (am_init std_sorted_list 16384 4096) 4000 3 of
     Inl e \<Rightarrow> False
   | Inr (rs, am') \<Rightarrow> rs = [(0, 4096), (4096, 4096), (8192, 4096)] \<and> apart rs \<and> starts_aligned am' \<and> am_inv am'"
proof -
  have "starts_aligned (am_init std_sorted_list 16384 4096)"
    by (simp add: starts_aligned_def am_init_def std_sorted_list_def)
  moreover obtain am' where
    "am_batched_allocate (am_init std_sorted_list 16384 4096) 4000 3 =
       Inr ([(0, 4096), (4096, 4096), (8192, 4096)], am')"
    by (simp add: am_batched_allocate_def am_init_def std_sorted_list_def compute_aligned_size_def Let_def
        upt_rec numeral_3_eq_3)
  ultimately show ?thesis using am_batched_allocate_refines[OF init_inv_std, of 4000 3] by simp
qed

text \<open>
  C21: \<open>AddressManager.free\<close> of a region inside the heap that is not free adds exactly its
  addresses to the free ones, whichever of the four coalescing cases applies, and keeps the
  invariant; in particular the consistency check of the code holds afterwards.
\<close>

theorem am_free_refines:
  assumes "am_inv am" and "freeable am a n"
  shows "free_addrs (am_free am a n) = free_addrs am \<union> {a ..< a + n} \<and>
    get_free_size (am_free am a n) = get_free_size am + n \<and>
    get_heap_size (am_free am a n) = get_heap_size am \<and>
    am_inv (am_free am a n) \<and> check_consistency (am_free am a n)"
  using am_free_inv[OF assms] am_free_step[OF assms] am_inv_consistent[OF am_free_inv(1)[OF assms]]
  by (simp add: get_free_size_def get_heap_size_def)

text \<open>The heap of the witness: three pages, the middle one and the last one in use.\<close>

definition holed_am :: address_manager where
  "holed_am = \<lparr>am_size = 12288, am_align = 4096, explicit_list = [\<lparr>start = 0, blk_size = 4096\<rparr>],
     am_sorted_list = std_sorted_list, total_allocated_size = 8192\<rparr>"

lemma holed_am_inv: "am_inv holed_am"
proof -
  have "(4096::int) = 2 ^ 12" by simp
  then have "\<exists>k. (4096::int) = 2 ^ k" by blast
  then show ?thesis
    using std_sorted_list_contract
    by (auto simp: am_inv_def holed_am_def fl_ok_def gapped_def free_addrs_def block_addrs_def)
qed

theorem am_free_refines_witness:
  "freeable holed_am 4096 4096 \<and>
   explicit_list (am_free holed_am 4096 4096) = [\<lparr>start = 0, blk_size = 8192\<rparr>] \<and>
   check_consistency (am_free holed_am 4096 4096)"
proof -
  have f: "freeable holed_am 4096 4096"
    by (auto simp: freeable_def holed_am_def free_addrs_def block_addrs_def)
  have "explicit_list (am_free holed_am 4096 4096) = [\<lparr>start = 0, blk_size = 8192\<rparr>]"
    by (simp add: am_free_def holed_am_def std_sorted_list_def coalesce_def can_be_coalesced_def Let_def)
  with f am_free_refines[OF holed_am_inv f] show ?thesis by simp
qed

text \<open>
  C22: freeing what was just allocated undoes the allocation completely: the address manager, free
  list included, is the one before the allocation.
\<close>

theorem am_allocate_free_roundtrip:
  assumes inv: "am_inv am" and res: "am_allocate am sz = Inr ((a, n), am')"
  shows "am_free am' a n = am"
proof -
  note st = am_allocate_step[OF assms] and n = aligned_size_pos(2)[OF inv st(1), folded st(2)]
  note cut = am_inv_cut[OF inv st(4-8)]
  from st(3) have sub: "{a ..< a + n} \<subseteq> free_addrs am"
    by (auto simp: free_addrs_def addrs_def block_addrs_def)
  with am_invD(3)[OF inv] have "{a ..< a + n} \<subseteq> {0 ..< am_size am}" by blast
  then have f: "freeable am' a n"
    using n cut(2) st(5) by (auto simp: freeable_def)
  note fr = am_free_step[OF cut(1) f]
  have "free_addrs (am_free am' a n) = free_addrs am"
    using am_free_inv(2)[OF cut(1) f] cut(2) sub by auto
  then have "explicit_list (am_free am' a n) = explicit_list am"
    using fl_ok_canonical[of "explicit_list (am_free am' a n)" "explicit_list am"]
      am_invD(2)[OF am_free_inv(1)[OF cut(1) f]] am_invD(2)[OF inv] by (simp add: free_addrs_def)
  then show ?thesis
    using fr st by (simp add: address_manager.equality)
qed

theorem am_allocate_free_roundtrip_witness:
  "\<exists>am'. am_allocate holed_am 100 = Inr ((0, 4096), am') \<and> am_free am' 0 4096 = holed_am"
proof -
  obtain am' where r: "am_allocate holed_am 100 = Inr ((0, 4096), am')"
    by (simp add: am_allocate_def holed_am_def std_sorted_list_def compute_aligned_size_def Let_def)
  with am_allocate_free_roundtrip[OF holed_am_inv r] show ?thesis by blast
qed

text \<open>
  C1: no sequence of \<open>allocate\<close>, \<open>batched_allocate\<close>, \<open>sbrk\<close> and \<open>free\<close> calls, with clients
  freeing only what they hold, ever hands out memory twice or loses memory: the regions held by
  clients are pairwise disjoint, lie in the heap, start at aligned addresses, and together with the
  free addresses make up the whole heap.
\<close>

theorem am_run_safe:
  assumes "sorted_list_contract sl" and "0 < sz" and "2 ^ k dvd sz"
    and "am_run (am_init sl sz (2 ^ k)) am live"
  shows "apart live \<and> free_addrs am \<union> regions live = {0 ..< get_heap_size am} \<and>
    free_addrs am \<inter> regions live = {} \<and>
    (\<forall>r \<in> set live. am_align am dvd fst r \<and> am_align am dvd snd r) \<and> check_consistency am"
proof -
  let ?am0 = "am_init sl sz (2 ^ k)"
  have c0: "client_inv ?am0 []" and a0: "client_aligned ?am0 []"
    using am_init_inv[OF assms(1,2), of k] am_init_list[OF assms(1), of sz "2 ^ k"] assms(2,3)
    by (auto simp: client_inv_def client_aligned_def starts_aligned_def am_init_def)
  have "client_inv am live \<and> client_aligned am live"
    using assms(4)
    by (induction rule: am_run.induct) (use c0 a0 client_inv_step client_aligned_step in blast)+
  then show ?thesis
    using am_inv_consistent by (auto simp: client_inv_def client_aligned_def get_heap_size_def)
qed

theorem am_run_safe_witness:
  "\<exists>am. am_run (am_init std_sorted_list 16384 (2 ^ 12)) am [(0, 8192)] \<and> check_consistency am"
proof -
  let ?am0 = "am_init std_sorted_list 16384 (2 ^ 12)"
  obtain am where "am_allocate ?am0 5000 = Inr ((0, 8192), am)"
    by (simp add: am_allocate_def am_init_def std_sorted_list_def compute_aligned_size_def Let_def)
  then have r: "am_run ?am0 am [(0, 8192)]"
    by (intro am_run.run_step[OF am_run.run_start] am_step.step_allocate)
  have "(2 ^ 12 :: int) dvd 16384" by simp
  from am_run_safe[OF std_sorted_list_contract _ this r] r show ?thesis by auto
qed

end
