(* ===== verification/Memory_Objects.thy ===== *)
theory Memory_Objects
  imports Prelude
begin

text \<open>
  The memory objects handed out by the allocators: \<open>MemoryFormat\<close>, \<open>MemoryObjMetadata\<close>,
  \<open>TensorMemoryObj\<close> and \<open>BytesBufferMemoryObj\<close> of \<open>lmcache/v1/memory_management.py\<close> and
  \<open>get_size_bytes\<close> of \<open>lmcache/utils.py\<close>. A shape is the list of its dimensions; of a torch
  dtype only the item size is used. The raw data of an object is the slice of the pool it views, by
  start and length. Objects are shared and mutable, so they live in a store and are referred to by
  their index in it. What frees an object (reference and pin counts, the destructor) needs its
  allocator and is in \<open>Mixed_Allocator\<close>.
\<close>

section \<open>Formats and sizes\<close>

datatype memory_format =
  UNDEFINED | KV_2LTD | KV_T2D | KV_2TD | BINARY | BINARY_BUFFER | KV_MLA_FMT | EC_TD | HS_TD

fun token_dim :: "memory_format \<Rightarrow> nat" where
  "token_dim KV_2LTD = 2"
| "token_dim KV_T2D = 1"
| "token_dim KV_2TD = 0"
| "token_dim BINARY = 0"
| "token_dim BINARY_BUFFER = 0"
| "token_dim KV_MLA_FMT = 2"
| "token_dim EC_TD = 0"
| "token_dim HS_TD = 0"
| "token_dim UNDEFINED = 0"

type_synonym shape = "int list"

record dtype =
  itemsize :: int

definition numel :: "shape \<Rightarrow> int" where
  "numel s = prod_list s"

definition get_size_bytes :: "shape list \<Rightarrow> dtype list \<Rightarrow> int result" where
  "get_size_bytes shapes kv_dtypes =
     (if length shapes \<noteq> length kv_dtypes then Inl AssertionError
      else Inr (\<Sum>(s, d)\<leftarrow>zip shapes kv_dtypes. numel s * itemsize d))"

section \<open>Objects\<close>

datatype obj_class = TensorMemoryObj | BytesBufferMemoryObj

datatype parent_allocator = PinAllocator | MixedAllocator

record memory_obj =
  mo_class :: obj_class
  mo_shapes :: "shape list"
  mo_dtypes :: "dtype list"
  mo_address :: int
  mo_phy_size :: int
  mo_ref_count :: int
  mo_pin_count :: int
  mo_fmt :: memory_format
  mo_raw_start :: int
  mo_raw_len :: int
  mo_valid :: bool
  mo_used_size_override :: "int option"
  mo_group_prefix_sum :: "int list"
  mo_l1_manager_id :: "int option"
  mo_parent :: "parent_allocator option"

text \<open>The prefix sums of the group sizes, as the constructor accumulates them.\<close>

fun prefix_sums :: "int \<Rightarrow> (shape \<times> dtype) list \<Rightarrow> int list" where
  "prefix_sums size_in_bytes [] = []"
| "prefix_sums size_in_bytes ((s, d) # gs) =
     (let n = size_in_bytes + numel s * itemsize d in n # prefix_sums n gs)"

definition new_tensor_obj ::
  "shape list \<Rightarrow> dtype list \<Rightarrow> int \<Rightarrow> int \<Rightarrow> memory_format \<Rightarrow> int \<Rightarrow> int \<Rightarrow> parent_allocator \<Rightarrow> memory_obj" where
  "new_tensor_obj shapes dtypes address phy_size fmt raw_start raw_len parent =
     \<lparr>mo_class = TensorMemoryObj, mo_shapes = shapes, mo_dtypes = dtypes, mo_address = address,
      mo_phy_size = phy_size, mo_ref_count = 1, mo_pin_count = 0, mo_fmt = fmt,
      mo_raw_start = raw_start, mo_raw_len = raw_len, mo_valid = True, mo_used_size_override = None,
      mo_group_prefix_sum = 0 # prefix_sums 0 (zip shapes dtypes),
      mo_l1_manager_id = None, mo_parent = Some parent\<rparr>"

definition new_bytes_obj :: "int \<Rightarrow> memory_obj" where
  "new_bytes_obj n =
     \<lparr>mo_class = BytesBufferMemoryObj, mo_shapes = [[n, 0, 0, 0]], mo_dtypes = [], mo_address = 0,
      mo_phy_size = 0, mo_ref_count = 1, mo_pin_count = 0, mo_fmt = BINARY_BUFFER,
      mo_raw_start = 0, mo_raw_len = n, mo_valid = True, mo_used_size_override = None,
      mo_group_prefix_sum = [], mo_l1_manager_id = None, mo_parent = None\<rparr>"

definition invalidate :: "memory_obj \<Rightarrow> memory_obj" where
  "invalidate mo = mo\<lparr>mo_valid := False\<rparr>"

definition get_size :: "memory_obj \<Rightarrow> int" where
  "get_size mo =
     (case mo_class mo of
        BytesBufferMemoryObj \<Rightarrow> mo_raw_len mo
      | TensorMemoryObj \<Rightarrow>
          (case mo_used_size_override mo of Some n \<Rightarrow> n | None \<Rightarrow> last (mo_group_prefix_sum mo)))"

definition get_physical_size :: "memory_obj \<Rightarrow> int" where
  "get_physical_size mo = mo_phy_size mo"

text \<open>Defined for tensor objects; the interface's hook does nothing for other classes.\<close>

definition set_used_size :: "memory_obj \<Rightarrow> int \<Rightarrow> memory_obj result" where
  "set_used_size mo n =
     (case mo_class mo of
        BytesBufferMemoryObj \<Rightarrow> Inr mo
      | TensorMemoryObj \<Rightarrow>
          if n < 0 \<or> n > mo_phy_size mo then Inl ValueError
          else Inr (mo\<lparr>mo_used_size_override := Some n\<rparr>))"

definition set_l1_manager :: "memory_obj \<Rightarrow> int \<Rightarrow> memory_obj result" where
  "set_l1_manager mo owner_tag =
     (if mo_l1_manager_id mo \<noteq> None \<and> mo_l1_manager_id mo \<noteq> Some owner_tag then Inl ValueError
      else Inr (mo\<lparr>mo_l1_manager_id := Some owner_tag\<rparr>))"

definition reset_l1_manager :: "memory_obj \<Rightarrow> memory_obj" where
  "reset_l1_manager mo = mo\<lparr>mo_l1_manager_id := None\<rparr>"

definition ref_count_up :: "memory_obj \<Rightarrow> memory_obj" where
  "ref_count_up mo =
     (case mo_class mo of
        BytesBufferMemoryObj \<Rightarrow> mo
      | TensorMemoryObj \<Rightarrow> mo\<lparr>mo_ref_count := mo_ref_count mo + 1\<rparr>)"

definition get_num_tokens :: "memory_obj \<Rightarrow> int result" where
  "get_num_tokens mo =
     (case mo_class mo of
        BytesBufferMemoryObj \<Rightarrow> Inr 1
      | TensorMemoryObj \<Rightarrow>
          (case mo_shapes mo of
             [] \<Rightarrow> Inl IndexError
           | s # _ \<Rightarrow> if token_dim (mo_fmt mo) < length s then Inr (s ! token_dim (mo_fmt mo)) else Inl IndexError))"

definition pin :: "memory_obj \<Rightarrow> memory_obj" where
  "pin mo = mo\<lparr>mo_pin_count := mo_pin_count mo + 1\<rparr>"

definition is_pinned :: "memory_obj \<Rightarrow> bool" where
  "is_pinned mo \<longleftrightarrow> mo_pin_count mo > 0"

definition can_evict :: "memory_obj \<Rightarrow> bool" where
  "can_evict mo \<longleftrightarrow>
     (case mo_class mo of
        BytesBufferMemoryObj \<Rightarrow> \<not> is_pinned mo
      | TensorMemoryObj \<Rightarrow> \<not> is_pinned mo \<and> mo_ref_count mo = 1)"

text \<open>The slice of the raw data that group \<open>index\<close> of a tensor object views.\<close>

definition group_slice :: "memory_obj \<Rightarrow> nat \<Rightarrow> (int \<times> int) option result" where
  "group_slice mo index =
     (if \<not> mo_valid mo then Inr None
      else if index + 1 < length (mo_group_prefix_sum mo)
      then Inr (Some (mo_group_prefix_sum mo ! index, mo_group_prefix_sum mo ! (index + 1)))
      else Inl IndexError)"

section \<open>Sizes of fresh objects\<close>

lemma length_prefix_sums [simp]: "length (prefix_sums b gs) = length gs"
  by (induction b gs rule: prefix_sums.induct) (auto simp: Let_def)

lemma prefix_sums_nth:
  "i < length gs \<Longrightarrow> prefix_sums b gs ! i = b + (\<Sum>(s, d)\<leftarrow>take (Suc i) gs. numel s * itemsize d)"
proof (induction b gs arbitrary: i rule: prefix_sums.induct)
  case (2 b s d gs)
  then show ?case by (cases i) (auto simp: Let_def)
qed simp

lemma prefix_sums_Cons_nth:
  "i \<le> length gs \<Longrightarrow> (b # prefix_sums b gs) ! i = b + (\<Sum>(s, d)\<leftarrow>take i gs. numel s * itemsize d)"
  by (cases i) (auto simp: prefix_sums_nth)

lemma last_prefix_sums: "last (b # prefix_sums b gs) = b + (\<Sum>(s, d)\<leftarrow>gs. numel s * itemsize d)"
  by (induction b gs rule: prefix_sums.induct) (auto simp: Let_def)

text \<open>A fresh tensor object reports the size that its layout has.\<close>

lemma new_tensor_obj_size:
  "get_size_bytes shapes dtypes = Inr n \<Longrightarrow>
     get_size (new_tensor_obj shapes dtypes a p fmt rs rl par) = n"
  using last_prefix_sums[of 0 "zip shapes dtypes"]
  by (simp add: get_size_def new_tensor_obj_def get_size_bytes_def split: if_splits)

end
