(* ===== verification/Tensor_Allocator.thy ===== *)
theory Tensor_Allocator
  imports Address_Manager Memory_Objects
begin

text \<open>
  The allocators that hand out memory objects: \<open>TensorMemoryAllocator\<close>, \<open>BufferAllocator\<close> and
  \<open>MixedMemoryAllocator\<close> of \<open>lmcache/v1/memory_allocators/\<close>, the reference counts of
  \<open>TensorMemoryObj\<close>, and \<open>L1MemoryManager\<close> of \<open>lmcache/v1/distributed/memory_manager/\<close>. The
  state carries the store of all objects the allocator has created; an object is its index there.
  The contents of the pool are not modelled, only which part of it an object views.
\<close>

section \<open>Tensor allocator\<close>

record tensor_allocator =
  ta_address_manager :: address_manager
  ta_buffer_numel :: int
  ta_num_active :: int
  ta_objs :: "memory_obj list"

definition ta_init :: "sorted_list \<Rightarrow> int \<Rightarrow> int \<Rightarrow> int option \<Rightarrow> tensor_allocator" where
  "ta_init sl buffer_numel align_bytes init_address_space =
     \<lparr>ta_address_manager =
        am_init sl (case init_address_space of None \<Rightarrow> buffer_numel | Some n \<Rightarrow> n) align_bytes,
      ta_buffer_numel = buffer_numel, ta_num_active = 0, ta_objs = []\<rparr>"

text \<open>The length of the slice \<open>buffer[start : start + size]\<close>, which slicing clips to the buffer.\<close>

definition slice_len :: "tensor_allocator \<Rightarrow> int \<Rightarrow> int \<Rightarrow> int" where
  "slice_len ta s n = max 0 (min (s + n) (ta_buffer_numel ta) - s)"

definition ta_allocate ::
  "tensor_allocator \<Rightarrow> shape list \<Rightarrow> dtype list \<Rightarrow> memory_format \<Rightarrow> (nat option \<times> tensor_allocator) result" where
  "ta_allocate ta shapes dtypes fmt =
     (case get_size_bytes shapes dtypes of
        Inl e \<Rightarrow> Inl e
      | Inr raw_size \<Rightarrow>
          (case am_allocate (ta_address_manager ta) raw_size of
             Inl RuntimeError \<Rightarrow> Inr (None, ta)
           | Inl e \<Rightarrow> Inl e
           | Inr ((block_start, aligned_size), am) \<Rightarrow>
               Inr (Some (length (ta_objs ta)),
                 ta\<lparr>ta_address_manager := am, ta_num_active := ta_num_active ta + 1,
                    ta_objs := ta_objs ta @
                      [new_tensor_obj shapes dtypes block_start aligned_size fmt
                         block_start (slice_len ta block_start raw_size) PinAllocator]\<rparr>)))"

definition ta_batched_allocate ::
  "tensor_allocator \<Rightarrow> shape list \<Rightarrow> dtype list \<Rightarrow> int \<Rightarrow> memory_format
     \<Rightarrow> (nat list option \<times> tensor_allocator) result" where
  "ta_batched_allocate ta shapes dtypes batch_size fmt =
     (case get_size_bytes shapes dtypes of
        Inl e \<Rightarrow> Inl e
      | Inr unit_raw_size \<Rightarrow>
          let unit_aligned_size = compute_aligned_size (ta_address_manager ta) unit_raw_size in
          (case am_batched_allocate (ta_address_manager ta) unit_aligned_size batch_size of
             Inl RuntimeError \<Rightarrow> Inr (None, ta)
           | Inl e \<Rightarrow> Inl e
           | Inr (alloc_results, am) \<Rightarrow>
               let addresses = map fst alloc_results in
               Inr (Some (map (\<lambda>i. length (ta_objs ta) + i) [0..<length addresses]),
                 ta\<lparr>ta_address_manager := am, ta_num_active := ta_num_active ta + batch_size,
                    ta_objs := ta_objs ta @
                      map (\<lambda>a. new_tensor_obj shapes dtypes a unit_aligned_size fmt
                                 a (slice_len ta a unit_aligned_size) PinAllocator) addresses\<rparr>)))"

definition ta_free :: "tensor_allocator \<Rightarrow> nat \<Rightarrow> tensor_allocator" where
  "ta_free ta i =
     (let mo = ta_objs ta ! i in
      if \<not> mo_valid mo then ta
      else ta\<lparr>ta_address_manager := am_free (ta_address_manager ta) (mo_address mo) (mo_phy_size mo),
              ta_objs := (ta_objs ta)[i := invalidate mo],
              ta_num_active := ta_num_active ta - 1\<rparr>)"

text \<open>
  The loop of \<open>batched_free\<close>: the objects to visit, the store, the current run (start, size, count)
  and the runs saved so far.
\<close>

fun coalesce_objs ::
  "nat list \<Rightarrow> memory_obj list \<Rightarrow> (int \<times> int \<times> int) option \<Rightarrow> (int \<times> int \<times> int) list
     \<Rightarrow> memory_obj list \<times> (int \<times> int \<times> int) list" where
  "coalesce_objs [] objs cur blocks =
     (objs, case cur of None \<Rightarrow> blocks | Some b \<Rightarrow> blocks @ [b])"
| "coalesce_objs (i # is) objs cur blocks =
     (let mo = objs ! i in
      if \<not> mo_valid mo then coalesce_objs is objs cur blocks
      else let objs' = objs[i := invalidate mo] in
        (case cur of
           None \<Rightarrow> coalesce_objs is objs' (Some (mo_address mo, mo_phy_size mo, 1)) blocks
         | Some (curr_start, curr_size, curr_count) \<Rightarrow>
             if curr_start + curr_size = mo_address mo
             then coalesce_objs is objs' (Some (curr_start, curr_size + mo_phy_size mo, curr_count + 1)) blocks
             else coalesce_objs is objs' (Some (mo_address mo, mo_phy_size mo, 1))
                    (blocks @ [(curr_start, curr_size, curr_count)])))"

definition free_blocks :: "(int \<times> int \<times> int) list \<Rightarrow> address_manager \<Rightarrow> address_manager" where
  "free_blocks blocks am = fold (\<lambda>(address, sz, _) am. am_free am address sz) blocks am"

definition ta_batched_free :: "tensor_allocator \<Rightarrow> nat list \<Rightarrow> tensor_allocator" where
  "ta_batched_free ta is =
     (if is = [] then ta
      else let (objs, blocks) =
                 coalesce_objs (sort_key (\<lambda>i. mo_address (ta_objs ta ! i)) is) (ta_objs ta) None []
        in ta\<lparr>ta_objs := objs,
              ta_address_manager := free_blocks blocks (ta_address_manager ta),
              ta_num_active := ta_num_active ta - (\<Sum>(_, _, c)\<leftarrow>blocks. c)\<rparr>)"

definition ta_memcheck :: "tensor_allocator \<Rightarrow> bool" where
  "ta_memcheck ta \<longleftrightarrow>
     (let am = ta_address_manager ta; total_free_size = get_free_size am
      in total_free_size + total_allocated_size am = get_heap_size am \<and> check_consistency am)"

section \<open>Invariant\<close>

definition live_obj :: "memory_obj \<Rightarrow> bool" where
  "live_obj mo \<longleftrightarrow> mo_valid mo \<and> mo_class mo = TensorMemoryObj"

definition obj_region :: "memory_obj \<Rightarrow> int \<times> int" where
  "obj_region mo = (mo_address mo, mo_phy_size mo)"

definition live_regions :: "memory_obj list \<Rightarrow> (int \<times> int) list" where
  "live_regions objs = map obj_region (filter live_obj objs)"

text \<open>
  The valid tensor objects own disjoint regions that, with the free addresses, make up the heap.
\<close>

definition ta_inv :: "tensor_allocator \<Rightarrow> bool" where
  "ta_inv ta \<longleftrightarrow> client_inv (ta_address_manager ta) (live_regions (ta_objs ta)) \<and>
     ta_num_active ta = int (length (live_regions (ta_objs ta)))"

lemma live_regions_append [simp]: "live_regions (xs @ ys) = live_regions xs @ live_regions ys"
  by (simp add: live_regions_def)

lemma live_new_tensor_obj [simp]:
  "live_obj (new_tensor_obj shapes dtypes a n fmt s l p)"
  "obj_region (new_tensor_obj shapes dtypes a n fmt s l p) = (a, n)"
  by (simp_all add: live_obj_def obj_region_def new_tensor_obj_def)

lemma live_regions_new [simp]:
  "live_regions [new_tensor_obj shapes dtypes a n fmt s l p] = [(a, n)]"
  "live_regions (map (\<lambda>a. new_tensor_obj shapes dtypes a n fmt (f a) (g a) p) as) = map (\<lambda>a. (a, n)) as"
  by (simp_all add: live_regions_def filter_map comp_def)

text \<open>The order of the held regions does not matter to the client invariant.\<close>

lemma apart_perm: "mset rs = mset ss \<Longrightarrow> apart rs \<longleftrightarrow> apart ss"
proof (induction rs arbitrary: ss)
  case (Cons r rs)
  then obtain xs ys where ss: "ss = xs @ r # ys"
    by (metis list.set_intros(1) set_mset_mset split_list mset_eq_setD)
  with Cons.prems have m: "mset rs = mset (xs @ ys)" by simp
  have "regions rs = regions (xs @ ys)" unfolding regions_def using mset_eq_setD[OF m] by simp
  then show ?case using Cons.IH[OF m] ss by (auto simp: apart_append)
qed simp

lemma client_inv_perm: "mset rs = mset ss \<Longrightarrow> client_inv am rs \<longleftrightarrow> client_inv am ss"
  using apart_perm[of rs ss] mset_eq_setD[of rs ss] by (auto simp: client_inv_def regions_def)

section \<open>Allocation\<close>

lemma aligned_size_idem:
  assumes "am_inv am" and "am_align am dvd n"
  shows "compute_aligned_size am n = n"
proof -
  obtain k where k: "am_align am = 2 ^ k" using assms(1) by (auto simp: am_inv_def)
  have d: "0 < am_align am" using k by simp
  let ?c = "compute_aligned_size am n"
  have "0 \<le> ?c - n" "?c - n < am_align am"
    using round_up_bounds[OF d, of n] by (simp_all only: compute_aligned_size_eq[OF k] algebra_simps)
  moreover have "am_align am dvd ?c - n"
    using assms(2) by (simp only: compute_aligned_size_eq[OF k]) simp
  ultimately show ?thesis using zdvd_not_zless[of "?c - n" "am_align am"] by force
qed

lemma ta_invD:
  assumes "ta_inv ta"
  shows "client_inv (ta_address_manager ta) (live_regions (ta_objs ta))"
    and "am_inv (ta_address_manager ta)"
    and "ta_num_active ta = int (length (live_regions (ta_objs ta)))"
  using assms by (auto simp: ta_inv_def client_inv_def)

lemma client_inv_append_commute: "client_inv am (rs @ ss) \<longleftrightarrow> client_inv am (ss @ rs)"
  by (rule client_inv_perm) (simp add: union_commute)

lemma ta_allocate_inv:
  assumes inv: "ta_inv ta" and res: "ta_allocate ta shapes dtypes fmt = Inr (Some i, ta')"
  shows "ta_inv ta'" and "i = length (ta_objs ta)" and "length (ta_objs ta') = Suc i"
    and "live_obj (ta_objs ta' ! i)" and "take i (ta_objs ta') = ta_objs ta"
proof -
  obtain n a m am where n: "get_size_bytes shapes dtypes = Inr n"
    and am: "am_allocate (ta_address_manager ta) n = Inr ((a, m), am)"
    using res by (auto simp: ta_allocate_def split: sum.splits py_error.splits prod.splits)
  then have i: "i = length (ta_objs ta)" and ta': "ta' = ta\<lparr>ta_address_manager := am, ta_num_active := ta_num_active ta + 1,
      ta_objs := ta_objs ta @ [new_tensor_obj shapes dtypes a m fmt a (slice_len ta a n) PinAllocator]\<rparr>"
    using res by (auto simp: ta_allocate_def)
  have "client_inv am ((a, m) # live_regions (ta_objs ta))"
    by (rule client_inv_step[OF am_step.step_allocate[OF am] ta_invD(1)[OF inv]])
  then have "client_inv am (live_regions (ta_objs ta) @ [(a, m)])"
    using client_inv_append_commute[of am "[(a, m)]"] by simp
  then show "ta_inv ta'" using ta_invD(3)[OF inv] by (simp add: ta_inv_def ta')
  show "i = length (ta_objs ta)" "length (ta_objs ta') = Suc i" "live_obj (ta_objs ta' ! i)"
    "take i (ta_objs ta') = ta_objs ta"
    by (simp_all add: ta' i)
qed

lemma ta_batched_allocate_cases:
  assumes inv: "ta_inv ta" and n: "get_size_bytes shapes dtypes = Inr n" "0 < n" and k: "0 \<le> k"
  defines "am \<equiv> ta_address_manager ta"
  defines "u \<equiv> compute_aligned_size am n"
  shows "(\<exists>as am'. am_batched_allocate am u k = Inr (map (\<lambda>a. (a, u)) as, am') \<and>
      int (length as) = k \<and> client_inv am' (map (\<lambda>a. (a, u)) as @ live_regions (ta_objs ta)) \<and>
      ta_batched_allocate ta shapes dtypes k fmt =
        Inr (Some [length (ta_objs ta) ..< length (ta_objs ta) + length as],
          ta\<lparr>ta_address_manager := am', ta_num_active := ta_num_active ta + k,
             ta_objs := ta_objs ta @ map (\<lambda>a. new_tensor_obj shapes dtypes a u fmt a (slice_len ta a u) PinAllocator) as\<rparr>))
    \<or> (am_batched_allocate am u k = Inl RuntimeError \<and>
       ta_batched_allocate ta shapes dtypes k fmt = Inr (None, ta))"
proof -
  have ai: "am_inv am" using ta_invD(2)[OF inv] by (simp add: am_def)
  have u: "0 < u" and idem: "compute_aligned_size am u = u"
    using aligned_size_pos[OF ai n(2)] aligned_size_idem[OF ai] by (auto simp: u_def)
  show ?thesis
  proof (cases "am_batched_allocate am u k")
    case (Inl e)
    then have "e = RuntimeError"
      using am_batched_allocate_eq[OF ai u k] by (auto split: if_splits)
    with Inl n show ?thesis
      by (simp add: ta_batched_allocate_def am_def[symmetric] u_def[symmetric] Let_def)
  next
    case (Inr p)
    obtain rs am' where p: "p = (rs, am')" by force
    note st = am_batched_allocate_step[OF ai u Inr[unfolded p]]
    have rs: "rs = map (\<lambda>a. (a, u)) (map fst rs)"
      using st(3) idem by (auto simp: comp_def intro!: map_idI[symmetric] prod_eqI)
    have c: "client_inv am' (rs @ live_regions (ta_objs ta))"
      using client_inv_step[OF am_step.step_batched[OF u Inr[unfolded p]]] ta_invD(1)[OF inv]
      by (simp add: am_def)
    have ids: "map (\<lambda>i. length (ta_objs ta) + i) [0..<length rs] = [length (ta_objs ta) ..< length (ta_objs ta) + length rs]"
      using map_add_upt[of "length (ta_objs ta)" "length rs"] by (simp add: add.commute)
    have "ta_batched_allocate ta shapes dtypes k fmt =
        Inr (Some [length (ta_objs ta) ..< length (ta_objs ta) + length rs],
          ta\<lparr>ta_address_manager := am', ta_num_active := ta_num_active ta + k,
             ta_objs := ta_objs ta @ map (\<lambda>a. new_tensor_obj shapes dtypes a u fmt a (slice_len ta a u) PinAllocator) (map fst rs)\<rparr>)"
      using Inr n p ids by (simp add: ta_batched_allocate_def am_def[symmetric] u_def[symmetric] Let_def)
    then show ?thesis
      using rs c st(2) Inr p by (intro disjI1 exI[of _ "map fst rs"] exI[of _ am']) simp
  qed
qed

section \<open>Freeing\<close>

lemma live_regions_invalidate:
  assumes "i < length objs" and "live_obj (objs ! i)"
  shows "mset (live_regions objs) = add_mset (obj_region (objs ! i)) (mset (live_regions (objs[i := invalidate (objs ! i)])))"
proof -
  have "objs = take i objs @ objs ! i # drop (Suc i) objs"
    using id_take_nth_drop[OF assms(1)] .
  then have 1: "live_regions objs = live_regions (take i objs) @ obj_region (objs ! i) # live_regions (drop (Suc i) objs)"
    using assms(2) by (metis (no_types, lifting) live_regions_append live_regions_def filter.simps(2) list.simps(9))
  have 2: "live_regions (objs[i := invalidate (objs ! i)]) = live_regions (take i objs) @ live_regions (drop (Suc i) objs)"
    unfolding upd_conv_take_nth_drop[OF assms(1)]
    by (simp add: live_regions_def live_obj_def invalidate_def)
  show ?thesis unfolding 1 2 by simp
qed

lemma invalidate_id: "\<not> mo_valid mo \<Longrightarrow> invalidate mo = mo"
  by (simp add: invalidate_def)

definition tensor_ids :: "memory_obj list \<Rightarrow> nat list \<Rightarrow> bool" where
  "tensor_ids objs is \<longleftrightarrow> (\<forall>i \<in> set is. i < length objs \<and> mo_class (objs ! i) = TensorMemoryObj)"

lemma tensor_ids_upd [simp]:
  "tensor_ids (objs[i := invalidate (objs ! i)]) is \<longleftrightarrow> tensor_ids objs is"
proof -
  have "mo_class (objs[i := invalidate (objs ! i)] ! j) = mo_class (objs ! j)" for j
    by (cases "i = j"; cases "j < length objs") (auto simp: invalidate_def list_update_beyond)
  then show ?thesis by (simp add: tensor_ids_def)
qed

lemma tensor_ids_Cons [simp]:
  "tensor_ids objs (i # is) \<longleftrightarrow> i < length objs \<and> mo_class (objs ! i) = TensorMemoryObj \<and> tensor_ids objs is"
  by (auto simp: tensor_ids_def)

text \<open>Freeing a held region, on the regions in any order.\<close>

lemma client_inv_free_mset:
  assumes inv: "client_inv am rs" and m: "mset rs = add_mset r (mset ss)"
  shows "client_inv (am_free am (fst r) (snd r)) ss"
proof -
  have "r \<in> set rs" using m by (metis set_mset_mset union_single_eq_member)
  then have "client_inv (am_free am (fst r) (snd r)) (remove1 r rs)"
    using client_inv_step[OF am_step.step_free inv] by blast
  then show ?thesis using client_inv_perm[of "remove1 r rs" ss] m by simp
qed

lemma ta_free_inv:
  assumes inv: "ta_inv ta" and i: "i < length (ta_objs ta)" "mo_class (ta_objs ta ! i) = TensorMemoryObj"
  shows "ta_inv (ta_free ta i)"
proof (cases "mo_valid (ta_objs ta ! i)")
  case False
  with inv show ?thesis by (simp add: ta_free_def)
next
  case True
  then have "live_obj (ta_objs ta ! i)" using i(2) by (simp add: live_obj_def)
  note m = live_regions_invalidate[OF i(1) this]
  from client_inv_free_mset[OF ta_invD(1)[OF inv] m] arg_cong[OF m, of size] ta_invD(3)[OF inv] True
  show ?thesis by (simp add: ta_free_def ta_inv_def obj_region_def Let_def)
qed

text \<open>Which objects a free loop leaves valid.\<close>

definition invalidate_all :: "nat list \<Rightarrow> memory_obj list \<Rightarrow> memory_obj list" where
  "invalidate_all is objs = fold (\<lambda>i os. os[i := invalidate (os ! i)]) is objs"

lemma length_invalidate_all [simp]: "length (invalidate_all is objs) = length objs"
  by (induction "is" arbitrary: objs) (auto simp: invalidate_all_def)

lemma nth_invalidate_all:
  "j < length objs \<Longrightarrow> invalidate_all is objs ! j = (if j \<in> set is then invalidate (objs ! j) else objs ! j)"
proof (induction "is" arbitrary: objs)
  case (Cons i "is")
  from Cons.IH[of "objs[i := invalidate (objs ! i)]"] Cons.prems
  show ?case by (cases "i = j") (auto simp: invalidate_all_def invalidate_def nth_list_update)
qed (simp add: invalidate_all_def)

lemma invalidate_all_cong: "set is = set js \<Longrightarrow> invalidate_all is objs = invalidate_all js objs"
  by (rule nth_equalityI) (auto simp: nth_invalidate_all)

definition ta_free_each :: "nat list \<Rightarrow> tensor_allocator \<Rightarrow> tensor_allocator" where
  "ta_free_each is ta = fold (\<lambda>i ta. ta_free ta i) is ta"

lemma ta_free_objs: "ta_objs (ta_free ta i) = (ta_objs ta)[i := invalidate (ta_objs ta ! i)]"
  by (simp add: ta_free_def Let_def invalidate_id)

lemma am_free_frame:
  "am_size (am_free am a n) = am_size am" "am_align (am_free am a n) = am_align am"
  "am_sorted_list (am_free am a n) = am_sorted_list am"
  by (simp_all add: am_free_eq Let_def)

lemma ta_free_frame:
  "ta_buffer_numel (ta_free ta i) = ta_buffer_numel ta"
  "am_size (ta_address_manager (ta_free ta i)) = am_size (ta_address_manager ta)"
  "am_align (ta_address_manager (ta_free ta i)) = am_align (ta_address_manager ta)"
  "am_sorted_list (ta_address_manager (ta_free ta i)) = am_sorted_list (ta_address_manager ta)"
  by (simp_all add: ta_free_def Let_def am_free_frame)

text \<open>What freeing leaves unchanged.\<close>

definition same_pool :: "tensor_allocator \<Rightarrow> tensor_allocator \<Rightarrow> bool" where
  "same_pool s t \<longleftrightarrow> ta_buffer_numel s = ta_buffer_numel t \<and>
     am_size (ta_address_manager s) = am_size (ta_address_manager t) \<and>
     am_align (ta_address_manager s) = am_align (ta_address_manager t) \<and>
     am_sorted_list (ta_address_manager s) = am_sorted_list (ta_address_manager t)"

lemma ta_free_each_spec:
  "ta_inv ta \<Longrightarrow> tensor_ids (ta_objs ta) is \<Longrightarrow>
     ta_inv (ta_free_each is ta) \<and> ta_objs (ta_free_each is ta) = invalidate_all is (ta_objs ta) \<and>
     same_pool (ta_free_each is ta) ta"
proof (induction "is" arbitrary: ta)
  case (Cons i "is")
  have "ta_inv (ta_free ta i)" using Cons.prems by (auto intro: ta_free_inv)
  moreover have "tensor_ids (ta_objs (ta_free ta i)) is" using Cons.prems(2) by (simp add: ta_free_objs)
  ultimately show ?case
    using Cons.IH[of "ta_free ta i"]
    by (simp add: ta_free_each_def invalidate_all_def ta_free_objs same_pool_def ta_free_frame)
qed (simp add: ta_free_each_def invalidate_all_def same_pool_def)

text \<open>The invariant leaves no freedom: the objects determine the free list and the counters.\<close>

lemma ta_inv_unique:
  assumes s: "ta_inv s" and t: "ta_inv t" and objs: "ta_objs s = ta_objs t" and pool: "same_pool s t"
  shows "s = t"
proof -
  let ?s = "ta_address_manager s" and ?t = "ta_address_manager t"
  have "free_addrs ?s = {0 ..< am_size ?s} - regions (live_regions (ta_objs s))"
    "free_addrs ?t = {0 ..< am_size ?t} - regions (live_regions (ta_objs t))"
    using ta_invD(1)[OF s] ta_invD(1)[OF t] by (auto simp: client_inv_def)
  then have "free_addrs ?s = free_addrs ?t" using objs pool by (simp add: same_pool_def)
  then have l: "explicit_list ?s = explicit_list ?t"
    using fl_ok_canonical am_invD(2)[OF ta_invD(2)[OF s]] am_invD(2)[OF ta_invD(2)[OF t]]
    by (auto simp: free_addrs_def)
  then have "total_allocated_size ?s = total_allocated_size ?t"
    using am_invD(4)[OF ta_invD(2)[OF s]] am_invD(4)[OF ta_invD(2)[OF t]] pool by (simp add: same_pool_def)
  with l pool have "?s = ?t" by (simp add: same_pool_def address_manager.equality)
  with objs pool ta_invD(3)[OF s] ta_invD(3)[OF t] show ?thesis
    by (simp add: same_pool_def tensor_allocator.equality)
qed

text \<open>
  Seen from the address manager, \<open>batched_free\<close> first merges held regions and then frees the merged
  ones. The runs that the loop has built are held regions until the end.
\<close>

definition run_region :: "int \<times> int \<times> int \<Rightarrow> int \<times> int" where
  "run_region b = (fst b, fst (snd b))"

lemma run_region_simp [simp]: "run_region (a, n, c) = (a, n)"
  by (simp add: run_region_def)

lemma client_inv_merge:
  assumes "client_inv am rs" and m: "mset rs = add_mset (a, n) (add_mset (a + n, k) (mset ss))"
  shows "client_inv am ((a, n + k) # ss)"
proof -
  have inv: "client_inv am ((a, n) # (a + n, k) # ss)"
    using assms client_inv_perm[of rs "(a, n) # (a + n, k) # ss"] by simp
  then have "0 < n" "0 < k" by (auto simp: client_inv_def)
  then have "region (a, n + k) = region (a, n) \<union> region (a + n, k)"
    by (auto simp: region_def)
  with inv show ?thesis by (auto simp: client_inv_def)
qed

lemma coalesce_objs_objs:
  "fst (coalesce_objs is objs cur blocks) = invalidate_all is objs"
proof (induction "is" objs cur blocks rule: coalesce_objs.induct)
  case (2 i "is" objs cur blocks)
  show ?case
  proof (cases "mo_valid (objs ! i)")
    case True
    with 2 show ?thesis
      by (auto simp: Let_def invalidate_all_def split: option.splits)
  next
    case False
    with 2(1)[OF refl] show ?thesis by (simp add: Let_def invalidate_all_def invalidate_id)
  qed
qed (simp add: invalidate_all_def)

abbreviation held :: "memory_obj list \<Rightarrow> (int \<times> int \<times> int) option \<Rightarrow> (int \<times> int \<times> int) list \<Rightarrow> (int \<times> int) list" where
  "held objs cur blocks \<equiv>
     live_regions objs @ map run_region (case cur of None \<Rightarrow> [] | Some b \<Rightarrow> [b]) @ map run_region blocks"

lemma coalesce_objs_held:
  "client_inv am (held objs cur blocks) \<Longrightarrow> tensor_ids objs is \<Longrightarrow>
     coalesce_objs is objs cur blocks = (objs', blocks') \<Longrightarrow>
     client_inv am (held objs' None blocks') \<and>
     int (length (live_regions objs')) + (\<Sum>(_, _, c)\<leftarrow>blocks'. c) =
       int (length (live_regions objs)) + (case cur of None \<Rightarrow> 0 | Some (_, _, c) \<Rightarrow> c) + (\<Sum>(_, _, c)\<leftarrow>blocks. c)"
proof (induction "is" objs cur blocks arbitrary: objs' blocks' rule: coalesce_objs.induct)
  case (1 objs cur blocks)
  then show ?case
    using client_inv_perm[of "held objs cur blocks" "held objs' None blocks'" am]
    by (auto split: option.splits)
next
  case (2 i "is" objs cur blocks)
  let ?mo = "objs ! i" and ?objs = "objs[i := invalidate (objs ! i)]"
  have i: "i < length objs" "mo_class ?mo = TensorMemoryObj" and ids: "tensor_ids ?objs is"
    using "2.prems"(2) by auto
  show ?case
  proof (cases "mo_valid ?mo")
    case False
    with 2(1)[OF refl] "2.prems" show ?thesis by (simp add: Let_def)
  next
    case True
    then have m: "mset (live_regions objs) = add_mset (mo_address ?mo, mo_phy_size ?mo) (mset (live_regions ?objs))"
      using live_regions_invalidate[OF i(1)] i(2) by (simp add: live_obj_def obj_region_def)
    have len: "int (length (live_regions objs)) = int (length (live_regions ?objs)) + 1"
      using arg_cong[OF m, of size] by simp
    show ?thesis
    proof (cases cur)
      case None
      have "client_inv am (held ?objs (Some (mo_address ?mo, mo_phy_size ?mo, 1)) blocks)"
        using "2.prems"(1) None m
        by (subst client_inv_perm[of _ "held objs cur blocks"]) simp_all
      with 2(2)[OF refl _ refl None] "2.prems"(3) True None ids len show ?thesis by (simp add: Let_def)
    next
      case (Some b)
      obtain s n c where b: "b = (s, n, c)" by (cases b)
      show ?thesis
      proof (cases "s + n = mo_address ?mo")
        case adj: True
        have "client_inv am ((s, n + mo_phy_size ?mo) # live_regions ?objs @ map run_region blocks)"
          using "2.prems"(1) Some b m adj
          by (intro client_inv_merge[of am "held objs cur blocks"]) simp_all
        then have "client_inv am (held ?objs (Some (s, n + mo_phy_size ?mo, c + 1)) blocks)"
          by (subst client_inv_perm[of _ "(s, n + mo_phy_size ?mo) # live_regions ?objs @ map run_region blocks"]) simp_all
        with 2(3)[OF refl _ refl Some[unfolded b] refl refl adj] "2.prems"(3) True Some b ids len adj
        show ?thesis by (simp add: Let_def)
      next
        case gap: False
        have "client_inv am (held ?objs (Some (mo_address ?mo, mo_phy_size ?mo, 1)) (blocks @ [(s, n, c)]))"
          using "2.prems"(1) Some b m
          by (subst client_inv_perm[of _ "held objs cur blocks"]) simp_all
        with 2(4)[OF refl _ refl Some[unfolded b] refl refl gap] "2.prems"(3) True Some b ids len gap
        show ?thesis by (simp add: Let_def)
      qed
    qed
  qed
qed

lemma free_blocks_client:
  "client_inv am (rs @ map run_region blocks) \<Longrightarrow>
     client_inv (free_blocks blocks am) rs \<and> am_size (free_blocks blocks am) = am_size am \<and>
     am_align (free_blocks blocks am) = am_align am \<and> am_sorted_list (free_blocks blocks am) = am_sorted_list am"
proof (induction blocks arbitrary: am)
  case (Cons b blocks)
  have "client_inv (am_free am (fst (run_region b)) (snd (run_region b))) (rs @ map run_region blocks)"
    using client_inv_free_mset[OF Cons.prems, of "run_region b"] by simp
  from Cons.IH[OF this] show ?case
    by (simp add: free_blocks_def run_region_def  am_free_frame split_beta)
qed (simp add: free_blocks_def)

lemma ta_batched_free_spec:
  assumes inv: "ta_inv ta" and ids: "tensor_ids (ta_objs ta) is"
  shows "ta_inv (ta_batched_free ta is)" and "ta_objs (ta_batched_free ta is) = invalidate_all is (ta_objs ta)"
    and "same_pool (ta_batched_free ta is) ta"
proof -
  let ?js = "sort_key (\<lambda>i. mo_address (ta_objs ta ! i)) is"
  obtain objs blocks where c: "coalesce_objs ?js (ta_objs ta) None [] = (objs, blocks)" by force
  have set_js: "set ?js = set is" by simp
  have objs: "objs = invalidate_all is (ta_objs ta)"
    using coalesce_objs_objs[of ?js "ta_objs ta" None "[]"] c invalidate_all_cong[OF set_js] by simp
  have js: "tensor_ids (ta_objs ta) ?js" using ids by (simp add: tensor_ids_def)
  have h: "client_inv (ta_address_manager ta) (live_regions objs @ map run_region blocks)"
    and cnt: "int (length (live_regions objs)) + (\<Sum>(_, _, c)\<leftarrow>blocks. c) = ta_num_active ta"
    using coalesce_objs_held[OF _ js c] ta_invD(1,3)[OF inv] by auto
  have eq: "ta_batched_free ta is = (if is = [] then ta else ta\<lparr>ta_objs := objs,
      ta_address_manager := free_blocks blocks (ta_address_manager ta),
      ta_num_active := ta_num_active ta - (\<Sum>(_, _, c)\<leftarrow>blocks. c)\<rparr>)"
    by (simp add: ta_batched_free_def c)
  show "ta_inv (ta_batched_free ta is)"
    using free_blocks_client[OF h] cnt inv unfolding eq ta_inv_def by auto
  show "ta_objs (ta_batched_free ta is) = invalidate_all is (ta_objs ta)"
    unfolding eq objs by (simp add: invalidate_all_def)
  show "same_pool (ta_batched_free ta is) ta"
    using free_blocks_client[OF h] unfolding eq same_pool_def by simp
qed

section \<open>Properties\<close>

text \<open>
  C28: \<open>TensorMemoryAllocator.batched_free\<close>, which sorts the objects by address and frees whole runs
  of adjacent objects at once, is the same as freeing the objects one by one in the given order: the
  whole allocator state, free list and counters included, is equal, also with repeated or already
  freed objects in the list.
\<close>

theorem ta_batched_free_eq_each:
  assumes "ta_inv ta" and "tensor_ids (ta_objs ta) is"
  shows "ta_batched_free ta is = ta_free_each is ta"
proof (rule ta_inv_unique)
  show "ta_inv (ta_batched_free ta is)" "ta_inv (ta_free_each is ta)"
    using ta_batched_free_spec(1)[OF assms] ta_free_each_spec[OF assms] by auto
  show "ta_objs (ta_batched_free ta is) = ta_objs (ta_free_each is ta)"
    using ta_batched_free_spec(2)[OF assms] ta_free_each_spec[OF assms] by simp
  show "same_pool (ta_batched_free ta is) (ta_free_each is ta)"
    using ta_batched_free_spec(3)[OF assms] ta_free_each_spec[OF assms] by (simp add: same_pool_def)
qed

text \<open>A pool of four pages with three objects in it, for the witnesses.\<close>

definition f16 :: dtype where "f16 = \<lparr>itemsize = 2\<rparr>"

definition sample_ta :: tensor_allocator where
  "sample_ta = \<lparr>ta_address_manager =
      \<lparr>am_size = 16384, am_align = 4096, explicit_list = [\<lparr>start = 12288, blk_size = 4096\<rparr>],
       am_sorted_list = std_sorted_list, total_allocated_size = 12288\<rparr>,
    ta_buffer_numel = 16384, ta_num_active = 3,
    ta_objs = map (\<lambda>a. new_tensor_obj [[2, 1000]] [f16] a 4096 KV_2LTD a 4096 PinAllocator) [0, 4096, 8192]\<rparr>"

lemma sample_ta_inv: "ta_inv sample_ta"
proof -
  let ?am = "ta_address_manager sample_ta" and ?rs = "[(0, 4096), (4096, 4096), (8192, 4096)] :: (int \<times> int) list"
  have "(4096::int) = 2 ^ 12" by simp
  then have al: "\<exists>k. (4096::int) = 2 ^ k" by blast
  have fr: "free_addrs ?am = {12288 ..< 16384}"
    by (simp add: sample_ta_def free_addrs_def block_addrs_def)
  have "am_inv ?am"
    using std_sorted_list_contract al fr by (simp add: am_inv_def sample_ta_def fl_ok_def gapped_def)
  moreover have "regions ?rs = {0 ..< 12288}" by (auto simp: region_def)
  moreover have "apart ?rs" by (auto simp: region_def)
  ultimately have "client_inv ?am ?rs"
    using fr by (auto simp: client_inv_def sample_ta_def)
  moreover have "live_regions (ta_objs sample_ta) = ?rs"
    by (simp add: live_regions_def sample_ta_def)
  ultimately show ?thesis by (simp add: ta_inv_def sample_ta_def)
qed

theorem ta_batched_free_eq_each_witness:
  "ta_batched_free sample_ta [2, 0, 1, 2] = ta_free_each [2, 0, 1, 2] sample_ta \<and>
   explicit_list (ta_address_manager (ta_batched_free sample_ta [2, 0, 1, 2])) = [\<lparr>start = 0, blk_size = 16384\<rparr>]"
proof -
  have ids: "tensor_ids (ta_objs sample_ta) [2, 0, 1, 2]"
    by (simp add: tensor_ids_def sample_ta_def new_tensor_obj_def)
  have "explicit_list (ta_address_manager (ta_batched_free sample_ta [2, 0, 1, 2])) = [\<lparr>start = 0, blk_size = 16384\<rparr>]"
    by code_simp
  with ta_batched_free_eq_each[OF sample_ta_inv ids] show ?thesis by simp
qed

end
