(* ===== verification/Memory_Interface.thy ===== *)
theory Memory_Interface
  imports Memory_Objects
begin

text \<open>
  The interface between an L1 manager and its memory manager: \<open>L1MemoryManagerProtocol\<close> of
  \<open>lmcache/v1/distributed/memory_manager/\<close> as a record of operations on an allocator state, the
  error codes of \<open>lmcache/v1/distributed/error.py\<close>, and the locale with the laws that the L1 manager
  relies on: what an allocation returns, what a free releases, and that an object's owner is set once.
\<close>

datatype l1_error =
    SUCCESS
  | KEY_NOT_EXIST
  | KEY_NOT_READABLE
  | KEY_NOT_WRITABLE
  | KEY_IN_WRONG_STATE
  | KEY_IS_LOCKED
  | OUT_OF_MEMORY

record memory_layout_desc =
  layout_shapes :: "shape list"
  layout_dtypes :: "dtype list"

definition make_layout :: "shape list \<Rightarrow> dtype list \<Rightarrow> memory_layout_desc result" where
  "make_layout shapes dtypes =
     (if length shapes \<noteq> length dtypes then Inl ValueError
      else Inr \<lparr>layout_shapes = shapes, layout_dtypes = dtypes\<rparr>)"

text \<open>A layout that describes at least one byte.\<close>

definition layout_ok :: "memory_layout_desc \<Rightarrow> bool" where
  "layout_ok layout \<longleftrightarrow>
     (case get_size_bytes (layout_shapes layout) (layout_dtypes layout) of Inl _ \<Rightarrow> False | Inr n \<Rightarrow> 0 < n)"

record 'm mem_ops =
  mm_allocate :: "'m \<Rightarrow> memory_layout_desc \<Rightarrow> int \<Rightarrow> ((l1_error \<times> nat list) \<times> 'm) result"
  mm_free :: "'m \<Rightarrow> nat list \<Rightarrow> (l1_error \<times> 'm) result"
  mm_get_memory_usage :: "'m \<Rightarrow> int \<times> int"
  mm_memcheck :: "'m \<Rightarrow> bool"
  mm_get_size :: "'m \<Rightarrow> nat \<Rightarrow> int"
  mm_set_l1_manager :: "'m \<Rightarrow> nat \<Rightarrow> int \<Rightarrow> 'm result"

locale memory_manager =
  fixes ops :: "'m mem_ops"
    and minv :: "'m \<Rightarrow> bool"
    and live :: "'m \<Rightarrow> nat set"
    and owner :: "'m \<Rightarrow> nat \<Rightarrow> int option"
  assumes allocate_law:
    "minv m \<Longrightarrow> layout_ok layout \<Longrightarrow> 0 \<le> n \<Longrightarrow>
       \<exists>err ids m'. mm_allocate ops m layout n = Inr ((err, ids), m') \<and> minv m' \<and>
         (\<forall>i \<in> live m. owner m' i = owner m i \<and> mm_get_size ops m' i = mm_get_size ops m i) \<and>
         (if err = SUCCESS
          then int (length ids) = n \<and> distinct ids \<and> set ids \<inter> live m = {} \<and>
               live m' = live m \<union> set ids \<and> (\<forall>i \<in> set ids. owner m' i = None)
          else err = OUT_OF_MEMORY \<and> ids = [] \<and> live m' = live m)"
    and free_law:
    "minv m \<Longrightarrow> set ids \<subseteq> live m \<Longrightarrow>
       \<exists>m'. mm_free ops m ids = Inr (SUCCESS, m') \<and> minv m' \<and> live m' = live m - set ids \<and>
         (\<forall>i \<in> live m'. owner m' i = owner m i \<and> mm_get_size ops m' i = mm_get_size ops m i)"
    and set_owner_law:
    "minv m \<Longrightarrow> i \<in> live m \<Longrightarrow> owner m i = None \<Longrightarrow>
       \<exists>m'. mm_set_l1_manager ops m i tag = Inr m' \<and> minv m' \<and> live m' = live m \<and>
         owner m' i = Some tag \<and> (\<forall>j. j \<noteq> i \<longrightarrow> owner m' j = owner m j) \<and>
         (\<forall>j. mm_get_size ops m' j = mm_get_size ops m j)"
begin

lemma free_nil: "minv m \<Longrightarrow> \<exists>m'. mm_free ops m [] = Inr (SUCCESS, m') \<and> minv m' \<and> live m' = live m"
  using free_law[of m "[]"] by auto

end

end
