(* ===== verification/Mixed_Allocator.thy ===== *)
theory Mixed_Allocator
  imports Tensor_Allocator Memory_Interface
begin

text \<open>
  \<open>BufferAllocator\<close> and \<open>MixedMemoryAllocator\<close> of \<open>lmcache/v1/memory_allocators/\<close>, the reference
  and pin counts and the destructor of \<open>TensorMemoryObj\<close>, which free an object through its parent
  allocator, and
  \<open>L1MemoryManager\<close> of \<open>lmcache/v1/distributed/memory_manager/l1_memory_manager.py\<close>, which provides
  the memory manager interface for pinned host memory.
\<close>

unbundle bit_operations_syntax

section \<open>Mixed allocator\<close>

text \<open>
  \<open>MixedMemoryAllocator\<close> with \<open>use_paging=False\<close>: pinned tensor objects and plain byte buffers.
  Both kinds of objects sit in the store of the pin allocator.
\<close>

record mixed_allocator =
  mx_align_bytes :: int
  mx_pin_allocator :: tensor_allocator

abbreviation mx_objs :: "mixed_allocator \<Rightarrow> memory_obj list" where
  "mx_objs mx \<equiv> ta_objs (mx_pin_allocator mx)"

definition mx_init :: "sorted_list \<Rightarrow> int \<Rightarrow> int \<Rightarrow> mixed_allocator result" where
  "mx_init sl sz align_bytes =
     (if align_bytes \<le> 0 \<or> align_bytes AND (align_bytes - 1) \<noteq> 0 then Inl ValueError
      else Inr \<lparr>mx_align_bytes = align_bytes, mx_pin_allocator = ta_init sl sz align_bytes None\<rparr>)"

definition pinned_formats :: "memory_format list" where
  "pinned_formats = [KV_2LTD, KV_2TD, KV_T2D, KV_MLA_FMT, EC_TD, HS_TD]"

definition buffer_len :: "shape list \<Rightarrow> int result" where
  "buffer_len shapes = (case shapes of (n # _) # _ \<Rightarrow> Inr n | _ \<Rightarrow> Inl IndexError)"

definition add_objs :: "mixed_allocator \<Rightarrow> memory_obj list \<Rightarrow> mixed_allocator" where
  "add_objs mx os = mx\<lparr>mx_pin_allocator := (mx_pin_allocator mx)\<lparr>ta_objs := mx_objs mx @ os\<rparr>\<rparr>"

definition buffer_allocate :: "mixed_allocator \<Rightarrow> shape list \<Rightarrow> (nat \<times> mixed_allocator) result" where
  "buffer_allocate mx shapes =
     (case buffer_len shapes of
        Inl e \<Rightarrow> Inl e
      | Inr n \<Rightarrow> if n < 0 then Inl ValueError
                 else Inr (length (mx_objs mx), add_objs mx [new_bytes_obj n]))"

definition buffer_batched_allocate ::
  "mixed_allocator \<Rightarrow> shape list \<Rightarrow> int \<Rightarrow> (nat list \<times> mixed_allocator) result" where
  "buffer_batched_allocate mx shapes batch_size =
     (case buffer_len shapes of
        Inl e \<Rightarrow> Inl e
      | Inr n \<Rightarrow> if n < 0 \<and> batch_size > 0 then Inl ValueError
                 else Inr ([length (mx_objs mx) ..< length (mx_objs mx) + nat batch_size],
                           add_objs mx (replicate (nat batch_size) (new_bytes_obj n))))"

definition set_parent :: "nat list \<Rightarrow> memory_obj list \<Rightarrow> memory_obj list" where
  "set_parent is objs = fold (\<lambda>i os.
     if mo_class (os ! i) = TensorMemoryObj
     then os[i := (os ! i)\<lparr>mo_parent := Some MixedAllocator\<rparr>] else os) is objs"

definition mx_allocate ::
  "mixed_allocator \<Rightarrow> shape list \<Rightarrow> dtype list \<Rightarrow> memory_format \<Rightarrow> (nat option \<times> mixed_allocator) result" where
  "mx_allocate mx shapes dtypes fmt =
     (if fmt = BINARY_BUFFER then
        (case buffer_allocate mx shapes of Inl e \<Rightarrow> Inl e | Inr (i, mx') \<Rightarrow> Inr (Some i, mx'))
      else if fmt \<in> set pinned_formats then
        (case ta_allocate (mx_pin_allocator mx) shapes dtypes fmt of
           Inl e \<Rightarrow> Inl e
         | Inr (None, ta) \<Rightarrow> Inr (None, mx\<lparr>mx_pin_allocator := ta\<rparr>)
         | Inr (Some i, ta) \<Rightarrow>
             Inr (Some i, mx\<lparr>mx_pin_allocator := ta\<lparr>ta_objs := set_parent [i] (ta_objs ta)\<rparr>\<rparr>))
      else Inl ValueError)"

definition mx_batched_allocate ::
  "mixed_allocator \<Rightarrow> shape list \<Rightarrow> dtype list \<Rightarrow> int \<Rightarrow> memory_format
     \<Rightarrow> (nat list option \<times> mixed_allocator) result" where
  "mx_batched_allocate mx shapes dtypes batch_size fmt =
     (if fmt = BINARY_BUFFER then
        (case buffer_batched_allocate mx shapes batch_size of Inl e \<Rightarrow> Inl e | Inr (is, mx') \<Rightarrow> Inr (Some is, mx'))
      else if fmt \<in> set pinned_formats then
        (case ta_batched_allocate (mx_pin_allocator mx) shapes dtypes batch_size fmt of
           Inl e \<Rightarrow> Inl e
         | Inr (None, ta) \<Rightarrow> Inr (None, mx\<lparr>mx_pin_allocator := ta\<rparr>)
         | Inr (Some is, ta) \<Rightarrow>
             Inr (Some is, mx\<lparr>mx_pin_allocator := ta\<lparr>ta_objs := set_parent is (ta_objs ta)\<rparr>\<rparr>))
      else Inl ValueError)"

definition mx_free :: "mixed_allocator \<Rightarrow> nat \<Rightarrow> mixed_allocator result" where
  "mx_free mx i =
     (let fmt = mo_fmt (mx_objs mx ! i) in
      if fmt = BINARY_BUFFER then Inr mx
      else if fmt \<in> set pinned_formats then Inr (mx\<lparr>mx_pin_allocator := ta_free (mx_pin_allocator mx) i\<rparr>)
      else Inl ValueError)"

definition mx_batched_free :: "mixed_allocator \<Rightarrow> nat list \<Rightarrow> mixed_allocator result" where
  "mx_batched_free mx is =
     (case is of
        [] \<Rightarrow> Inr mx
      | i # _ \<Rightarrow>
          let fmt = mo_fmt (mx_objs mx ! i) in
          if fmt = BINARY_BUFFER then Inr mx
          else if fmt \<in> set pinned_formats
          then Inr (mx\<lparr>mx_pin_allocator := ta_batched_free (mx_pin_allocator mx) is\<rparr>)
          else Inl ValueError)"

definition mx_memcheck :: "mixed_allocator \<Rightarrow> bool" where
  "mx_memcheck mx \<longleftrightarrow> ta_memcheck (mx_pin_allocator mx)"

text \<open>The reference and pin counts of an object, which free it through its parent allocator.\<close>

definition upd_obj :: "nat \<Rightarrow> (memory_obj \<Rightarrow> memory_obj) \<Rightarrow> mixed_allocator \<Rightarrow> mixed_allocator" where
  "upd_obj i f mx = mx\<lparr>mx_pin_allocator :=
     (mx_pin_allocator mx)\<lparr>ta_objs := (mx_objs mx)[i := f (mx_objs mx ! i)]\<rparr>\<rparr>"

definition parent_free :: "mixed_allocator \<Rightarrow> nat \<Rightarrow> mixed_allocator result" where
  "parent_free mx i =
     (case mo_parent (mx_objs mx ! i) of
        None \<Rightarrow> Inr mx
      | Some PinAllocator \<Rightarrow> Inr (mx\<lparr>mx_pin_allocator := ta_free (mx_pin_allocator mx) i\<rparr>)
      | Some MixedAllocator \<Rightarrow> mx_free mx i)"

definition ref_count_down :: "mixed_allocator \<Rightarrow> nat \<Rightarrow> mixed_allocator result" where
  "ref_count_down mx i =
     (case mo_class (mx_objs mx ! i) of
        BytesBufferMemoryObj \<Rightarrow> Inr mx
      | TensorMemoryObj \<Rightarrow>
          let rc = mo_ref_count (mx_objs mx ! i) - 1;
              rc' = (if rc < 0 then 0 else rc);
              mx' = upd_obj i (\<lambda>mo. mo\<lparr>mo_ref_count := rc'\<rparr>) mx
          in if rc' = 0 \<and> mo_parent (mx_objs mx ! i) \<noteq> None \<and> mo_pin_count (mx_objs mx ! i) = 0
             then parent_free mx' i else Inr mx')"

definition unpin :: "mixed_allocator \<Rightarrow> nat \<Rightarrow> mixed_allocator result" where
  "unpin mx i =
     (let pc = mo_pin_count (mx_objs mx ! i) - 1;
          mx' = upd_obj i (\<lambda>mo. mo\<lparr>mo_pin_count := pc\<rparr>) mx;
          freed = (if mo_class (mx_objs mx ! i) = TensorMemoryObj \<and> pc \<le> 0 \<and> mo_ref_count (mx_objs mx ! i) \<le> 0
                   then parent_free mx' i else Inr mx')
      in case freed of
           Inl e \<Rightarrow> Inl e
         | Inr mx'' \<Rightarrow> Inr (if pc < 0 then upd_obj i (\<lambda>mo. mo\<lparr>mo_pin_count := 0\<rparr>) mx'' else mx''))"

text \<open>
  The destructor: an object that is still valid when the interpreter collects it is freed through
  its parent allocator, whatever counts are left on it (that case is logged).
\<close>

definition tensor_del :: "mixed_allocator \<Rightarrow> nat \<Rightarrow> mixed_allocator result" where
  "tensor_del mx i =
     (if mo_class (mx_objs mx ! i) = TensorMemoryObj \<and> mo_parent (mx_objs mx ! i) \<noteq> None \<and>
         mo_valid (mx_objs mx ! i)
      then parent_free mx i else Inr mx)"

section \<open>L1 memory manager\<close>

definition l1mm_allocate ::
  "mixed_allocator \<Rightarrow> memory_layout_desc \<Rightarrow> int \<Rightarrow> ((l1_error \<times> nat list) \<times> mixed_allocator) result" where
  "l1mm_allocate mx layout cnt =
     (case mx_batched_allocate mx (layout_shapes layout) (layout_dtypes layout) cnt KV_2LTD of
        Inl e \<Rightarrow> Inl e
      | Inr (None, mx') \<Rightarrow> Inr ((OUT_OF_MEMORY, []), mx')
      | Inr (Some is, mx') \<Rightarrow> Inr ((SUCCESS, is), mx'))"

definition l1mm_free :: "mixed_allocator \<Rightarrow> nat list \<Rightarrow> (l1_error \<times> mixed_allocator) result" where
  "l1mm_free mx is =
     (case mx_batched_free mx is of Inl e \<Rightarrow> Inl e | Inr mx' \<Rightarrow> Inr (SUCCESS, mx'))"

definition l1mm_get_memory_usage :: "mixed_allocator \<Rightarrow> int \<times> int" where
  "l1mm_get_memory_usage mx =
     (let am = ta_address_manager (mx_pin_allocator mx);
          free_size = get_free_size am; total_size = get_heap_size am
      in (total_size - free_size, total_size))"

definition l1mm_memcheck :: "mixed_allocator \<Rightarrow> bool" where
  "l1mm_memcheck mx \<longleftrightarrow> mx_memcheck mx"

section \<open>Invariant\<close>

definition mx_inv :: "mixed_allocator \<Rightarrow> bool" where
  "mx_inv mx \<longleftrightarrow> ta_inv (mx_pin_allocator mx) \<and>
     (\<forall>mo \<in> set (mx_objs mx).
        (mo_class mo = TensorMemoryObj \<longrightarrow> mo_fmt mo \<in> set pinned_formats \<and> mo_parent mo = Some MixedAllocator) \<and>
        (mo_class mo = BytesBufferMemoryObj \<longrightarrow> mo_fmt mo = BINARY_BUFFER \<and> mo_parent mo = None))"

definition live_ids :: "mixed_allocator \<Rightarrow> nat set" where
  "live_ids mx = {i. i < length (mx_objs mx) \<and> live_obj (mx_objs mx ! i)}"

definition obj_owner :: "mixed_allocator \<Rightarrow> nat \<Rightarrow> int option" where
  "obj_owner mx i = mo_l1_manager_id (mx_objs mx ! i)"

text \<open>The accepted alignments are the powers of two.\<close>

lemma power_of_two_int: "0 < a \<Longrightarrow> a AND (a - 1) = 0 \<Longrightarrow> \<exists>k. a = (2::int) ^ k"
proof (induction "nat a" arbitrary: a rule: less_induct)
  case less
  have "drop_bit 1 (a AND (a - 1)) = 0" using less.prems(2) by simp
  then have half: "(a div 2) AND ((a - 1) div 2) = 0"
    unfolding drop_bit_and by (simp add: drop_bit_eq_div)
  show ?case
  proof (cases "even a")
    case True
    then obtain b where b: "a = 2 * b" by (elim evenE)
    have "(a - 1) div 2 = b - 1" using b by simp
    with half b have "b AND (b - 1) = 0" by simp
    moreover have "0 < b" "nat b < nat a" using less.prems(1) b by auto
    ultimately obtain k where "b = 2 ^ k" using less.hyps[of b] by auto
    with b show ?thesis by (intro exI[of _ "Suc k"]) simp
  next
    case False
    then obtain b where b: "a = 2 * b + 1" by (elim oddE)
    with half have "b = 0" by simp
    with b show ?thesis by (intro exI[of _ 0]) simp
  qed
qed

lemma mx_init_ok:
  assumes "mx_init sl sz al = Inr mx" and "sorted_list_contract sl" and "0 < sz"
  shows "mx_inv mx" and "live_ids mx = {}"
proof -
  have al: "0 < al" "al AND (al - 1) = 0"
    and mx: "mx = \<lparr>mx_align_bytes = al, mx_pin_allocator = ta_init sl sz al None\<rparr>"
    using assms(1) by (auto simp: mx_init_def split: if_splits)
  obtain k where "al = 2 ^ k" using power_of_two_int[OF al] by blast
  with am_init_inv[OF assms(2,3), of k] have "ta_inv (ta_init sl sz al None)"
    using assms(3) by (simp add: ta_inv_def ta_init_def client_inv_def live_regions_def am_init_def)
  then show "mx_inv mx" "live_ids mx = {}"
    by (simp_all add: mx_inv_def mx live_ids_def ta_init_def)
qed

text \<open>Updates of an object that leave its region and validity alone.\<close>

lemma live_regions_cong:
  "length os = length os' \<Longrightarrow> (\<And>i. i < length os \<Longrightarrow> live_obj (os ! i) = live_obj (os' ! i)) \<Longrightarrow>
   (\<And>i. i < length os \<Longrightarrow> obj_region (os ! i) = obj_region (os' ! i)) \<Longrightarrow> live_regions os = live_regions os'"
proof (induction os os' rule: list_induct2)
  case (Cons x xs y ys)
  have "live_regions xs = live_regions ys"
    using Cons.IH Cons.prems(1)[of "Suc _"] Cons.prems(2)[of "Suc _"] by simp
  then show ?case using Cons.prems(1)[of 0] Cons.prems(2)[of 0] by (simp add: live_regions_def)
qed simp

definition same_place :: "memory_obj \<Rightarrow> memory_obj \<Rightarrow> bool" where
  "same_place x y \<longleftrightarrow> mo_class x = mo_class y \<and> mo_valid x = mo_valid y \<and> mo_address x = mo_address y \<and>
     mo_phy_size x = mo_phy_size y"

lemma ta_inv_same_place:
  assumes "ta_inv ta" and "length os = length (ta_objs ta)"
    and "\<And>i. i < length os \<Longrightarrow> same_place (os ! i) (ta_objs ta ! i)"
  shows "ta_inv (ta\<lparr>ta_objs := os\<rparr>)"
proof -
  have "live_regions os = live_regions (ta_objs ta)"
    using assms(2,3) by (intro live_regions_cong) (auto simp: same_place_def live_obj_def obj_region_def)
  with assms(1) show ?thesis by (simp add: ta_inv_def)
qed

lemma upd_obj_inv:
  assumes inv: "mx_inv mx"
    and f: "\<And>mo. same_place (f mo) mo \<and> mo_fmt (f mo) = mo_fmt mo \<and> mo_parent (f mo) = mo_parent mo"
  shows "mx_inv (upd_obj i f mx)" and "live_ids (upd_obj i f mx) = live_ids mx"
proof -
  let ?os = "(mx_objs mx)[i := f (mx_objs mx ! i)]"
  have sp: "same_place (?os ! j) (mx_objs mx ! j) \<and> mo_fmt (?os ! j) = mo_fmt (mx_objs mx ! j) \<and>
      mo_parent (?os ! j) = mo_parent (mx_objs mx ! j)" if "j < length (mx_objs mx)" for j
    using that f[of "mx_objs mx ! j"] by (cases "i = j") (auto simp: same_place_def)
  have "ta_inv (mx_pin_allocator mx\<lparr>ta_objs := ?os\<rparr>)"
    using inv sp by (intro ta_inv_same_place) (auto simp: mx_inv_def)
  with inv sp show "mx_inv (upd_obj i f mx)"
    by (auto simp: mx_inv_def upd_obj_def all_set_conv_all_nth same_place_def)
  show "live_ids (upd_obj i f mx) = live_ids mx"
    using sp by (auto simp: live_ids_def upd_obj_def live_obj_def same_place_def)
qed

lemma length_set_parent [simp]: "length (set_parent is os) = length os"
  by (induction "is" arbitrary: os) (auto simp: set_parent_def)

lemma nth_set_parent:
  "i < length os \<Longrightarrow> set_parent is os ! i =
     (if i \<in> set is \<and> mo_class (os ! i) = TensorMemoryObj then (os ! i)\<lparr>mo_parent := Some MixedAllocator\<rparr> else os ! i)"
proof (induction "is" arbitrary: os)
  case (Cons j "is")
  let ?os = "if mo_class (os ! j) = TensorMemoryObj then os[j := (os ! j)\<lparr>mo_parent := Some MixedAllocator\<rparr>] else os"
  have "set_parent (j # is) os = set_parent is ?os" by (simp add: set_parent_def)
  moreover have "i < length ?os" using Cons.prems by simp
  ultimately show ?case using Cons.IH[of ?os] Cons.prems by (cases "i = j") (auto simp: nth_list_update)
qed (simp add: set_parent_def)

section \<open>Allocation and release\<close>

lemma mx_invD:
  assumes "mx_inv mx"
  shows "ta_inv (mx_pin_allocator mx)"
    and "i < length (mx_objs mx) \<Longrightarrow> mo_class (mx_objs mx ! i) = TensorMemoryObj \<Longrightarrow>
      mo_fmt (mx_objs mx ! i) \<in> set pinned_formats \<and> mo_parent (mx_objs mx ! i) = Some MixedAllocator"
  using assms by (auto simp: mx_inv_def)

lemma pinned_not_binary: "fmt \<in> set pinned_formats \<Longrightarrow> fmt \<noteq> BINARY_BUFFER"
  by (auto simp: pinned_formats_def)

lemma layout_ok_size:
  "layout_ok layout \<Longrightarrow> \<exists>n. get_size_bytes (layout_shapes layout) (layout_dtypes layout) = Inr n \<and> 0 < n"
  by (auto simp: layout_ok_def split: sum.splits)

lemma mx_inv_add_tensors:
  assumes inv: "mx_inv mx" and ta: "ta_inv ta" "ta_objs ta = mx_objs mx @ os"
    and os: "\<And>mo. mo \<in> set os \<Longrightarrow> live_obj mo \<and> mo_fmt mo \<in> set pinned_formats \<and> mo_l1_manager_id mo = None"
    and ids: "is = [length (mx_objs mx) ..< length (mx_objs mx) + length os]"
  defines "mx' \<equiv> mx\<lparr>mx_pin_allocator := ta\<lparr>ta_objs := set_parent is (ta_objs ta)\<rparr>\<rparr>"
  shows "mx_inv mx'" and "live_ids mx' = live_ids mx \<union> set is" and "set is \<inter> live_ids mx = {}"
    and "i < length (mx_objs mx) \<Longrightarrow> mx_objs mx' ! i = mx_objs mx ! i"
    and "i \<in> set is \<Longrightarrow> obj_owner mx' i = None"
proof -
  have len: "length (mx_objs mx') = length (mx_objs mx) + length os" by (simp add: mx'_def ta(2))
  have old: "mx_objs mx' ! i = mx_objs mx ! i" if "i < length (mx_objs mx)" for i
    using that by (simp add: mx'_def nth_set_parent ta(2) nth_append ids)
  have new: "\<exists>mo \<in> set os. mx_objs mx' ! i = mo\<lparr>mo_parent := Some MixedAllocator\<rparr>"
    if "length (mx_objs mx) \<le> i" "i < length (mx_objs mx')" for i
    using that os[OF nth_mem[of "i - length (mx_objs mx)" os]] len
    by (auto simp: mx'_def nth_set_parent ta(2) nth_append ids live_obj_def intro!: bexI[of _ "os ! (i - length (mx_objs mx))"])
  show "i < length (mx_objs mx) \<Longrightarrow> mx_objs mx' ! i = mx_objs mx ! i" by (rule old)
  show "set is \<inter> live_ids mx = {}" by (auto simp: ids live_ids_def)
  show "i \<in> set is \<Longrightarrow> obj_owner mx' i = None"
    using new[of i] os len by (force simp: obj_owner_def ids)
  have "live_obj (mx_objs mx' ! i)" if "length (mx_objs mx) \<le> i" "i < length (mx_objs mx')" for i
    using new[OF that] os by (auto simp: live_obj_def)
  then show "live_ids mx' = live_ids mx \<union> set is"
    using old len by (auto simp: live_ids_def ids not_less)
  have "ta_inv (mx_pin_allocator mx')"
    unfolding mx'_def by (simp, rule ta_inv_same_place[OF ta(1)]) (auto simp: nth_set_parent same_place_def)
  moreover have "mo_class (mx_objs mx' ! i) = TensorMemoryObj \<and> mo_fmt (mx_objs mx' ! i) \<in> set pinned_formats \<and>
      mo_parent (mx_objs mx' ! i) = Some MixedAllocator" if "length (mx_objs mx) \<le> i" "i < length (mx_objs mx')" for i
    using new[OF that] os by (auto simp: live_obj_def)
  ultimately show "mx_inv mx'"
    using inv old by (auto simp: mx_inv_def all_set_conv_all_nth) (metis not_less obj_class.distinct(1))+
qed

lemma l1mm_allocate_law:
  assumes inv: "mx_inv mx" and lay: "layout_ok layout" and n: "0 \<le> n"
  shows "\<exists>err ids mx'. l1mm_allocate mx layout n = Inr ((err, ids), mx') \<and> mx_inv mx' \<and>
    (\<forall>i \<in> live_ids mx. mx_objs mx' ! i = mx_objs mx ! i) \<and>
    (if err = SUCCESS
     then int (length ids) = n \<and> distinct ids \<and> set ids \<inter> live_ids mx = {} \<and>
          live_ids mx' = live_ids mx \<union> set ids \<and> (\<forall>i \<in> set ids. obj_owner mx' i = None)
     else err = OUT_OF_MEMORY \<and> ids = [] \<and> live_ids mx' = live_ids mx)"
proof -
  let ?ta = "mx_pin_allocator mx" and ?sh = "layout_shapes layout" and ?dt = "layout_dtypes layout"
  obtain k where k: "get_size_bytes ?sh ?dt = Inr k" "0 < k" using layout_ok_size[OF lay] by blast
  have fmt: "KV_2LTD \<in> set pinned_formats" by (simp add: pinned_formats_def)
  from ta_batched_allocate_cases[OF mx_invD(1)[OF inv] k n, of KV_2LTD] show ?thesis
  proof (elim disjE exE conjE)
    fix as am'
    let ?u = "compute_aligned_size (ta_address_manager ?ta) k"
    let ?os = "map (\<lambda>a. new_tensor_obj ?sh ?dt a ?u KV_2LTD a (slice_len ?ta a ?u) PinAllocator) as"
    let ?ids = "[length (mx_objs mx) ..< length (mx_objs mx) + length as]"
    let ?ta' = "?ta\<lparr>ta_address_manager := am', ta_num_active := ta_num_active ?ta + n, ta_objs := mx_objs mx @ ?os\<rparr>"
    assume len: "int (length as) = n"
      and c: "client_inv am' (map (\<lambda>a. (a, ?u)) as @ live_regions (mx_objs mx))"
      and eq: "ta_batched_allocate ?ta ?sh ?dt n KV_2LTD = Inr (Some ?ids, ?ta')"
    have "ta_inv ?ta'"
      using c client_inv_append_commute[of am' "map (\<lambda>a. (a, ?u)) as"] ta_invD(3)[OF mx_invD(1)[OF inv]] len
      by (simp add: ta_inv_def)
    note A = mx_inv_add_tensors[OF inv this, of ?os ?ids]
    have os: "live_obj mo \<and> mo_fmt mo \<in> set pinned_formats \<and> mo_l1_manager_id mo = None" if "mo \<in> set ?os" for mo
      using that by (auto simp: new_tensor_obj_def live_obj_def fmt)
    let ?mx' = "mx\<lparr>mx_pin_allocator := ?ta'\<lparr>ta_objs := set_parent ?ids (ta_objs ?ta')\<rparr>\<rparr>"
    have "l1mm_allocate mx layout n = Inr ((SUCCESS, ?ids), ?mx')"
      unfolding l1mm_allocate_def mx_batched_allocate_def eq using fmt by simp
    then show ?thesis
      using A os len by (intro exI[of _ SUCCESS] exI[of _ ?ids] exI[of _ ?mx']) (auto simp: live_ids_def)
  next
    assume "ta_batched_allocate ?ta ?sh ?dt n KV_2LTD = Inr (None, ?ta)"
    then have "l1mm_allocate mx layout n = Inr ((OUT_OF_MEMORY, []), mx)"
      unfolding l1mm_allocate_def mx_batched_allocate_def using fmt by simp
    then show ?thesis using inv by auto
  qed
qed

lemma mx_inv_invalidate:
  assumes inv: "mx_inv mx" and ta: "ta_inv ta" and objs: "ta_objs ta = invalidate_all is (mx_objs mx)"
  shows "mx_inv (mx\<lparr>mx_pin_allocator := ta\<rparr>)" and "live_ids (mx\<lparr>mx_pin_allocator := ta\<rparr>) = live_ids mx - set is"
proof -
  show "mx_inv (mx\<lparr>mx_pin_allocator := ta\<rparr>)"
    using inv ta by (simp add: mx_inv_def objs all_set_conv_all_nth nth_invalidate_all invalidate_def)
  show "live_ids (mx\<lparr>mx_pin_allocator := ta\<rparr>) = live_ids mx - set is"
    by (auto simp: live_ids_def objs nth_invalidate_all live_obj_def invalidate_def split: if_splits)
qed

lemma l1mm_free_law:
  assumes inv: "mx_inv mx" and ids: "set is \<subseteq> live_ids mx"
  shows "\<exists>mx'. l1mm_free mx is = Inr (SUCCESS, mx') \<and> mx_inv mx' \<and> live_ids mx' = live_ids mx - set is \<and>
    (\<forall>i \<in> live_ids mx'. mx_objs mx' ! i = mx_objs mx ! i)"
proof (cases "is")
  case Nil
  with inv show ?thesis by (simp add: l1mm_free_def mx_batched_free_def)
next
  case (Cons i js)
  let ?ta = "mx_pin_allocator mx" and ?mx = "mx\<lparr>mx_pin_allocator := ta_batched_free (mx_pin_allocator mx) is\<rparr>"
  have t: "tensor_ids (ta_objs ?ta) is" using ids by (auto simp: tensor_ids_def live_ids_def live_obj_def)
  then have "mo_fmt (mx_objs mx ! i) \<in> set pinned_formats" using mx_invD(2)[OF inv] Cons by simp
  then have eq: "l1mm_free mx is = Inr (SUCCESS, ?mx)"
    using pinned_not_binary by (simp add: l1mm_free_def mx_batched_free_def Cons Let_def)
  note f = ta_batched_free_spec[OF mx_invD(1)[OF inv] t]
  note I = mx_inv_invalidate[OF inv f(1,2)]
  have "mx_objs ?mx ! j = mx_objs mx ! j" if "j \<in> live_ids ?mx" for j
  proof -
    have "j \<notin> set is" "j < length (mx_objs mx)" using that unfolding I(2) by (auto simp: live_ids_def)
    then show ?thesis using f(2) by (simp add: nth_invalidate_all)
  qed
  with eq I show ?thesis by blast
qed

lemma parent_free_law:
  assumes inv: "mx_inv mx" and i: "i \<in> live_ids mx"
  shows "\<exists>mx'. parent_free mx i = Inr mx' \<and> mx_inv mx' \<and> live_ids mx' = live_ids mx - {i} \<and>
    mx_objs mx' = (mx_objs mx)[i := invalidate (mx_objs mx ! i)] \<and>
    free_addrs (ta_address_manager (mx_pin_allocator mx')) =
      free_addrs (ta_address_manager (mx_pin_allocator mx)) \<union> region (obj_region (mx_objs mx ! i)) \<and>
    same_pool (mx_pin_allocator mx') (mx_pin_allocator mx) \<and> mx_align_bytes mx' = mx_align_bytes mx"
proof -
  let ?mo = "mx_objs mx ! i" and ?ta = "ta_free (mx_pin_allocator mx) i"
  let ?mx = "mx\<lparr>mx_pin_allocator := ?ta\<rparr>"
  have len: "i < length (mx_objs mx)" and cl: "mo_class ?mo = TensorMemoryObj" and v: "mo_valid ?mo"
    and live: "live_obj ?mo"
    using i by (auto simp: live_ids_def live_obj_def)
  have eq: "parent_free mx i = Inr ?mx"
    using mx_invD(2)[OF inv len cl] pinned_not_binary by (simp add: parent_free_def mx_free_def Let_def)
  have o: "ta_objs ?ta = invalidate_all [i] (mx_objs mx)" by (simp add: ta_free_objs invalidate_all_def)
  have I: "mx_inv ?mx" "live_ids ?mx = live_ids mx - {i}"
    using mx_inv_invalidate[OF inv ta_free_inv[OF mx_invD(1)[OF inv] len cl] o] by auto
  have "obj_region ?mo \<in> set (live_regions (mx_objs mx))"
    using len live by (auto simp: live_regions_def)
  from client_inv_free[OF ta_invD(1)[OF mx_invD(1)[OF inv]] this]
  have "free_addrs (ta_address_manager ?ta) =
      free_addrs (ta_address_manager (mx_pin_allocator mx)) \<union> region (obj_region ?mo)"
    using v by (simp add: ta_free_def Let_def obj_region_def region_def)
  with eq I show ?thesis
    by (intro exI[of _ ?mx]) (simp add: ta_free_objs same_pool_def ta_free_frame)
qed

lemma tensor_del_law:
  assumes "mx_inv mx" and "i \<in> live_ids mx"
  shows "tensor_del mx i = parent_free mx i"
  using assms mx_invD(2)[OF assms(1), of i] by (auto simp: tensor_del_def live_ids_def live_obj_def)

lemma tensor_del_freed: "\<not> mo_valid (mx_objs mx ! i) \<Longrightarrow> tensor_del mx i = Inr mx"
  by (simp add: tensor_del_def)

section \<open>The interface for pinned host memory\<close>

definition l1mm_set_l1_manager :: "mixed_allocator \<Rightarrow> nat \<Rightarrow> int \<Rightarrow> mixed_allocator result" where
  "l1mm_set_l1_manager mx i owner_tag =
     (case set_l1_manager (mx_objs mx ! i) owner_tag of
        Inl e \<Rightarrow> Inl e
      | Inr mo \<Rightarrow> Inr (upd_obj i (\<lambda>_. mo) mx))"

definition l1mm_ops :: "mixed_allocator mem_ops" where
  "l1mm_ops = \<lparr>mm_allocate = l1mm_allocate, mm_free = l1mm_free,
     mm_get_memory_usage = l1mm_get_memory_usage, mm_memcheck = l1mm_memcheck,
     mm_get_size = (\<lambda>mx i. get_size (mx_objs mx ! i)), mm_set_l1_manager = l1mm_set_l1_manager\<rparr>"

lemma upd_obj_eta: "upd_obj i (\<lambda>_. f (mx_objs mx ! i)) mx = upd_obj i f mx"
  by (simp add: upd_obj_def)

lemma set_owner_law_mx:
  assumes inv: "mx_inv mx" and i: "i \<in> live_ids mx" and o: "obj_owner mx i = None"
  shows "\<exists>mx'. l1mm_set_l1_manager mx i tag = Inr mx' \<and> mx_inv mx' \<and> live_ids mx' = live_ids mx \<and>
    obj_owner mx' i = Some tag \<and> (\<forall>j. j \<noteq> i \<longrightarrow> obj_owner mx' j = obj_owner mx j) \<and>
    (\<forall>j. get_size (mx_objs mx' ! j) = get_size (mx_objs mx ! j))"
proof -
  let ?f = "\<lambda>mo. mo\<lparr>mo_l1_manager_id := Some tag\<rparr>"
  have eq: "l1mm_set_l1_manager mx i tag = Inr (upd_obj i ?f mx)"
    using o upd_obj_eta[of i ?f] by (simp add: l1mm_set_l1_manager_def set_l1_manager_def obj_owner_def)
  have sp: "same_place (?f mo) mo \<and> mo_fmt (?f mo) = mo_fmt mo \<and> mo_parent (?f mo) = mo_parent mo" for mo
    by (simp add: same_place_def)
  have "get_size (mx_objs (upd_obj i ?f mx) ! j) = get_size (mx_objs mx ! j)" for j
    using i by (cases "i = j") (auto simp: upd_obj_def get_size_def live_ids_def split: obj_class.split option.split)
  with eq upd_obj_inv[OF inv, of ?f i] sp i show ?thesis
    by (auto simp: obj_owner_def upd_obj_def live_ids_def)
qed

interpretation dram: memory_manager l1mm_ops mx_inv live_ids obj_owner
proof unfold_locales
  fix m :: mixed_allocator and layout :: memory_layout_desc and n :: int and ids :: "nat list"
  show "\<exists>err ids m'. mm_allocate l1mm_ops m layout n = Inr ((err, ids), m') \<and> mx_inv m' \<and>
      (\<forall>i \<in> live_ids m. obj_owner m' i = obj_owner m i \<and> mm_get_size l1mm_ops m' i = mm_get_size l1mm_ops m i) \<and>
      (if err = SUCCESS
       then int (length ids) = n \<and> distinct ids \<and> set ids \<inter> live_ids m = {} \<and>
            live_ids m' = live_ids m \<union> set ids \<and> (\<forall>i \<in> set ids. obj_owner m' i = None)
       else err = OUT_OF_MEMORY \<and> ids = [] \<and> live_ids m' = live_ids m)"
    if "mx_inv m" "layout_ok layout" "0 \<le> n"
  proof -
    note law = l1mm_allocate_law[OF that]
    then obtain err ids m' where r: "l1mm_allocate m layout n = Inr ((err, ids), m') \<and> mx_inv m' \<and>
      (\<forall>i \<in> live_ids m. mx_objs m' ! i = mx_objs m ! i) \<and>
      (if err = SUCCESS
       then int (length ids) = n \<and> distinct ids \<and> set ids \<inter> live_ids m = {} \<and>
            live_ids m' = live_ids m \<union> set ids \<and> (\<forall>i \<in> set ids. obj_owner m' i = None)
       else err = OUT_OF_MEMORY \<and> ids = [] \<and> live_ids m' = live_ids m)"
      by (elim exE)
    then show ?thesis
      by (intro exI[of _ err] exI[of _ ids] exI[of _ m']) (auto simp: l1mm_ops_def obj_owner_def split: if_splits)
  qed
  show "\<exists>m'. mm_free l1mm_ops m ids = Inr (SUCCESS, m') \<and> mx_inv m' \<and> live_ids m' = live_ids m - set ids \<and>
      (\<forall>i \<in> live_ids m'. obj_owner m' i = obj_owner m i \<and> mm_get_size l1mm_ops m' i = mm_get_size l1mm_ops m i)"
    if "mx_inv m" "set ids \<subseteq> live_ids m"
  proof -
    note law = l1mm_free_law[OF that]
    then obtain m' where "l1mm_free m ids = Inr (SUCCESS, m') \<and> mx_inv m' \<and> live_ids m' = live_ids m - set ids \<and>
      (\<forall>i \<in> live_ids m'. mx_objs m' ! i = mx_objs m ! i)"
      by (elim exE)
    then show ?thesis by (intro exI[of _ m']) (simp add: l1mm_ops_def obj_owner_def)
  qed
next
  fix m :: mixed_allocator and i :: nat and tag :: int
  show "\<exists>m'. mm_set_l1_manager l1mm_ops m i tag = Inr m' \<and> mx_inv m' \<and> live_ids m' = live_ids m \<and>
      obj_owner m' i = Some tag \<and> (\<forall>j. j \<noteq> i \<longrightarrow> obj_owner m' j = obj_owner m j) \<and>
      (\<forall>j. mm_get_size l1mm_ops m' j = mm_get_size l1mm_ops m j)"
    if "mx_inv m" "i \<in> live_ids m" "obj_owner m i = None"
    using set_owner_law_mx[OF that] by (simp add: l1mm_ops_def)
qed

section \<open>Properties\<close>

text \<open>
  C29: \<open>TensorMemoryObj.ref_count_down\<close> on an object of the mixed allocator frees its memory exactly
  when the last reference goes and no pin is left: then the object becomes invalid and exactly its
  region joins the free addresses. In every other case only its reference count changes. Either way
  its pin count and other fields, every other object and the shape of the pool stay as they were,
  and the heap stays consistent.
\<close>

theorem ref_count_down_frees_iff:
  assumes inv: "mx_inv mx" and i: "i \<in> live_ids mx" and rc: "1 \<le> mo_ref_count (mx_objs mx ! i)"
  defines "mo \<equiv> mx_objs mx ! i"
  defines "freed \<equiv> mo_ref_count mo = 1 \<and> mo_pin_count mo = 0"
  shows "\<exists>mx'. ref_count_down mx i = Inr mx' \<and> mx_inv mx' \<and>
    live_ids mx' = (if freed then live_ids mx - {i} else live_ids mx) \<and>
    mx_objs mx' = (mx_objs mx)[i := mo\<lparr>mo_ref_count := mo_ref_count mo - 1, mo_valid := \<not> freed\<rparr>] \<and>
    free_addrs (ta_address_manager (mx_pin_allocator mx')) =
      free_addrs (ta_address_manager (mx_pin_allocator mx)) \<union> (if freed then region (obj_region mo) else {}) \<and>
    same_pool (mx_pin_allocator mx') (mx_pin_allocator mx) \<and> mx_align_bytes mx' = mx_align_bytes mx"
proof -
  let ?f = "\<lambda>m. m\<lparr>mo_ref_count := mo_ref_count mo - 1\<rparr>"
  let ?mx = "upd_obj i ?f mx"
  have len: "i < length (mx_objs mx)" and cl: "mo_class mo = TensorMemoryObj" and v: "mo_valid mo"
    using i by (auto simp: live_ids_def live_obj_def mo_def)
  have p: "mo_parent mo = Some MixedAllocator" using mx_invD(2)[OF inv len] cl by (simp add: mo_def)
  have sp: "same_place (?f m) m \<and> mo_fmt (?f m) = mo_fmt m \<and> mo_parent (?f m) = mo_parent m" for m
    by (simp add: same_place_def)
  note U = upd_obj_inv[OF inv, of ?f i, OF sp]
  have objs: "mx_objs ?mx = (mx_objs mx)[i := ?f mo]" and al: "mx_align_bytes ?mx = mx_align_bytes mx"
    and pool: "same_pool (mx_pin_allocator ?mx) (mx_pin_allocator mx)"
    and am: "ta_address_manager (mx_pin_allocator ?mx) = ta_address_manager (mx_pin_allocator mx)"
    by (simp_all add: upd_obj_def mo_def same_pool_def)
  show ?thesis
  proof (cases freed)
    case False
    then have "ref_count_down mx i = Inr ?mx"
      using rc cl unfolding mo_def freed_def by (auto simp: ref_count_down_def Let_def)
    moreover have "?f mo = mo\<lparr>mo_ref_count := mo_ref_count mo - 1, mo_valid := True\<rparr>" using v by simp
    ultimately show ?thesis using False U objs al pool am by (intro exI[of _ ?mx]) simp
  next
    case True
    then have "ref_count_down mx i = parent_free ?mx i"
      using p cl unfolding mo_def freed_def by (simp add: ref_count_down_def Let_def)
    moreover have "i \<in> live_ids ?mx" using i U(2) by simp
    ultimately show ?thesis
      using parent_free_law[OF U(1), of i] True objs al pool am U(2) len
      by (auto simp: invalidate_def obj_region_def same_pool_def)
  qed
qed

definition sample_mx :: mixed_allocator where
  "sample_mx = \<lparr>mx_align_bytes = 4096,
     mx_pin_allocator = sample_ta\<lparr>ta_objs := set_parent [0, 1, 2] (ta_objs sample_ta)\<rparr>\<rparr>"

lemma sample_mx_objs:
  "mx_objs sample_mx = map (\<lambda>a. (new_tensor_obj [[2, 1000]] [f16] a 4096 KV_2LTD a 4096 PinAllocator)
     \<lparr>mo_parent := Some MixedAllocator\<rparr>) [0, 4096, 8192]"
  by (simp add: sample_mx_def set_parent_def sample_ta_def new_tensor_obj_def)

lemma sample_mx_inv: "mx_inv sample_mx"
proof -
  have "ta_inv (mx_pin_allocator sample_mx)"
    unfolding sample_mx_def by (simp, rule ta_inv_same_place[OF sample_ta_inv]) (auto simp: nth_set_parent same_place_def)
  then show "mx_inv sample_mx"
    by (simp add: mx_inv_def sample_mx_objs new_tensor_obj_def pinned_formats_def)
qed

lemma sample_mx_live: "live_ids sample_mx = {0, 1, 2}"
proof -
  have "\<forall>mo \<in> set (mx_objs sample_mx). live_obj mo"
    by (simp add: sample_mx_objs new_tensor_obj_def live_obj_def)
  then have "live_ids sample_mx = {i. i < length (mx_objs sample_mx)}"
    unfolding live_ids_def using nth_mem by blast
  also have "length (mx_objs sample_mx) = 3" by (simp add: sample_mx_objs)
  also have "{i. i < 3} = {0, 1, 2 :: nat}" by auto
  finally show ?thesis .
qed

theorem ref_count_down_frees_iff_witness:
  "\<exists>mx'. ref_count_down sample_mx 1 = Inr mx' \<and> live_ids mx' = {0, 2}"
proof -
  have i: "1 \<in> live_ids sample_mx" by (simp add: sample_mx_live)
  have c: "mo_ref_count (mx_objs sample_mx ! 1) = 1" "mo_pin_count (mx_objs sample_mx ! 1) = 0"
    by (simp_all add: sample_mx_objs new_tensor_obj_def)
  then have "1 \<le> mo_ref_count (mx_objs sample_mx ! 1)" by simp
  from ref_count_down_frees_iff[OF sample_mx_inv i this]
  obtain mx' where "ref_count_down sample_mx 1 = Inr mx'" "live_ids mx' = live_ids sample_mx - {1}"
    using c by auto
  moreover have "{0, 1, 2} - {1} = {0, 2 :: nat}" by auto
  ultimately show ?thesis unfolding sample_mx_live by auto
qed

end
