(* ===== verification/TTL_Lock.thy ===== *)
theory TTL_Lock
  imports Prelude
begin

text \<open>
  The reader/writer lock with a time to live: \<open>TTLLock\<close> of \<open>csrc/lmcache_native/ttl_lock.cpp\<close>.
  First the effect of each method when it runs alone, which is how the L1 manager calls it (under
  the manager's mutex). Then \<open>lock()\<close> as the code runs it, one atomic load, store or
  compare-and-swap per step, so that several threads may interleave. The code's times fit an
  \<open>int64_t\<close> of milliseconds with room to spare (the time to live is a \<open>uint32_t\<close> of seconds), so
  they are plain integers here.
\<close>

record ttl_lock =
  tl_counter :: int
  tl_expiration_ms :: int
  tl_ttl_ms :: int

definition ttl_new :: "int \<Rightarrow> ttl_lock" where
  "ttl_new ttl_sec = \<lparr>tl_counter = 0, tl_expiration_ms = 0, tl_ttl_ms = ttl_sec * 1000\<rparr>"

definition ttl_acquire :: "int \<Rightarrow> ttl_lock \<Rightarrow> ttl_lock" where
  "ttl_acquire now l =
     (if now \<ge> tl_expiration_ms l
      then l\<lparr>tl_expiration_ms := now + tl_ttl_ms l, tl_counter := 1\<rparr>
      else l\<lparr>tl_counter := tl_counter l + 1, tl_expiration_ms := now + tl_ttl_ms l\<rparr>)"

definition ttl_release :: "ttl_lock \<Rightarrow> ttl_lock" where
  "ttl_release l = (if tl_counter l \<le> 0 then l else l\<lparr>tl_counter := tl_counter l - 1\<rparr>)"

definition ttl_is_locked :: "int \<Rightarrow> ttl_lock \<Rightarrow> bool" where
  "ttl_is_locked now l \<longleftrightarrow> tl_counter l > 0 \<and> now < tl_expiration_ms l"

definition ttl_reset :: "ttl_lock \<Rightarrow> ttl_lock" where
  "ttl_reset l = l\<lparr>tl_counter := 0, tl_expiration_ms := 0\<rparr>"

section \<open>Calls that do not overlap\<close>

lemma ttl_new_unlocked: "\<not> ttl_is_locked now (ttl_new ttl)"
  by (simp add: ttl_is_locked_def ttl_new_def)

lemma ttl_acquire_locked:
  "0 < tl_ttl_ms l \<Longrightarrow> 0 \<le> tl_counter l \<Longrightarrow> ttl_is_locked now (ttl_acquire now l)"
  by (simp add: ttl_is_locked_def ttl_acquire_def)

lemma ttl_counter_nonneg:
  "0 \<le> tl_counter l \<Longrightarrow> 0 \<le> tl_counter (ttl_acquire now l)"
  "0 \<le> tl_counter l \<Longrightarrow> 0 \<le> tl_counter (ttl_release l)"
  "0 \<le> tl_counter (ttl_new ttl)"
  by (simp_all add: ttl_acquire_def ttl_release_def ttl_new_def)

lemma ttl_ttl_ms [simp]:
  "tl_ttl_ms (ttl_acquire now l) = tl_ttl_ms l" "tl_ttl_ms (ttl_release l) = tl_ttl_ms l"
  by (simp_all add: ttl_acquire_def ttl_release_def)

lemma ttl_release_expiration [simp]: "tl_expiration_ms (ttl_release l) = tl_expiration_ms l"
  by (simp add: ttl_release_def)

text \<open>A sequence of acquisitions at non-decreasing times, none of them after expiry.\<close>

lemma ttl_acquire_live:
  "now < tl_expiration_ms l \<Longrightarrow> tl_counter (ttl_acquire now l) = tl_counter l + 1"
  "tl_expiration_ms (ttl_acquire now l) = now + tl_ttl_ms l"
  by (auto simp: ttl_acquire_def)

section \<open>lock() step by step\<close>

text \<open>
  The program counter of one thread inside \<open>lock()\<close>, with the locals it has read: before the loads,
  after the load of the expiration, after the load of the counter, after winning the
  compare-and-swap of the expiration (the store of the counter is still to come), after winning the
  one of the counter (the store of the expiration is still to come), and returned.
\<close>

datatype lock_pc =
    Begin
  | Loaded_Expiration int
  | Loaded_Both int int
  | Won_Expiration
  | Won_Counter
  | Returned

text \<open>
  One atomic step of a thread that entered \<open>lock()\<close> at time \<open>t\<close>, on the shared counter and
  expiration. A failed compare-and-swap goes back to the loads.
\<close>

inductive lock_atomic :: "int \<Rightarrow> int \<Rightarrow> lock_pc \<times> int \<times> int \<Rightarrow> lock_pc \<times> int \<times> int \<Rightarrow> bool" for t ttl where
  load_expiration: "lock_atomic t ttl (Begin, c, e) (Loaded_Expiration e, c, e)"
| load_counter: "lock_atomic t ttl (Loaded_Expiration oe, c, e) (Loaded_Both oe c, c, e)"
| cas_expiration: "t \<ge> oe \<Longrightarrow> e = oe \<Longrightarrow> lock_atomic t ttl (Loaded_Both oe oc, c, e) (Won_Expiration, c, t + ttl)"
| cas_expiration_fails: "t \<ge> oe \<Longrightarrow> e \<noteq> oe \<Longrightarrow> lock_atomic t ttl (Loaded_Both oe oc, c, e) (Begin, c, e)"
| store_counter: "lock_atomic t ttl (Won_Expiration, c, e) (Returned, 1, e)"
| cas_counter: "t < oe \<Longrightarrow> c = oc \<Longrightarrow> lock_atomic t ttl (Loaded_Both oe oc, c, e) (Won_Counter, oc + 1, e)"
| cas_counter_fails: "t < oe \<Longrightarrow> c \<noteq> oc \<Longrightarrow> lock_atomic t ttl (Loaded_Both oe oc, c, e) (Begin, c, e)"
| store_expiration: "lock_atomic t ttl (Won_Counter, c, e) (Returned, c, t + ttl)"

inductive_cases lock_atomicE: "lock_atomic t ttl (pc, c, e) s"

text \<open>Several threads: each has its entry time and program counter; one of them steps.\<close>

inductive lock_run ::
  "(nat \<Rightarrow> int) \<Rightarrow> int \<Rightarrow> (nat \<Rightarrow> lock_pc) \<times> int \<times> int \<Rightarrow> (nat \<Rightarrow> lock_pc) \<times> int \<times> int \<Rightarrow> bool"
  for ts ttl s where
  run_refl: "lock_run ts ttl s s"
| run_thread: "lock_run ts ttl s (pcs, c, e) \<Longrightarrow> lock_atomic (ts i) ttl (pcs i, c, e) (pc', c', e') \<Longrightarrow>
     lock_run ts ttl s (pcs(i := pc'), c', e')"

text \<open>What a thread that runs alone has read and done, by its program counter.\<close>

fun solo_state :: "int \<Rightarrow> int \<Rightarrow> int \<Rightarrow> int \<Rightarrow> lock_pc \<times> int \<times> int \<Rightarrow> bool" where
  "solo_state t ttl c0 e0 (Begin, c, e) \<longleftrightarrow> c = c0 \<and> e = e0"
| "solo_state t ttl c0 e0 (Loaded_Expiration oe, c, e) \<longleftrightarrow> c = c0 \<and> e = e0 \<and> oe = e0"
| "solo_state t ttl c0 e0 (Loaded_Both oe oc, c, e) \<longleftrightarrow> c = c0 \<and> e = e0 \<and> oe = e0 \<and> oc = c0"
| "solo_state t ttl c0 e0 (Won_Expiration, c, e) \<longleftrightarrow> t \<ge> e0 \<and> c = c0 \<and> e = t + ttl"
| "solo_state t ttl c0 e0 (Won_Counter, c, e) \<longleftrightarrow> t < e0 \<and> c = c0 + 1 \<and> e = e0"
| "solo_state t ttl c0 e0 (Returned, c, e) \<longleftrightarrow> (if t \<ge> e0 then c = 1 else c = c0 + 1) \<and> e = t + ttl"

lemma solo_state_step:
  "lock_atomic t ttl s s' \<Longrightarrow> solo_state t ttl c0 e0 s \<Longrightarrow> solo_state t ttl c0 e0 s'"
  by (induction rule: lock_atomic.induct) auto

lemma solo_reaches:
  "(lock_atomic t ttl)\<^sup>*\<^sup>* (Begin, c, e) (Returned, if t \<ge> e then 1 else c + 1, t + ttl)"
proof -
  have loaded: "(lock_atomic t ttl)\<^sup>*\<^sup>* (Begin, c, e) (Loaded_Both e c, c, e)"
    by (meson load_counter load_expiration rtranclp.rtrancl_into_rtrancl rtranclp.rtrancl_refl)
  show ?thesis
  proof (cases "t \<ge> e")
    case True
    have "lock_atomic t ttl (Loaded_Both e c, c, e) (Won_Expiration, c, t + ttl)"
      using True by (rule cas_expiration) simp
    with loaded have "(lock_atomic t ttl)\<^sup>*\<^sup>* (Begin, c, e) (Won_Expiration, c, t + ttl)" by simp
    from rtranclp.rtrancl_into_rtrancl[OF this store_counter] True show ?thesis by simp
  next
    case False
    then have "lock_atomic t ttl (Loaded_Both e c, c, e) (Won_Counter, c + 1, e)"
      by (intro cas_counter) auto
    with loaded have "(lock_atomic t ttl)\<^sup>*\<^sup>* (Begin, c, e) (Won_Counter, c + 1, e)" by simp
    from rtranclp.rtrancl_into_rtrancl[OF this store_expiration] False show ?thesis by simp
  qed
qed

text \<open>Threads that never see an expired lock.\<close>

definition counted :: "(nat \<Rightarrow> lock_pc) \<Rightarrow> nat \<Rightarrow> nat set" where
  "counted pcs n = {i. i < n \<and> (pcs i = Won_Counter \<or> pcs i = Returned)}"

fun live_pc :: "int \<Rightarrow> lock_pc \<Rightarrow> bool" where
  "live_pc t (Loaded_Expiration oe) \<longleftrightarrow> t < oe"
| "live_pc t (Loaded_Both oe oc) \<longleftrightarrow> t < oe"
| "live_pc t Won_Expiration \<longleftrightarrow> False"
| "live_pc t pc \<longleftrightarrow> True"

definition race_inv :: "(nat \<Rightarrow> int) \<Rightarrow> nat \<Rightarrow> int \<Rightarrow> (nat \<Rightarrow> lock_pc) \<times> int \<times> int \<Rightarrow> bool" where
  "race_inv ts n c0 s \<longleftrightarrow> (case s of (pcs, c, e) \<Rightarrow>
     c = c0 + int (card (counted pcs n)) \<and> (\<forall>i < n. live_pc (ts i) (pcs i) \<and> ts i < e) \<and>
     (\<forall>i \<ge> n. pcs i = Returned))"

lemma card_counted_insert:
  assumes "i < n" and "pcs i \<noteq> Won_Counter" and "pcs i \<noteq> Returned"
  shows "card (counted (pcs(i := Won_Counter)) n) = Suc (card (counted pcs n))"
proof -
  have "counted (pcs(i := Won_Counter)) n = insert i (counted pcs n)" "i \<notin> counted pcs n" "finite (counted pcs n)"
    using assms by (auto simp: counted_def)
  then show ?thesis by simp
qed

lemma counted_same:
  "(pc' = Won_Counter \<or> pc' = Returned) = (pcs i = Won_Counter \<or> pcs i = Returned) \<Longrightarrow>
     counted (pcs(i := pc')) n = counted pcs n"
  by (auto simp: counted_def)

lemma race_inv_keep:
  assumes "race_inv ts n c0 (pcs, c, e)" and "i < n" and "live_pc (ts i) pc'" and "\<forall>j < n. ts j < e'"
    and "(pc' = Won_Counter \<or> pc' = Returned) = (pcs i = Won_Counter \<or> pcs i = Returned)"
  shows "race_inv ts n c0 (pcs(i := pc'), c, e')"
  using assms(1-4) by (simp add: race_inv_def counted_same[of pc' pcs i, OF assms(5)])

lemma race_inv_step:
  assumes step: "lock_atomic (ts i) ttl (pcs i, c, e) (pc', c', e')" and inv: "race_inv ts n c0 (pcs, c, e)"
    and ttl: "\<forall>i < n. \<forall>j < n. ts i < ts j + ttl"
  shows "race_inv ts n c0 (pcs(i := pc'), c', e')"
proof (cases "i < n")
  case False
  then have "pcs i = Returned" using inv by (simp add: race_inv_def)
  with step have False by (auto elim: lock_atomicE)
  then show ?thesis ..
next
  case True
  have live: "live_pc (ts i) (pcs i)" and e: "\<forall>j < n. ts j < e" and c: "c = c0 + int (card (counted pcs n))"
    and idle: "\<forall>i \<ge> n. pcs i = Returned"
    using inv True by (simp_all add: race_inv_def)
  have e': "\<forall>j < n. ts j < ts i + ttl" using ttl True by blast
  note keep = race_inv_keep[OF inv True]
  from step show ?thesis
  proof (cases rule: lock_atomic.cases)
    case load_expiration
    then show ?thesis using keep[of "Loaded_Expiration e" e] True e by simp
  next
    case (load_counter oe)
    then show ?thesis using keep[of "Loaded_Both oe c" e] live e by simp
  next
    case (cas_expiration oe)
    then show ?thesis using live by simp
  next
    case (cas_expiration_fails oe)
    then show ?thesis using live by simp
  next
    case store_counter
    then show ?thesis using live by simp
  next
    case (cas_counter oe)
    then show ?thesis
      using card_counted_insert[OF True, of pcs] c e idle inv True by (simp add: race_inv_def)
  next
    case (cas_counter_fails oe)
    then show ?thesis using keep[of Begin e] e by simp
  next
    case store_expiration
    then show ?thesis using keep[of Returned "ts i + ttl"] e' by simp
  qed
qed

lemma race_inv_run:
  assumes "lock_run ts ttl s s'" and "race_inv ts n c0 s" and "\<forall>i < n. \<forall>j < n. ts i < ts j + ttl"
  shows "race_inv ts n c0 s'"
  using assms(1)
proof (induction rule: lock_run.induct)
  case run_refl
  show ?case by (rule assms(2))
next
  case (run_thread pcs c e i pc' c' e')
  show ?case by (rule race_inv_step[OF run_thread.hyps(2) run_thread.IH assms(3)])
qed

text \<open>The step of a thread is a function of the state, so a schedule of thread numbers can be run.\<close>

fun lock_next :: "int \<Rightarrow> int \<Rightarrow> lock_pc \<times> int \<times> int \<Rightarrow> lock_pc \<times> int \<times> int" where
  "lock_next t ttl (Begin, c, e) = (Loaded_Expiration e, c, e)"
| "lock_next t ttl (Loaded_Expiration oe, c, e) = (Loaded_Both oe c, c, e)"
| "lock_next t ttl (Loaded_Both oe oc, c, e) =
     (if t \<ge> oe then if e = oe then (Won_Expiration, c, t + ttl) else (Begin, c, e)
      else if c = oc then (Won_Counter, oc + 1, e) else (Begin, c, e))"
| "lock_next t ttl (Won_Expiration, c, e) = (Returned, 1, e)"
| "lock_next t ttl (Won_Counter, c, e) = (Returned, c, t + ttl)"
| "lock_next t ttl (Returned, c, e) = (Returned, c, e)"

lemma lock_next_atomic: "fst s \<noteq> Returned \<Longrightarrow> lock_atomic t ttl s (lock_next t ttl s)"
proof (induction t ttl s rule: lock_next.induct)
  case (3 t ttl oe oc c e)
  show ?case by (cases "t \<ge> oe") (auto intro: lock_atomic.intros)
qed (auto intro: lock_atomic.intros)

fun lock_sched ::
  "(nat \<Rightarrow> int) \<Rightarrow> int \<Rightarrow> nat list \<Rightarrow> (nat \<Rightarrow> lock_pc) \<times> int \<times> int \<Rightarrow> (nat \<Rightarrow> lock_pc) \<times> int \<times> int" where
  "lock_sched ts ttl [] s = s"
| "lock_sched ts ttl (i # is) (pcs, c, e) =
     (case lock_next (ts i) ttl (pcs i, c, e) of (pc', c', e') \<Rightarrow> lock_sched ts ttl is (pcs(i := pc'), c', e'))"

lemma lock_sched_run: "lock_run ts ttl s0 s \<Longrightarrow> lock_run ts ttl s0 (lock_sched ts ttl is s)"
proof (induction ts ttl "is" s rule: lock_sched.induct)
  case (2 ts ttl i "is" pcs c e)
  obtain pc' c' e' where n: "lock_next (ts i) ttl (pcs i, c, e) = (pc', c', e')" by (metis prod_cases3)
  have "lock_run ts ttl s0 (pcs(i := pc'), c', e')"
  proof (cases "pcs i = Returned")
    case True
    with n have "pcs(i := pc') = pcs" "c' = c" "e' = e" by auto
    with "2.prems" show ?thesis by simp
  next
    case False
    with n lock_next_atomic[of "(pcs i, c, e)" "ts i" ttl] run_thread[OF "2.prems"] show ?thesis by simp
  qed
  with 2(1)[OF n[symmetric] refl] n show ?case by simp
qed simp

text \<open>How many steps a thread that runs alone has done, by its program counter.\<close>

fun lock_rank :: "lock_pc \<Rightarrow> nat" where
  "lock_rank Begin = 0"
| "lock_rank (Loaded_Expiration oe) = 1"
| "lock_rank (Loaded_Both oe oc) = 2"
| "lock_rank Won_Expiration = 3"
| "lock_rank Won_Counter = 3"
| "lock_rank Returned = 4"

lemma lock_rank_le: "lock_rank pc \<le> 4" and lock_rank_4: "lock_rank pc = 4 \<longleftrightarrow> pc = Returned"
  by (cases pc; simp)+

lemma lock_rank_step:
  "lock_atomic t ttl s s' \<Longrightarrow> solo_state t ttl c0 e0 s \<Longrightarrow> lock_rank (fst s') = Suc (lock_rank (fst s))"
  by (induction rule: lock_atomic.induct) auto

lemma solo_run:
  "(lock_atomic t ttl ^^ n) (Begin, c, e) s \<Longrightarrow> solo_state t ttl c e s \<and> lock_rank (fst s) = n"
proof (induction n arbitrary: s)
  case (Suc n)
  from Suc.prems obtain u where u: "(lock_atomic t ttl ^^ n) (Begin, c, e) u" "lock_atomic t ttl u s"
    by (rule relpowp_Suc_E)
  show ?case using Suc.IH[OF u(1)] solo_state_step[OF u(2)] lock_rank_step[OF u(2)] by metis
qed simp

section \<open>Properties\<close>

text \<open>
  C30: a thread that runs \<open>TTLLock::lock()\<close> alone, with its loads, compare-and-swaps and stores,
  always returns: no run of it is longer than four steps, it has returned after exactly four, and
  before that there is always a next step. It returns with exactly the effect of the sequential
  lock: a reset to one when the previous lock had expired, an increment otherwise, and a refreshed
  expiration in both cases.
\<close>

theorem ttl_lock_solo_refines:
  fixes l :: ttl_lock and t :: int
  defines "run \<equiv> \<lambda>n. (lock_atomic t (tl_ttl_ms l) ^^ n) (Begin, tl_counter l, tl_expiration_ms l)"
  shows "(\<exists>s. run 4 s) \<and>
    (\<forall>n s. run n s \<longrightarrow> n \<le> 4 \<and>
       (if n = 4 then s = (Returned, tl_counter (ttl_acquire t l), tl_expiration_ms (ttl_acquire t l))
        else fst s \<noteq> Returned \<and> (\<exists>s'. lock_atomic t (tl_ttl_ms l) s s')))"
proof (intro conjI allI impI)
  fix n s assume r: "run n s"
  have so: "solo_state t (tl_ttl_ms l) (tl_counter l) (tl_expiration_ms l) s" and n: "lock_rank (fst s) = n"
    using solo_run[OF r[unfolded run_def]] by simp_all
  show "n \<le> 4" using lock_rank_le[of "fst s"] n by simp
  show "if n = 4 then s = (Returned, tl_counter (ttl_acquire t l), tl_expiration_ms (ttl_acquire t l))
      else fst s \<noteq> Returned \<and> (\<exists>s'. lock_atomic t (tl_ttl_ms l) s s')"
  proof (cases "fst s = Returned")
    case True
    with so n show ?thesis by (cases s) (auto simp: ttl_acquire_def)
  next
    case False
    with lock_next_atomic[OF False, of t "tl_ttl_ms l"] lock_rank_4[of "fst s"] n show ?thesis by metis
  qed
next
  obtain n where "run n (Returned, if t \<ge> tl_expiration_ms l then 1 else tl_counter l + 1, t + tl_ttl_ms l)"
    using solo_reaches unfolding run_def rtranclp_power by blast
  moreover from solo_run[OF this[unfolded run_def]] have "n = 4" by simp
  ultimately show "\<exists>s. run 4 s" by blast
qed

theorem ttl_lock_solo_refines_witness:
  "(lock_atomic 100 50 ^^ 4) (Begin, 7, 90) (Returned, 1, 150)"
proof -
  let ?l = "\<lparr>tl_counter = 7, tl_expiration_ms = 90, tl_ttl_ms = 50\<rparr>"
  have "ttl_acquire 100 ?l = \<lparr>tl_counter = 1, tl_expiration_ms = 150, tl_ttl_ms = 50\<rparr>"
    by (simp add: ttl_acquire_def)
  note P = ttl_lock_solo_refines[of 100 ?l, unfolded this ttl_lock.simps]
  then obtain s where s: "(lock_atomic 100 50 ^^ 4) (Begin, 7, 90) s" by blast
  moreover have "s = (Returned, 1, 150)" using P[THEN conjunct2, rule_format, OF s] by simp
  ultimately show ?thesis by simp
qed

text \<open>
  C32: while the lock is live, concurrent \<open>lock()\<close> calls lose no increment: with every entry time
  before the current expiration and a time to live that covers the spread of the entry times, any
  interleaving of the threads leaves the counter raised by the number of threads that have returned
  or are about to, whatever compare-and-swaps fail on the way.
\<close>

theorem ttl_lock_live_counts:
  assumes "lock_run ts ttl (\<lambda>i. if i < n then Begin else Returned, c, e) (pcs, c', e')"
    and "\<forall>i < n. ts i < e" and "\<forall>i < n. \<forall>j < n. ts i < ts j + ttl" and "\<forall>i < n. pcs i = Returned"
  shows "c' = c + int n"
proof -
  have "race_inv ts n c (\<lambda>i. if i < n then Begin else Returned, c, e)"
    using assms(2) by (auto simp: race_inv_def counted_def)
  from race_inv_run[OF assms(1) this assms(3)]
  have "c' = c + int (card (counted pcs n))" by (simp add: race_inv_def)
  moreover have "counted pcs n = {..< n}" using assms(4) by (auto simp: counted_def)
  ultimately show ?thesis by simp
qed

theorem ttl_lock_live_counts_witness:
  "\<exists>pcs e'. lock_run (\<lambda>_. 100) 50 (\<lambda>i. if i < 2 then Begin else Returned, 3, 120) (pcs, 5, e') \<and>
     (\<forall>i < 2. pcs i = Returned)"
proof -
  let ?s0 = "(\<lambda>i::nat. if i < 2 then Begin else Returned, 3::int, 120::int)"
  obtain pcs c' e' where f: "lock_sched (\<lambda>_. 100) 50 [0, 0, 1, 1, 0, 1, 1, 1, 0, 1, 1] ?s0 = (pcs, c', e')"
    by (metis prod_cases3)
  have "pcs 0 = Returned" "pcs 1 = Returned" using f by auto
  then have ret: "\<forall>i < 2. pcs i = Returned" by (auto simp: less_2_cases_iff)
  have run: "lock_run (\<lambda>_. 100) 50 ?s0 (pcs, c', e')"
    using lock_sched_run[OF run_refl] f by metis
  have "c' = 3 + int 2" by (rule ttl_lock_live_counts[OF run _ _ ret]) auto
  with run ret show ?thesis by (intro exI[of _ pcs] exI[of _ e']) simp
qed

text \<open>
  C33: on any expired or fresh lock, whatever count it was left with, two overlapping \<open>lock()\<close> calls
  can count as one. The first thread swaps in the new expiration, the other, entering before that
  expiration, sees a live lock and increments the stale counter, and the first thread's pending
  store of one overwrites the increment. One after the other the two calls would have counted two;
  here both have returned, yet a single \<open>unlock()\<close> leaves the lock free at every time while the
  second holder still relies on it.
\<close>

theorem ttl_lock_lost_acquisition:
  assumes "tl_expiration_ms l \<le> ts 0" and "ts 1 < ts 0 + tl_ttl_ms l"
  shows "tl_counter (ttl_acquire (ts 1) (ttl_acquire (ts 0) l)) = 2 \<and>
    (\<exists>pcs e'. lock_run ts (tl_ttl_ms l)
        (\<lambda>i. if i < 2 then Begin else Returned, tl_counter l, tl_expiration_ms l) (pcs, 1, e') \<and>
      pcs 0 = Returned \<and> pcs 1 = Returned \<and>
      (\<forall>now. \<not> ttl_is_locked now (ttl_release (l\<lparr>tl_counter := 1, tl_expiration_ms := e'\<rparr>))))"
proof -
  let ?s0 = "(\<lambda>i::nat. if i < 2 then Begin else Returned, tl_counter l, tl_expiration_ms l)"
  obtain pcs c' e' where f: "lock_sched ts (tl_ttl_ms l) [0, 0, 0, 1, 1, 1, 1, 0] ?s0 = (pcs, c', e')"
    by (metis prod_cases3)
  then have "pcs 0 = Returned" "pcs 1 = Returned" "c' = 1" using assms by auto
  moreover have "lock_run ts (tl_ttl_ms l) ?s0 (pcs, c', e')"
    using lock_sched_run[OF run_refl] f by metis
  moreover have "tl_counter (ttl_acquire (ts 1) (ttl_acquire (ts 0) l)) = 2"
    using assms by (simp add: ttl_acquire_def)
  ultimately show ?thesis
    by (intro conjI exI[of _ pcs] exI[of _ e']) (simp_all add: ttl_is_locked_def ttl_release_def)
qed

theorem ttl_lock_lost_acquisition_witness:
  "\<exists>pcs e'. lock_run (\<lambda>i. if i = 0 then 100 else 120) 50
     (\<lambda>i. if i < 2 then Begin else Returned, 3, 90) (pcs, 1, e') \<and> pcs 0 = Returned \<and> pcs 1 = Returned"
  using ttl_lock_lost_acquisition[of "\<lparr>tl_counter = 3, tl_expiration_ms = 90, tl_ttl_ms = 50\<rparr>"
      "\<lambda>i. if i = 0 then 100 else 120"]
  by auto

end
