(* ===== verification/L1_Manager.thy ===== *)
theory L1_Manager
  imports Memory_Interface TTL_Lock
begin

text \<open>
  The object lifecycle of an L1 cache: \<open>BaseL1Manager\<close> of
  \<open>lmcache/v1/distributed/l1_manager/base.py\<close>. The state holds the resident objects, the staging
  objects per key and writer tag, the staging byte counter and the memory manager's state; the
  operations of the memory manager are an argument, because every medium brings its own. Methods
  run under the manager's mutex, so each is one function. The steady clock is a sequence of
  readings: every call of a lock method that looks at the clock takes the next one. What the
  registered listeners are told and what is published on the event bus is collected, in order, in
  a trace.
\<close>

section \<open>State\<close>

record l1_object_state =
  os_memory_obj :: nat
  os_write_lock :: ttl_lock
  os_read_lock :: ttl_lock
  os_is_temporary :: bool
  os_staging_charge :: int

datatype 'k l1_output =
    On_reserved_read "'k list"
  | On_read_finished "'k list"
  | On_reserved_write "'k list"
  | On_write_finished "'k list"
  | On_finish_write_and_reserve_read "'k list"
  | On_deleted_by_manager "'k list"
  | On_accessed "'k list"
  | L1_READ_RESERVED "'k list"
  | L1_READ_FINISHED "'k list"
  | L1_WRITE_RESERVED "'k list" string
  | L1_WRITE_FINISHED "'k list" "int list"
  | L1_WRITE_FINISHED_AND_READ_RESERVED "'k list" "int list"
  | L1_KEYS_EVICTED "'k list" "int list"
  | L1_KEYS_ACCESSED "'k list"

record ('k, 'm) l1_manager =
  l1_mem :: 'm
  l1_objects :: "('k, l1_object_state) dict"
  l1_staging :: "('k, (string, l1_object_state) dict) dict"
  l1_staging_bytes :: int
  l1_manager_id :: int
  l1_write_ttl_seconds :: int
  l1_read_ttl_seconds :: int
  l1_clock :: "nat \<Rightarrow> int"
  l1_ticks :: nat
  l1_trace :: "'k l1_output list"

definition l1_init :: "'m \<Rightarrow> int \<Rightarrow> int \<Rightarrow> int \<Rightarrow> (nat \<Rightarrow> int) \<Rightarrow> ('k, 'm) l1_manager" where
  "l1_init mem manager_id write_ttl read_ttl clock =
     \<lparr>l1_mem = mem, l1_objects = [], l1_staging = [], l1_staging_bytes = 0, l1_manager_id = manager_id,
      l1_write_ttl_seconds = write_ttl, l1_read_ttl_seconds = read_ttl, l1_clock = clock, l1_ticks = 0,
      l1_trace = []\<rparr>"

type_synonym op_result = "l1_error \<times> nat option"

section \<open>Locks, reports and memory\<close>

definition MAX_READ_LOCK_COUNT :: int where
  "MAX_READ_LOCK_COUNT = 128"

definition validate_read_locks :: "int \<Rightarrow> int" where
  "validate_read_locks read_locks =
     (if read_locks < 1 then 1
      else if read_locks > MAX_READ_LOCK_COUNT then MAX_READ_LOCK_COUNT
      else read_locks)"

definition tick :: "('k, 'm) l1_manager \<Rightarrow> int \<times> ('k, 'm) l1_manager" where
  "tick st = (l1_clock st (l1_ticks st), st\<lparr>l1_ticks := Suc (l1_ticks st)\<rparr>)"

definition check_lock :: "ttl_lock \<Rightarrow> ('k, 'm) l1_manager \<Rightarrow> bool \<times> ('k, 'm) l1_manager" where
  "check_lock lk st = (let (now, st') = tick st in (ttl_is_locked now lk, st'))"

fun lock_times :: "nat \<Rightarrow> ttl_lock \<Rightarrow> ('k, 'm) l1_manager \<Rightarrow> ttl_lock \<times> ('k, 'm) l1_manager" where
  "lock_times 0 lk st = (lk, st)"
| "lock_times (Suc n) lk st = (let (now, st') = tick st in lock_times n (ttl_acquire now lk) st')"

fun unlock_times :: "nat \<Rightarrow> ttl_lock \<Rightarrow> ttl_lock" where
  "unlock_times 0 lk = lk"
| "unlock_times (Suc n) lk = unlock_times n (ttl_release lk)"

definition report :: "'k l1_output list \<Rightarrow> ('k, 'm) l1_manager \<Rightarrow> ('k, 'm) l1_manager" where
  "report os st = st\<lparr>l1_trace := l1_trace st @ os\<rparr>"

definition mem_free :: "'m mem_ops \<Rightarrow> nat list \<Rightarrow> ('k, 'm) l1_manager \<Rightarrow> ('k, 'm) l1_manager result" where
  "mem_free ops objs st =
     (case mm_free ops (l1_mem st) objs of
        Inl e \<Rightarrow> Inl e
      | Inr (_, m) \<Rightarrow> Inr (st\<lparr>l1_mem := m\<rparr>))"

definition object_meta :: "'m mem_ops \<Rightarrow> ('k, 'm) l1_manager \<Rightarrow> nat \<Rightarrow> int" where
  "object_meta ops st obj = mm_get_size ops (l1_mem st) obj"

definition report_read_reserved :: "'k list \<Rightarrow> ('k, 'm) l1_manager \<Rightarrow> ('k, 'm) l1_manager" where
  "report_read_reserved keys st = report [On_reserved_read keys, L1_READ_RESERVED keys] st"

definition report_staging_gone :: "'k list \<Rightarrow> ('k, 'm) l1_manager \<Rightarrow> ('k, 'm) l1_manager" where
  "report_staging_gone keys st = (if keys = [] then st else report [On_deleted_by_manager keys] st)"

definition free_and_report_deleted ::
  "'m mem_ops \<Rightarrow> 'k list \<Rightarrow> nat list \<Rightarrow> ('k, 'm) l1_manager \<Rightarrow> ('k, 'm) l1_manager result" where
  "free_and_report_deleted ops keys objs st =
     (let freed_meta = map (object_meta ops st) objs in
      case mem_free ops objs st of
        Inl e \<Rightarrow> Inl e
      | Inr st' \<Rightarrow> Inr (report [On_deleted_by_manager keys, L1_KEYS_EVICTED keys freed_meta] st'))"

section \<open>Staging table\<close>

definition get_staging :: "('k, 'm) l1_manager \<Rightarrow> 'k \<Rightarrow> string \<Rightarrow> l1_object_state option" where
  "get_staging st key tag =
     (case map_of (l1_staging st) key of None \<Rightarrow> None | Some per_tag \<Rightarrow> map_of per_tag tag)"

text \<open>Writing back an entry that the code mutates in place.\<close>

definition set_staging :: "'k \<Rightarrow> string \<Rightarrow> l1_object_state \<Rightarrow> ('k, 'm) l1_manager \<Rightarrow> ('k, 'm) l1_manager" where
  "set_staging key tag entry st =
     (let per_tag = (case map_of (l1_staging st) key of None \<Rightarrow> [] | Some d \<Rightarrow> d)
      in st\<lparr>l1_staging := AList.update key (AList.update tag entry per_tag) (l1_staging st)\<rparr>)"

definition put_staging ::
  "'m mem_ops \<Rightarrow> 'k \<Rightarrow> string \<Rightarrow> l1_object_state \<Rightarrow> ('k, 'm) l1_manager \<Rightarrow> ('k, 'm) l1_manager" where
  "put_staging ops key tag entry st =
     (let charge = mm_get_size ops (l1_mem st) (os_memory_obj entry);
          st' = set_staging key tag (entry\<lparr>os_staging_charge := charge\<rparr>) st
      in st'\<lparr>l1_staging_bytes := l1_staging_bytes st' + charge\<rparr>)"

definition pop_staging ::
  "'k \<Rightarrow> string \<Rightarrow> ('k, 'm) l1_manager \<Rightarrow> (l1_object_state \<times> ('k, 'm) l1_manager) result" where
  "pop_staging key tag st =
     (case map_of (l1_staging st) key of
        None \<Rightarrow> Inl KeyError
      | Some per_tag \<Rightarrow>
          (case map_of per_tag tag of
             None \<Rightarrow> Inl KeyError
           | Some entry \<Rightarrow>
               let per_tag' = AList.delete tag per_tag;
                   staging = (if per_tag' = [] then AList.delete key (l1_staging st)
                              else AList.update key per_tag' (l1_staging st))
               in Inr (entry\<lparr>os_staging_charge := 0\<rparr>,
                       st\<lparr>l1_staging := staging, l1_staging_bytes := l1_staging_bytes st - os_staging_charge entry\<rparr>)))"

definition take_staging ::
  "'k \<Rightarrow> string \<Rightarrow> ('k, 'm) l1_manager \<Rightarrow> ((l1_error \<times> l1_object_state option) \<times> ('k, 'm) l1_manager) result" where
  "take_staging key tag st =
     (case get_staging st key tag of
        None \<Rightarrow> Inr ((KEY_NOT_EXIST, None), st)
      | Some staged \<Rightarrow>
          let (locked, st1) = check_lock (os_write_lock staged) st in
          if \<not> locked then Inr ((KEY_IN_WRONG_STATE, None), st1)
          else let st2 = set_staging key tag (staged\<lparr>os_write_lock := ttl_release (os_write_lock staged)\<rparr>) st1 in
            (case pop_staging key tag st2 of
               Inl e \<Rightarrow> Inl e
             | Inr (entry, st3) \<Rightarrow> Inr ((SUCCESS, Some entry), st3)))"

fun reclaim_loop ::
  "'k \<Rightarrow> bool \<Rightarrow> (string, l1_object_state) dict \<Rightarrow> nat list \<Rightarrow> ('k, 'm) l1_manager
     \<Rightarrow> (nat list \<times> ('k, 'm) l1_manager) result" where
  "reclaim_loop key force [] freed st = Inr (freed, st)"
| "reclaim_loop key force ((tag, staged) # items) freed st =
     (let (locked, st1) = check_lock (os_write_lock staged) st in
      if locked \<and> \<not> force then reclaim_loop key force items freed st1
      else (case pop_staging key tag st1 of
              Inl e \<Rightarrow> Inl e
            | Inr (entry, st2) \<Rightarrow> reclaim_loop key force items (freed @ [os_memory_obj entry]) st2))"

definition reclaim_staging ::
  "'m mem_ops \<Rightarrow> 'k \<Rightarrow> bool \<Rightarrow> ('k, 'm) l1_manager \<Rightarrow> (nat \<times> ('k, 'm) l1_manager) result" where
  "reclaim_staging ops key force st =
     (case map_of (l1_staging st) key of
        None \<Rightarrow> Inr (0, st)
      | Some per_tag \<Rightarrow>
          (case reclaim_loop key force per_tag [] st of
             Inl e \<Rightarrow> Inl e
           | Inr (freed, st1) \<Rightarrow>
               (case mem_free ops freed st1 of
                  Inl e \<Rightarrow> Inl e
                | Inr st2 \<Rightarrow> Inr (length freed, st2))))"

section \<open>Reading\<close>

fun reserve_read_loop ::
  "nat \<Rightarrow> 'k list \<Rightarrow> ('k, op_result) dict \<Rightarrow> 'k list \<Rightarrow> ('k, 'm) l1_manager
     \<Rightarrow> ('k, op_result) dict \<times> 'k list \<times> ('k, 'm) l1_manager" where
  "reserve_read_loop n_locks [] ret successful_keys st = (ret, successful_keys, st)"
| "reserve_read_loop n_locks (key # keys) ret successful_keys st =
     (case map_of (l1_objects st) key of
        None \<Rightarrow> reserve_read_loop n_locks keys (AList.update key (KEY_NOT_EXIST, None) ret) successful_keys st
      | Some entry \<Rightarrow>
          let (lk, st1) = lock_times n_locks (os_read_lock entry) st;
              st2 = st1\<lparr>l1_objects := AList.update key (entry\<lparr>os_read_lock := lk\<rparr>) (l1_objects st1)\<rparr>
          in reserve_read_loop n_locks keys (AList.update key (SUCCESS, Some (os_memory_obj entry)) ret)
               (successful_keys @ [key]) st2)"

definition reserve_read ::
  "'k list \<Rightarrow> int \<Rightarrow> ('k, 'm) l1_manager \<Rightarrow> ('k, op_result) dict \<times> ('k, 'm) l1_manager" where
  "reserve_read keys read_locks st =
     (let (ret, successful_keys, st1) =
            reserve_read_loop (nat (validate_read_locks read_locks)) keys [] [] st
      in (ret, report_read_reserved successful_keys st1))"

fun unsafe_read_loop ::
  "'k list \<Rightarrow> ('k, op_result) dict \<Rightarrow> ('k, 'm) l1_manager \<Rightarrow> ('k, op_result) dict \<times> ('k, 'm) l1_manager" where
  "unsafe_read_loop [] ret st = (ret, st)"
| "unsafe_read_loop (key # keys) ret st =
     (case map_of (l1_objects st) key of
        None \<Rightarrow> unsafe_read_loop keys (AList.update key (KEY_NOT_EXIST, None) ret) st
      | Some entry \<Rightarrow>
          let (locked, st1) = check_lock (os_read_lock entry) st in
          if \<not> locked then unsafe_read_loop keys (AList.update key (KEY_NOT_READABLE, None) ret) st1
          else unsafe_read_loop keys (AList.update key (SUCCESS, Some (os_memory_obj entry)) ret) st1)"

definition unsafe_read ::
  "'k list \<Rightarrow> ('k, 'm) l1_manager \<Rightarrow> ('k, op_result) dict \<times> ('k, 'm) l1_manager" where
  "unsafe_read keys st = unsafe_read_loop keys [] st"

text \<open>The locals of \<open>finish_read\<close>.\<close>

record 'k finish_acc =
  fa_ret :: "('k, l1_error) dict"
  fa_successful_keys :: "'k list"
  fa_need_to_free :: "nat list"
  fa_need_to_free_keys :: "'k list"

fun finish_read_loop ::
  "nat \<Rightarrow> 'k list \<Rightarrow> 'k finish_acc \<Rightarrow> ('k, 'm) l1_manager \<Rightarrow> 'k finish_acc \<times> ('k, 'm) l1_manager" where
  "finish_read_loop n_locks [] fa st = (fa, st)"
| "finish_read_loop n_locks (key # keys) fa st =
     (case map_of (l1_objects st) key of
        None \<Rightarrow> finish_read_loop n_locks keys (fa\<lparr>fa_ret := AList.update key KEY_NOT_EXIST (fa_ret fa)\<rparr>) st
      | Some entry \<Rightarrow>
          let (locked, st1) = check_lock (os_read_lock entry) st in
          if \<not> locked
          then finish_read_loop n_locks keys (fa\<lparr>fa_ret := AList.update key KEY_IN_WRONG_STATE (fa_ret fa)\<rparr>) st1
          else
            let lk = unlock_times n_locks (os_read_lock entry);
                st2 = st1\<lparr>l1_objects := AList.update key (entry\<lparr>os_read_lock := lk\<rparr>) (l1_objects st1)\<rparr>;
                (still_locked, st3) = (if os_is_temporary entry then check_lock lk st2 else (True, st2));
                fa1 = fa\<lparr>fa_ret := AList.update key SUCCESS (fa_ret fa),
                         fa_successful_keys := fa_successful_keys fa @ [key]\<rparr>
            in if os_is_temporary entry \<and> \<not> still_locked
               then finish_read_loop n_locks keys
                      (fa1\<lparr>fa_need_to_free := fa_need_to_free fa1 @ [os_memory_obj entry],
                           fa_need_to_free_keys := fa_need_to_free_keys fa1 @ [key]\<rparr>)
                      (st3\<lparr>l1_objects := AList.delete key (l1_objects st3)\<rparr>)
               else finish_read_loop n_locks keys fa1 st3)"

definition finish_read ::
  "'m mem_ops \<Rightarrow> 'k list \<Rightarrow> int \<Rightarrow> ('k, 'm) l1_manager \<Rightarrow> (('k, l1_error) dict \<times> ('k, 'm) l1_manager) result" where
  "finish_read ops keys read_locks st =
     (let (fa, st1) = finish_read_loop (nat (validate_read_locks read_locks)) keys
            \<lparr>fa_ret = [], fa_successful_keys = [], fa_need_to_free = [], fa_need_to_free_keys = []\<rparr> st;
          freed_meta = map (object_meta ops st1) (fa_need_to_free fa)
      in case mem_free ops (fa_need_to_free fa) st1 of
           Inl e \<Rightarrow> Inl e
         | Inr st2 \<Rightarrow>
             Inr (fa_ret fa, report [On_read_finished (fa_successful_keys fa),
               On_deleted_by_manager (fa_need_to_free_keys fa), L1_READ_FINISHED (fa_successful_keys fa),
               L1_KEYS_EVICTED (fa_need_to_free_keys fa) freed_meta] st2))"

section \<open>Writing\<close>

fun reserve_write_scan ::
  "string \<Rightarrow> ('k \<times> bool) list \<Rightarrow> ('k, op_result) dict \<Rightarrow> 'k list \<Rightarrow> ('k \<times> bool) list \<Rightarrow> ('k, 'm) l1_manager
     \<Rightarrow> ('k, op_result) dict \<times> 'k list \<times> ('k \<times> bool) list \<times> ('k, 'm) l1_manager" where
  "reserve_write_scan tag [] ret succ need st = (ret, succ, need, st)"
| "reserve_write_scan tag ((key, is_temp) # items) ret succ need st =
     (if map_of (l1_objects st) key \<noteq> None
      then reserve_write_scan tag items (AList.update key (KEY_NOT_WRITABLE, None) ret) succ need st
      else (case get_staging st key tag of
         None \<Rightarrow> reserve_write_scan tag items ret succ (need @ [(key, is_temp)]) st
       | Some staged \<Rightarrow>
           let (locked, st1) = check_lock (os_write_lock staged) st in
           if locked
           then reserve_write_scan tag items (AList.update key (KEY_NOT_WRITABLE, None) ret) succ need st1
           else let (now, st2) = tick st1;
                    st3 = set_staging key tag (staged\<lparr>os_write_lock := ttl_acquire now (os_write_lock staged),
                                                     os_is_temporary := is_temp\<rparr>) st2
                in reserve_write_scan tag items
                     (AList.update key (SUCCESS, Some (os_memory_obj staged)) ret) (succ @ [key]) need st3))"

fun reserve_write_stage ::
  "'m mem_ops \<Rightarrow> string \<Rightarrow> (('k \<times> bool) \<times> nat) list \<Rightarrow> ('k, op_result) dict \<Rightarrow> 'k list \<Rightarrow> ('k, 'm) l1_manager
     \<Rightarrow> (('k, op_result) dict \<times> 'k list \<times> ('k, 'm) l1_manager) result" where
  "reserve_write_stage ops tag [] ret succ st = Inr (ret, succ, st)"
| "reserve_write_stage ops tag (((key, is_temp), mem_obj) # items) ret succ st =
     (case mm_set_l1_manager ops (l1_mem st) mem_obj (l1_manager_id st) of
        Inl e \<Rightarrow> Inl e
      | Inr m \<Rightarrow>
          let (now, st1) = tick (st\<lparr>l1_mem := m\<rparr>);
              entry = \<lparr>os_memory_obj = mem_obj,
                       os_write_lock = ttl_acquire now (ttl_new (l1_write_ttl_seconds st)),
                       os_read_lock = ttl_new (l1_read_ttl_seconds st),
                       os_is_temporary = is_temp, os_staging_charge = 0\<rparr>
          in reserve_write_stage ops tag items (AList.update key (SUCCESS, Some mem_obj) ret) (succ @ [key])
               (put_staging ops key tag entry st1))"

definition reserve_write ::
  "'m mem_ops \<Rightarrow> 'k list \<Rightarrow> bool list \<Rightarrow> memory_layout_desc \<Rightarrow> string \<Rightarrow> ('k, 'm) l1_manager
     \<Rightarrow> (('k, op_result) dict \<times> ('k, 'm) l1_manager) result" where
  "reserve_write ops keys is_temporary layout tag st =
     (if length keys \<noteq> length is_temporary then Inl ValueError
      else let (ret, succ, need, st1) = reserve_write_scan tag (zip keys is_temporary) [] [] [] st in
        if need = [] then Inr (ret, st1)
        else (case mm_allocate ops (l1_mem st1) layout (int (length need)) of
           Inl e \<Rightarrow> Inl e
         | Inr ((err, objs), m) \<Rightarrow>
             let st2 = st1\<lparr>l1_mem := m\<rparr>;
                 staged =
                   (if err \<noteq> SUCCESS
                    then let ret' = fold (\<lambda>(key, _) r. AList.update key (OUT_OF_MEMORY, None) r) need ret in
                      (if objs = [] then Inr (ret', succ, st2)
                       else (case mem_free ops objs st2 of Inl e \<Rightarrow> Inl e | Inr st3 \<Rightarrow> Inr (ret', succ, st3)))
                    else if length need \<noteq> length objs
                    then (case reserve_write_stage ops tag (zip need objs) ret succ st2 of
                            Inl e \<Rightarrow> Inl e | Inr _ \<Rightarrow> Inl ValueError)
                    else reserve_write_stage ops tag (zip need objs) ret succ st2)
             in (case staged of
                   Inl e \<Rightarrow> Inl e
                 | Inr (ret2, succ2, st4) \<Rightarrow>
                     Inr (ret2, report [On_reserved_write succ2, L1_WRITE_RESERVED succ2 tag] st4))))"

text \<open>The locals of the methods that take staging objects.\<close>

record 'k write_acc =
  wa_ret :: "('k, op_result) dict"
  wa_keys :: "'k list"
  wa_meta :: "int list"
  wa_discarded :: "nat list"
  wa_other_keys :: "'k list"

definition wa_empty :: "'k write_acc" where
  "wa_empty = \<lparr>wa_ret = [], wa_keys = [], wa_meta = [], wa_discarded = [], wa_other_keys = []\<rparr>"

fun finish_write_loop ::
  "'m mem_ops \<Rightarrow> string \<Rightarrow> 'k list \<Rightarrow> 'k write_acc \<Rightarrow> ('k, 'm) l1_manager \<Rightarrow> ('k write_acc \<times> ('k, 'm) l1_manager) result" where
  "finish_write_loop ops tag [] wa st = Inr (wa, st)"
| "finish_write_loop ops tag (key # keys) wa st =
     (case take_staging key tag st of
        Inl e \<Rightarrow> Inl e
      | Inr ((err, taken), st1) \<Rightarrow>
          let wa1 = wa\<lparr>wa_ret := AList.update key (err, None) (wa_ret wa)\<rparr> in
          (case taken of
             None \<Rightarrow> finish_write_loop ops tag keys wa1 st1
           | Some entry \<Rightarrow>
               if map_of (l1_objects st1) key \<noteq> None
               then finish_write_loop ops tag keys
                      (wa1\<lparr>wa_discarded := wa_discarded wa1 @ [os_memory_obj entry]\<rparr>) st1
               else let st2 = st1\<lparr>l1_objects := AList.update key entry (l1_objects st1)\<rparr> in
                 finish_write_loop ops tag keys
                   (if os_is_temporary entry then wa1
                    else wa1\<lparr>wa_keys := wa_keys wa1 @ [key],
                             wa_meta := wa_meta wa1 @ [object_meta ops st2 (os_memory_obj entry)]\<rparr>) st2))"

definition finish_write ::
  "'m mem_ops \<Rightarrow> 'k list \<Rightarrow> string \<Rightarrow> ('k, 'm) l1_manager \<Rightarrow> (('k, l1_error) dict \<times> ('k, 'm) l1_manager) result" where
  "finish_write ops keys tag st =
     (case finish_write_loop ops tag keys wa_empty st of
        Inl e \<Rightarrow> Inl e
      | Inr (wa, st1) \<Rightarrow>
          (case mem_free ops (wa_discarded wa) st1 of
             Inl e \<Rightarrow> Inl e
           | Inr st2 \<Rightarrow>
               Inr (map (map_prod id fst) (wa_ret wa),
                    if wa_keys wa = [] then st2
                    else report [On_write_finished (wa_keys wa), L1_WRITE_FINISHED (wa_keys wa) (wa_meta wa)] st2)))"

fun finish_write_and_reserve_read_loop ::
  "'m mem_ops \<Rightarrow> nat \<Rightarrow> string \<Rightarrow> 'k list \<Rightarrow> 'k write_acc \<Rightarrow> ('k, 'm) l1_manager
     \<Rightarrow> ('k write_acc \<times> ('k, 'm) l1_manager) result" where
  "finish_write_and_reserve_read_loop ops n_locks tag [] wa st = Inr (wa, st)"
| "finish_write_and_reserve_read_loop ops n_locks tag (key # keys) wa st =
     (case take_staging key tag st of
        Inl e \<Rightarrow> Inl e
      | Inr ((err, taken), st1) \<Rightarrow>
          (case taken of
             None \<Rightarrow> finish_write_and_reserve_read_loop ops n_locks tag keys
                       (wa\<lparr>wa_ret := AList.update key (err, None) (wa_ret wa)\<rparr>) st1
           | Some entry \<Rightarrow>
               let (final, wa1) =
                     (case map_of (l1_objects st1) key of
                        None \<Rightarrow> (entry, wa\<lparr>wa_keys := wa_keys wa @ [key],
                                           wa_meta := wa_meta wa @ [object_meta ops st1 (os_memory_obj entry)]\<rparr>)
                      | Some resident \<Rightarrow> (resident, wa\<lparr>wa_discarded := wa_discarded wa @ [os_memory_obj entry],
                                                         wa_other_keys := wa_other_keys wa @ [key]\<rparr>));
                   (lk, st2) = lock_times n_locks (os_read_lock final) st1;
                   st3 = st2\<lparr>l1_objects := AList.update key (final\<lparr>os_read_lock := lk\<rparr>) (l1_objects st2)\<rparr>
               in finish_write_and_reserve_read_loop ops n_locks tag keys
                    (wa1\<lparr>wa_ret := AList.update key (SUCCESS, Some (os_memory_obj final)) (wa_ret wa1)\<rparr>) st3))"

definition finish_write_and_reserve_read ::
  "'m mem_ops \<Rightarrow> 'k list \<Rightarrow> int \<Rightarrow> string \<Rightarrow> ('k, 'm) l1_manager \<Rightarrow> (('k, op_result) dict \<times> ('k, 'm) l1_manager) result" where
  "finish_write_and_reserve_read ops keys read_locks tag st =
     (case finish_write_and_reserve_read_loop ops (nat (validate_read_locks read_locks)) tag keys wa_empty st of
        Inl e \<Rightarrow> Inl e
      | Inr (wa, st1) \<Rightarrow>
          (case mem_free ops (wa_discarded wa) st1 of
             Inl e \<Rightarrow> Inl e
           | Inr st2 \<Rightarrow>
               let st3 = (if wa_other_keys wa = [] then st2 else report_read_reserved (wa_other_keys wa) st2)
               in Inr (wa_ret wa, report [On_finish_write_and_reserve_read (wa_keys wa),
                    L1_WRITE_FINISHED_AND_READ_RESERVED (wa_keys wa) (wa_meta wa)] st3)))"

fun finish_write_and_delete_loop ::
  "string \<Rightarrow> 'k list \<Rightarrow> 'k write_acc \<Rightarrow> ('k, 'm) l1_manager \<Rightarrow> ('k write_acc \<times> ('k, 'm) l1_manager) result" where
  "finish_write_and_delete_loop tag [] wa st = Inr (wa, st)"
| "finish_write_and_delete_loop tag (key # keys) wa st =
     (case take_staging key tag st of
        Inl e \<Rightarrow> Inl e
      | Inr ((err, taken), st1) \<Rightarrow>
          let wa1 = wa\<lparr>wa_ret := AList.update key (err, None) (wa_ret wa)\<rparr> in
          (case taken of
             None \<Rightarrow> finish_write_and_delete_loop tag keys wa1 st1
           | Some entry \<Rightarrow>
               let wa2 = wa1\<lparr>wa_discarded := wa_discarded wa1 @ [os_memory_obj entry]\<rparr> in
               finish_write_and_delete_loop tag keys
                 (if map_of (l1_objects st1) key = None \<and> map_of (l1_staging st1) key = None
                  then wa2\<lparr>wa_other_keys := wa_other_keys wa2 @ [key]\<rparr> else wa2) st1))"

definition finish_write_and_delete ::
  "'m mem_ops \<Rightarrow> 'k list \<Rightarrow> string \<Rightarrow> ('k, 'm) l1_manager \<Rightarrow> (('k, l1_error) dict \<times> ('k, 'm) l1_manager) result" where
  "finish_write_and_delete ops keys tag st =
     (case finish_write_and_delete_loop tag keys wa_empty st of
        Inl e \<Rightarrow> Inl e
      | Inr (wa, st1) \<Rightarrow>
          (case mem_free ops (wa_discarded wa) st1 of
             Inl e \<Rightarrow> Inl e
           | Inr st2 \<Rightarrow> Inr (map (map_prod id fst) (wa_ret wa), report_staging_gone (wa_other_keys wa) st2)))"

section \<open>Deleting and clearing\<close>

record 'k delete_acc =
  da_ret :: "('k, l1_error) dict"
  da_need_to_free :: "nat list"
  da_successful_keys :: "'k list"
  da_gone_keys :: "'k list"

fun delete_loop ::
  "'m mem_ops \<Rightarrow> bool \<Rightarrow> 'k list \<Rightarrow> 'k delete_acc \<Rightarrow> ('k, 'm) l1_manager \<Rightarrow> ('k delete_acc \<times> ('k, 'm) l1_manager) result" where
  "delete_loop ops force [] da st = Inr (da, st)"
| "delete_loop ops force (key # keys) da st =
     (let resident = map_of (l1_objects st) key in
      if resident = None \<and> map_of (l1_staging st) key = None
      then delete_loop ops force keys (da\<lparr>da_ret := AList.update key KEY_NOT_EXIST (da_ret da)\<rparr>) st
      else (case reclaim_staging ops key force st of
         Inl e \<Rightarrow> Inl e
       | Inr (_, st1) \<Rightarrow>
           if map_of (l1_staging st1) key \<noteq> None
           then delete_loop ops force keys (da\<lparr>da_ret := AList.update key KEY_IS_LOCKED (da_ret da)\<rparr>) st1
           else (case resident of
              None \<Rightarrow> delete_loop ops force keys
                 (da\<lparr>da_ret := AList.update key SUCCESS (da_ret da), da_gone_keys := da_gone_keys da @ [key]\<rparr>) st1
            | Some entry \<Rightarrow>
                let (locked, st2) = check_lock (os_read_lock entry) st1 in
                if locked \<and> \<not> force
                then delete_loop ops force keys (da\<lparr>da_ret := AList.update key KEY_IS_LOCKED (da_ret da)\<rparr>) st2
                else delete_loop ops force keys
                  (da\<lparr>da_ret := AList.update key SUCCESS (da_ret da),
                      da_need_to_free := da_need_to_free da @ [os_memory_obj entry],
                      da_successful_keys := da_successful_keys da @ [key]\<rparr>)
                  (st2\<lparr>l1_objects := AList.delete key (l1_objects st2)\<rparr>))))"

definition delete_keys ::
  "'m mem_ops \<Rightarrow> 'k list \<Rightarrow> bool \<Rightarrow> ('k, 'm) l1_manager \<Rightarrow> (('k, l1_error) dict \<times> ('k, 'm) l1_manager) result" where
  "delete_keys ops keys force st =
     (case delete_loop ops force keys
             \<lparr>da_ret = [], da_need_to_free = [], da_successful_keys = [], da_gone_keys = []\<rparr> st of
        Inl e \<Rightarrow> Inl e
      | Inr (da, st1) \<Rightarrow>
          (case free_and_report_deleted ops (da_successful_keys da) (da_need_to_free da) st1 of
             Inl e \<Rightarrow> Inl e
           | Inr st2 \<Rightarrow> Inr (da_ret da, report_staging_gone (da_gone_keys da) st2)))"

definition touch_keys :: "bool \<Rightarrow> 'k list \<Rightarrow> ('k, 'm) l1_manager \<Rightarrow> ('k, 'm) l1_manager" where
  "touch_keys has_subscribers keys st =
     report ([On_accessed keys] @ (if has_subscribers then [L1_KEYS_ACCESSED keys] else [])) st"

text \<open>Reclaiming the staging objects of a list of keys; the keys of which something was reclaimed.\<close>

fun reclaim_keys ::
  "'m mem_ops \<Rightarrow> bool \<Rightarrow> 'k list \<Rightarrow> 'k list \<Rightarrow> ('k, 'm) l1_manager \<Rightarrow> ('k list \<times> ('k, 'm) l1_manager) result" where
  "reclaim_keys ops force [] gone st = Inr (gone, st)"
| "reclaim_keys ops force (key # keys) gone st =
     (case reclaim_staging ops key force st of
        Inl e \<Rightarrow> Inl e
      | Inr (reclaimed, st1) \<Rightarrow>
          reclaim_keys ops force keys
            (if reclaimed > 0 \<and> map_of (l1_staging st1) key = None \<and> map_of (l1_objects st1) key = None
             then gone @ [key] else gone) st1)"

fun clear_scan ::
  "('k, l1_object_state) dict \<Rightarrow> 'k list \<Rightarrow> nat list \<Rightarrow> ('k, 'm) l1_manager \<Rightarrow> 'k list \<times> nat list \<times> ('k, 'm) l1_manager" where
  "clear_scan [] keys objs st = (keys, objs, st)"
| "clear_scan ((key, entry) # items) keys objs st =
     (let (locked, st1) = check_lock (os_read_lock entry) st in
      if locked then clear_scan items keys objs st1
      else clear_scan items (keys @ [key]) (objs @ [os_memory_obj entry]) st1)"

definition clear_all :: "'m mem_ops \<Rightarrow> ('k, 'm) l1_manager \<Rightarrow> ('k, 'm) l1_manager result" where
  "clear_all ops st =
     (let all_keys = dict_keys (l1_objects st);
          all_objs = map os_memory_obj (dict_values (l1_objects st));
          all_meta = map (object_meta ops st) all_objs
      in case mem_free ops all_objs st of
           Inl e \<Rightarrow> Inl e
         | Inr st1 \<Rightarrow>
             let st2 = report [On_deleted_by_manager all_keys, L1_KEYS_EVICTED all_keys all_meta] (st1\<lparr>l1_objects := []\<rparr>);
                 staging_keys = filter (\<lambda>k. k \<notin> set all_keys) (dict_keys (l1_staging st2))
             in (case reclaim_keys ops True (dict_keys (l1_staging st2)) [] st2 of
                   Inl e \<Rightarrow> Inl e
                 | Inr (_, st3) \<Rightarrow> Inr (report_staging_gone staging_keys st3)))"

definition clear_unlocked :: "'m mem_ops \<Rightarrow> ('k, 'm) l1_manager \<Rightarrow> ('k, 'm) l1_manager result" where
  "clear_unlocked ops st =
     (let (keys, objs, st1) = clear_scan (l1_objects st) [] [] st;
          st2 = st1\<lparr>l1_objects := fold AList.delete keys (l1_objects st1)\<rparr>
      in case (if keys = [] then Inr st2 else free_and_report_deleted ops keys objs st2) of
           Inl e \<Rightarrow> Inl e
         | Inr st3 \<Rightarrow>
             (case reclaim_keys ops False (dict_keys (l1_staging st3)) [] st3 of
                Inl e \<Rightarrow> Inl e
              | Inr (gone_keys, st4) \<Rightarrow> Inr (report_staging_gone gone_keys st4)))"

definition clear :: "'m mem_ops \<Rightarrow> bool \<Rightarrow> ('k, 'm) l1_manager \<Rightarrow> ('k, 'm) l1_manager result" where
  "clear ops force st = (if force then clear_all ops st else clear_unlocked ops st)"

section \<open>Queries and shutdown\<close>

fun any_unlocked :: "(string, l1_object_state) dict \<Rightarrow> ('k, 'm) l1_manager \<Rightarrow> bool \<times> ('k, 'm) l1_manager" where
  "any_unlocked [] st = (False, st)"
| "any_unlocked ((tag, staged) # items) st =
     (let (locked, st1) = check_lock (os_write_lock staged) st in
      if \<not> locked then (True, st1) else any_unlocked items st1)"

definition is_key_evictable :: "'k \<Rightarrow> ('k, 'm) l1_manager \<Rightarrow> bool \<times> ('k, 'm) l1_manager" where
  "is_key_evictable key st =
     (let (free_to_go, st1) =
            (case map_of (l1_objects st) key of
               None \<Rightarrow> (False, st)
             | Some entry \<Rightarrow> let (locked, st') = check_lock (os_read_lock entry) st in (\<not> locked, st'))
      in if free_to_go then (True, st1)
         else (case map_of (l1_staging st1) key of
                 None \<Rightarrow> (False, st1)
               | Some per_tag \<Rightarrow> any_unlocked per_tag st1))"

definition get_staging_memory_usage :: "('k, 'm) l1_manager \<Rightarrow> int" where
  "get_staging_memory_usage st = l1_staging_bytes st"

definition get_object_state :: "'k \<Rightarrow> ('k, 'm) l1_manager \<Rightarrow> l1_object_state option" where
  "get_object_state key st = map_of (l1_objects st) key"

definition all_objs :: "('k, 'm) l1_manager \<Rightarrow> nat list" where
  "all_objs st = map os_memory_obj (dict_values (l1_objects st)) @
     concat (map (\<lambda>per_tag. map os_memory_obj (dict_values per_tag)) (dict_values (l1_staging st)))"

text \<open>\<open>close\<close> up to the release of the memory manager's own resources.\<close>

definition close_l1 :: "'m mem_ops \<Rightarrow> ('k, 'm) l1_manager \<Rightarrow> ('k, 'm) l1_manager result" where
  "close_l1 ops st =
     (case mem_free ops (all_objs st) st of
        Inl e \<Rightarrow> Inl e
      | Inr st1 \<Rightarrow> Inr (st1\<lparr>l1_objects := [], l1_staging := [], l1_staging_bytes := 0\<rparr>))"

record l1_status =
  is_healthy :: bool
  total_object_count :: nat
  write_locked_count :: nat
  read_locked_count :: nat
  temporary_count :: nat
  staging_object_count :: nat
  staging_bytes :: int
  memory_used_bytes :: int
  memory_total_bytes :: int

fun count_read_locked :: "l1_object_state list \<Rightarrow> ('k, 'm) l1_manager \<Rightarrow> nat \<times> ('k, 'm) l1_manager" where
  "count_read_locked [] st = (0, st)"
| "count_read_locked (e # es) st =
     (let (locked, st1) = check_lock (os_read_lock e) st; (n, st2) = count_read_locked es st1
      in (if locked then Suc n else n, st2))"

fun count_write_locked :: "l1_object_state list \<Rightarrow> ('k, 'm) l1_manager \<Rightarrow> nat \<times> ('k, 'm) l1_manager" where
  "count_write_locked [] st = (0, st)"
| "count_write_locked (e # es) st =
     (let (locked, st1) = check_lock (os_write_lock e) st; (n, st2) = count_write_locked es st1
      in (if locked then Suc n else n, st2))"

definition report_status :: "'m mem_ops \<Rightarrow> ('k, 'm) l1_manager \<Rightarrow> l1_status \<times> ('k, 'm) l1_manager" where
  "report_status ops st =
     (let resident = dict_values (l1_objects st);
          staged = concat (map dict_values (dict_values (l1_staging st)));
          (read_locked, st1) = count_read_locked resident st;
          (write_locked, st2) = count_write_locked staged st1;
          (used, total_bytes) = mm_get_memory_usage ops (l1_mem st2)
      in (\<lparr>is_healthy = mm_memcheck ops (l1_mem st2),
           total_object_count = length (l1_objects st) + length staged,
           write_locked_count = write_locked, read_locked_count = read_locked,
           temporary_count = length (filter os_is_temporary resident) + length (filter os_is_temporary staged),
           staging_object_count = length staged, staging_bytes = l1_staging_bytes st,
           memory_used_bytes = used, memory_total_bytes = total_bytes\<rparr>, st2))"

definition l1_memcheck :: "'m mem_ops \<Rightarrow> ('k, 'm) l1_manager \<Rightarrow> bool" where
  "l1_memcheck ops st = mm_memcheck ops (l1_mem st)"

section \<open>Invariant\<close>

definition staged_entries :: "('k, 'm) l1_manager \<Rightarrow> l1_object_state list" where
  "staged_entries st = concat (map dict_values (dict_values (l1_staging st)))"

text \<open>The tables are dictionaries, no key has an empty table of writers, and the byte counter agrees.\<close>

definition tables_ok :: "('k, 'm) l1_manager \<Rightarrow> bool" where
  "tables_ok st \<longleftrightarrow> dict_ok (l1_objects st) \<and> dict_ok (l1_staging st) \<and>
     (\<forall>per_tag \<in> set (dict_values (l1_staging st)). dict_ok per_tag \<and> per_tag \<noteq> []) \<and>
     l1_staging_bytes st = sum_list (map os_staging_charge (staged_entries st))"

text \<open>
  The live memory objects are exactly the ones in the two tables and in \<open>extra\<close>, each once: nothing
  is leaked, freed early, or in two places.
\<close>

definition owns :: "('m \<Rightarrow> nat set) \<Rightarrow> nat list \<Rightarrow> ('k, 'm) l1_manager \<Rightarrow> bool" where
  "owns live extra st \<longleftrightarrow> distinct (all_objs st @ extra) \<and> set (all_objs st @ extra) = live (l1_mem st)"

definition l1_inv :: "('m \<Rightarrow> bool) \<Rightarrow> ('m \<Rightarrow> nat set) \<Rightarrow> nat list \<Rightarrow> ('k, 'm) l1_manager \<Rightarrow> bool" where
  "l1_inv minv live extra st \<longleftrightarrow> minv (l1_mem st) \<and> tables_ok st \<and> owns live extra st"

lemma all_objs_eq:
  "all_objs st = map os_memory_obj (dict_values (l1_objects st) @ staged_entries st)"
  by (simp add: all_objs_def staged_entries_def map_concat comp_def)

lemma owns_mset_cong:
  "mset (all_objs st @ extra) = mset (all_objs st' @ extra') \<Longrightarrow> l1_mem st = l1_mem st' \<Longrightarrow>
     owns live extra st = owns live extra' st'"
  by (metis mset_eq_imp_distinct_iff mset_eq_setD owns_def)

end
