(* ===== verification/L1_Invariant.thy ===== *)
theory L1_Invariant
  imports L1_Manager
begin

text \<open>
  Every operation of the L1 manager keeps its tables consistent and owns the live memory objects
  exactly: first the effect of the table updates on the objects in them, then the operations, proved
  once for every memory manager that satisfies the interface.
\<close>

section \<open>Clock and trace\<close>

lemma check_lock_snd: "check_lock lk st = (b, st') \<Longrightarrow> st' = st\<lparr>l1_ticks := Suc (l1_ticks st)\<rparr>"
  by (auto simp: check_lock_def tick_def)

lemma tick_snd: "tick st = (t, st') \<Longrightarrow> st' = st\<lparr>l1_ticks := Suc (l1_ticks st)\<rparr>"
  by (auto simp: tick_def)

lemma lock_times_snd: "lock_times n lk st = (lk', st') \<Longrightarrow> st' = st\<lparr>l1_ticks := l1_ticks st + n\<rparr>"
  by (induction n lk st rule: lock_times.induct) (auto simp: tick_def)

lemma l1_inv_frame [simp]:
  "l1_inv minv live extra (st\<lparr>l1_ticks := n\<rparr>) = l1_inv minv live extra st"
  "l1_inv minv live extra (st\<lparr>l1_trace := tr\<rparr>) = l1_inv minv live extra st"
  by (simp_all add: l1_inv_def tables_ok_def owns_def all_objs_def staged_entries_def)

lemma l1_inv_report [simp]:
  "l1_inv minv live extra (report os st) = l1_inv minv live extra st"
  "l1_inv minv live extra (report_read_reserved keys st) = l1_inv minv live extra st"
  "l1_inv minv live extra (report_staging_gone keys st) = l1_inv minv live extra st"
  by (simp_all add: report_def report_read_reserved_def report_staging_gone_def)

lemma l1_invD:
  assumes "l1_inv minv live extra st"
  shows "minv (l1_mem st)" and "tables_ok st" and "owns live extra st"
    and "dict_ok (l1_objects st)" and "dict_ok (l1_staging st)"
    and "map_of (l1_staging st) k = Some d \<Longrightarrow> dict_ok d \<and> d \<noteq> []"
    and "l1_staging_bytes st = sum_list (map os_staging_charge (staged_entries st))"
proof -
  show "minv (l1_mem st)" "tables_ok st" "owns live extra st" "dict_ok (l1_objects st)" "dict_ok (l1_staging st)"
    "l1_staging_bytes st = sum_list (map os_staging_charge (staged_entries st))"
    using assms by (simp_all add: l1_inv_def tables_ok_def)
  show "dict_ok d \<and> d \<noteq> []" if "map_of (l1_staging st) k = Some d"
    using map_of_SomeD[OF that] assms image_eqI[of d snd "(k, d)" "set (l1_staging st)"]
    by (auto simp: l1_inv_def tables_ok_def)
qed

lemma l1_inv_extra: "mset extra = mset extra' \<Longrightarrow> l1_inv minv live extra st \<Longrightarrow> l1_inv minv live extra' st"
  using owns_mset_cong[of st extra st extra' live] by (auto simp: l1_inv_def)

section \<open>Resident table\<close>

lemma objects_touch:
  assumes inv: "l1_inv minv live extra st" and k: "map_of (l1_objects st) k = Some e"
    and e': "os_memory_obj e' = os_memory_obj e"
  shows "l1_inv minv live extra (st\<lparr>l1_objects := AList.update k e' (l1_objects st)\<rparr>)"
proof -
  let ?st = "st\<lparr>l1_objects := AList.update k e' (l1_objects st)\<rparr>"
  have "add_mset (os_memory_obj e) (mset (map os_memory_obj (dict_values (AList.update k e' (l1_objects st))))) =
      add_mset (os_memory_obj e') (mset (map os_memory_obj (dict_values (l1_objects st))))"
    using dict_values_update_old[OF k, of e'] by (metis image_mset_add_mset mset_map)
  then have "mset (all_objs ?st) = mset (all_objs st)"
    using e' by (simp add: all_objs_eq staged_entries_def)
  then show ?thesis
    using inv owns_mset_cong[of ?st extra st extra live] by (simp add: l1_inv_def tables_ok_def staged_entries_def)
qed

lemma objects_delete:
  assumes inv: "l1_inv minv live extra st" and k: "map_of (l1_objects st) k = Some e"
  shows "l1_inv minv live (extra @ [os_memory_obj e]) (st\<lparr>l1_objects := AList.delete k (l1_objects st)\<rparr>)"
proof -
  let ?st = "st\<lparr>l1_objects := AList.delete k (l1_objects st)\<rparr>"
  have "mset (map os_memory_obj (dict_values (l1_objects st))) =
      add_mset (os_memory_obj e) (mset (map os_memory_obj (dict_values (AList.delete k (l1_objects st)))))"
    using dict_values_delete[OF l1_invD(4)[OF inv] k] by (metis image_mset_add_mset mset_map)
  then have "mset (all_objs ?st @ extra @ [os_memory_obj e]) = mset (all_objs st @ extra)"
    by (simp add: all_objs_eq staged_entries_def)
  then show ?thesis
    using inv owns_mset_cong[of ?st "extra @ [os_memory_obj e]" st extra live]
    by (simp add: l1_inv_def tables_ok_def staged_entries_def)
qed

lemma objects_insert:
  assumes inv: "l1_inv minv live (extra @ [os_memory_obj e]) st" and k: "map_of (l1_objects st) k = None"
  shows "l1_inv minv live extra (st\<lparr>l1_objects := AList.update k e (l1_objects st)\<rparr>)"
proof -
  let ?st = "st\<lparr>l1_objects := AList.update k e (l1_objects st)\<rparr>"
  have "mset (map os_memory_obj (dict_values (AList.update k e (l1_objects st)))) =
      add_mset (os_memory_obj e) (mset (map os_memory_obj (dict_values (l1_objects st))))"
    using dict_values_update_new[OF k, of e] by (metis image_mset_add_mset mset_map)
  then have "mset (all_objs ?st @ extra) = mset (all_objs st @ extra @ [os_memory_obj e])"
    by (simp add: all_objs_eq staged_entries_def)
  then show ?thesis
    using inv owns_mset_cong[of ?st extra st "extra @ [os_memory_obj e]" live]
    by (simp add: l1_inv_def tables_ok_def staged_entries_def)
qed

section \<open>Staging table\<close>

lemma staging_tables:
  assumes "tables_ok st"
  shows "dict_ok d \<Longrightarrow> d \<noteq> [] \<Longrightarrow>
      \<forall>per_tag \<in> set (dict_values (AList.update k d (l1_staging st))). dict_ok per_tag \<and> per_tag \<noteq> []"
    and "\<forall>per_tag \<in> set (dict_values (AList.delete k (l1_staging st))). dict_ok per_tag \<and> per_tag \<noteq> []"
proof -
  have all: "\<forall>p \<in> set (dict_values (l1_staging st)). dict_ok p \<and> p \<noteq> []"
    using assms by (simp add: tables_ok_def)
  show "\<forall>per_tag \<in> set (dict_values (AList.update k d (l1_staging st))). dict_ok per_tag \<and> per_tag \<noteq> []"
    if "dict_ok d" "d \<noteq> []"
    using all that set_dict_values_update[of k d "l1_staging st"] by blast
  show "\<forall>per_tag \<in> set (dict_values (AList.delete k (l1_staging st))). dict_ok per_tag \<and> per_tag \<noteq> []"
    using all set_dict_values_delete[of k "l1_staging st"] by blast
qed

text \<open>The staged entries after writing one of them.\<close>

lemma set_staging_new:
  assumes "get_staging st k tag = None"
  shows "mset (staged_entries (set_staging k tag e st)) = add_mset e (mset (staged_entries st))"
proof (cases "map_of (l1_staging st) k")
  case None
  then show ?thesis
    using dict_concat_update_new[OF None, where f = dict_values] by (simp add: set_staging_def staged_entries_def)
next
  case (Some d)
  then have n: "map_of d tag = None" using assms by (simp add: get_staging_def)
  have "mset (dict_values d) + mset (staged_entries (set_staging k tag e st)) =
      mset (dict_values (AList.update tag e d)) + mset (staged_entries st)"
    using dict_concat_update_old[OF Some, where f = dict_values] Some by (simp add: set_staging_def staged_entries_def)
  then show ?thesis using dict_values_update_new[OF n, of e] by simp
qed

lemma set_staging_old:
  assumes "get_staging st k tag = Some w"
  shows "add_mset w (mset (staged_entries (set_staging k tag e st))) = add_mset e (mset (staged_entries st))"
proof -
  obtain d where d: "map_of (l1_staging st) k = Some d" "map_of d tag = Some w"
    using assms by (auto simp: get_staging_def split: option.splits)
  have "mset (dict_values d) + mset (staged_entries (set_staging k tag e st)) =
      mset (dict_values (AList.update tag e d)) + mset (staged_entries st)"
    using dict_concat_update_old[OF d(1), where f = dict_values] d(1) by (simp add: set_staging_def staged_entries_def)
  then have "add_mset w (mset (dict_values d) + mset (staged_entries (set_staging k tag e st))) =
      add_mset e (mset (dict_values d)) + mset (staged_entries st)"
    using dict_values_update_old[OF d(2), of e] by (metis union_mset_add_mset_left)
  then show ?thesis by simp
qed

lemma set_staging_frame [simp]:
  "l1_mem (set_staging k tag e st) = l1_mem st" "l1_objects (set_staging k tag e st) = l1_objects st"
  "l1_staging_bytes (set_staging k tag e st) = l1_staging_bytes st"
  "l1_manager_id (set_staging k tag e st) = l1_manager_id st"
  "get_staging (set_staging k tag e st) k' tag' = (if k' = k \<and> tag' = tag then Some e else get_staging st k' tag')"
  by (auto simp: set_staging_def get_staging_def Let_def split: option.splits)

lemma set_staging_tables:
  assumes "tables_ok st"
  shows "dict_ok (l1_staging (set_staging k tag e st))"
    and "\<forall>per_tag \<in> set (dict_values (l1_staging (set_staging k tag e st))). dict_ok per_tag \<and> per_tag \<noteq> []"
proof -
  let ?d = "case map_of (l1_staging st) k of None \<Rightarrow> [] | Some d \<Rightarrow> d"
  have "dict_ok ?d"
  proof (cases "map_of (l1_staging st) k")
    case (Some d)
    then have "d \<in> set (dict_values (l1_staging st))" using map_of_SomeD[OF Some] by force
    with assms Some show ?thesis by (auto simp: tables_ok_def)
  qed simp
  then have "dict_ok (AList.update tag e ?d)" "AList.update tag e ?d \<noteq> []"
    by (simp, metis AList.update_nonempty)
  from staging_tables(1)[OF assms this, of k] assms
  show "dict_ok (l1_staging (set_staging k tag e st))"
    "\<forall>per_tag \<in> set (dict_values (l1_staging (set_staging k tag e st))). dict_ok per_tag \<and> per_tag \<noteq> []"
    by (simp_all add: set_staging_def Let_def tables_ok_def)
qed

lemma staging_touch:
  assumes inv: "l1_inv minv live extra st" and k: "get_staging st k tag = Some w"
    and e: "os_memory_obj e = os_memory_obj w" "os_staging_charge e = os_staging_charge w"
  shows "l1_inv minv live extra (set_staging k tag e st)"
proof -
  let ?st = "set_staging k tag e st"
  note m = set_staging_old[OF k, of e]
  have "image_mset f (mset (staged_entries ?st)) = image_mset f (mset (staged_entries st))" if "f e = f w" for f :: "l1_object_state \<Rightarrow> 'x"
    using arg_cong[OF m, of "image_mset f"] that by simp
  then have o: "mset (map os_memory_obj (staged_entries ?st)) = mset (map os_memory_obj (staged_entries st))"
    and c: "mset (map os_staging_charge (staged_entries ?st)) = mset (map os_staging_charge (staged_entries st))"
    using e by (simp_all only: mset_map)
  have "mset (all_objs ?st @ extra) = mset (all_objs st @ extra)"
    using o by (simp add: all_objs_eq)
  moreover have "sum_list (map os_staging_charge (staged_entries ?st)) = sum_list (map os_staging_charge (staged_entries st))"
    using c by (metis sum_mset_sum_list)
  ultimately show ?thesis
    using inv owns_mset_cong[of ?st extra st extra live] set_staging_tables[OF l1_invD(2)[OF inv], of k tag e]
    by (simp add: l1_inv_def tables_ok_def)
qed

lemma put_staging_inv:
  assumes inv: "l1_inv minv live (extra @ [os_memory_obj e]) st" and k: "get_staging st k tag = None"
  shows "l1_inv minv live extra (put_staging ops k tag e st)"
proof -
  let ?c = "mm_get_size ops (l1_mem st) (os_memory_obj e)"
  let ?st = "put_staging ops k tag e st" and ?e = "e\<lparr>os_staging_charge := ?c\<rparr>"
  have st: "staged_entries ?st = staged_entries (set_staging k tag ?e st)" "l1_mem ?st = l1_mem st"
    "l1_objects ?st = l1_objects st" "l1_staging ?st = l1_staging (set_staging k tag ?e st)"
    "l1_staging_bytes ?st = l1_staging_bytes st + ?c"
    by (simp_all add: put_staging_def Let_def staged_entries_def)
  note m = set_staging_new[OF k, of ?e]
  have "mset (map os_memory_obj (staged_entries ?st)) = add_mset (os_memory_obj e) (mset (map os_memory_obj (staged_entries st)))"
    unfolding st mset_map m by simp
  then have "mset (all_objs ?st @ extra) = mset (all_objs st @ extra @ [os_memory_obj e])"
    by (simp add: all_objs_eq st(3))
  moreover have "sum_mset (image_mset os_staging_charge (mset (staged_entries ?st))) =
      ?c + sum_mset (image_mset os_staging_charge (mset (staged_entries st)))"
    unfolding st m by simp
  then have "sum_list (map os_staging_charge (staged_entries ?st)) = ?c + sum_list (map os_staging_charge (staged_entries st))"
    by (metis mset_map sum_mset_sum_list)
  ultimately show ?thesis
    using inv owns_mset_cong[of ?st extra st "extra @ [os_memory_obj e]" live]
      set_staging_tables[OF l1_invD(2)[OF inv], of k tag ?e]
    by (simp add: l1_inv_def tables_ok_def st)
qed

lemma pop_staging_inv:
  assumes inv: "l1_inv minv live extra st" and k: "get_staging st k tag = Some e"
  shows "\<exists>st'. pop_staging k tag st = Inr (e\<lparr>os_staging_charge := 0\<rparr>, st') \<and>
    l1_inv minv live (extra @ [os_memory_obj e]) st' \<and> l1_objects st' = l1_objects st \<and> l1_mem st' = l1_mem st \<and>
    get_staging st' k tag = None \<and> (\<forall>k' tag'. (k', tag') \<noteq> (k, tag) \<longrightarrow> get_staging st' k' tag' = get_staging st k' tag') \<and>
    l1_manager_id st' = l1_manager_id st \<and> l1_trace st' = l1_trace st"
proof -
  obtain d where d: "map_of (l1_staging st) k = Some d" "map_of d tag = Some e"
    using k by (auto simp: get_staging_def split: option.splits)
  have dok: "dict_ok d" "dict_ok (l1_staging st)" using l1_invD(5,6)[OF inv] d by auto
  let ?d = "AList.delete tag d"
  define S where "S = (if ?d = [] then AList.delete k (l1_staging st) else AList.update k ?d (l1_staging st))"
  define st' where "st' = st\<lparr>l1_staging := S, l1_staging_bytes := l1_staging_bytes st - os_staging_charge e\<rparr>"
  have fr: "l1_staging st' = S" "l1_staging_bytes st' = l1_staging_bytes st - os_staging_charge e"
    "l1_objects st' = l1_objects st" "l1_mem st' = l1_mem st" "l1_manager_id st' = l1_manager_id st"
    "l1_trace st' = l1_trace st"
    by (simp_all add: st'_def)
  have eq: "pop_staging k tag st = Inr (e\<lparr>os_staging_charge := 0\<rparr>, st')"
    by (simp add: pop_staging_def d Let_def S_def st'_def)
  have "mset (dict_values d) + mset (staged_entries st') = mset (dict_values ?d) + mset (staged_entries st)"
    unfolding staged_entries_def fr(1) S_def
    using dict_concat_delete[OF dok(2) d(1), where f = dict_values]
      dict_concat_update_old[OF d(1), where f = dict_values and v = ?d] by simp
  then have m: "mset (staged_entries st) = add_mset e (mset (staged_entries st'))"
    using dict_values_delete[OF dok(1) d(2)] by simp
  have "mset (map os_memory_obj (staged_entries st)) = add_mset (os_memory_obj e) (mset (map os_memory_obj (staged_entries st')))"
    unfolding mset_map m by simp
  then have o: "mset (all_objs st' @ extra @ [os_memory_obj e]) = mset (all_objs st @ extra)"
    by (simp add: all_objs_eq fr)
  have "sum_mset (image_mset os_staging_charge (mset (staged_entries st))) =
      os_staging_charge e + sum_mset (image_mset os_staging_charge (mset (staged_entries st')))"
    unfolding m by simp
  then have c: "sum_list (map os_staging_charge (staged_entries st)) =
      os_staging_charge e + sum_list (map os_staging_charge (staged_entries st'))"
    by (metis mset_map sum_mset_sum_list)
  have dk: "dict_ok ?d" using dok(1) by simp
  have tab1: "dict_ok S" unfolding S_def using dok(2) by (cases "?d = []") simp_all
  have tab2: "\<forall>p \<in> set (dict_values S). dict_ok p \<and> p \<noteq> []"
  proof (cases "?d = []")
    case True
    then show ?thesis unfolding S_def using staging_tables(2)[OF l1_invD(2)[OF inv]] by (simp only: if_True simp_thms)
  next
    case False
    show ?thesis
      unfolding S_def if_not_P[OF False] by (rule staging_tables(1)[OF l1_invD(2)[OF inv] dk False])
  qed
  have i: "l1_inv minv live (extra @ [os_memory_obj e]) st'"
    using inv owns_mset_cong[OF o fr(4), of live] c tab1 tab2 unfolding l1_inv_def tables_ok_def fr by simp
  have g: "get_staging st' k' tag' = (if k' = k \<and> tag' = tag then None else get_staging st k' tag')" for k' tag'
  proof (cases "?d = []")
    case True
    then have "map_of ?d tag' = None" by simp
    then have "tag' \<noteq> tag \<Longrightarrow> map_of d tag' = None" by simp
    with True d show ?thesis by (simp add: get_staging_def fr S_def)
  next
    case False
    with d show ?thesis by (simp add: get_staging_def fr S_def)
  qed
  show ?thesis
    by (rule exI[of _ st']) (simp add: eq i g fr)
qed

end
