(* ===== verification/L1_Operations.thy ===== *)
theory L1_Operations
  imports L1_Invariant "HOL-Library.Sublist"
begin

text \<open>
  Every operation of the L1 manager, run on any memory manager that satisfies the interface, raises
  nothing and keeps the invariant: the tables stay dictionaries, the staging counter stays the sum
  of the recorded charges, and the live memory objects are exactly those in the tables.
\<close>

lemma check_lock_inv:
  "l1_inv minv live extra (snd (check_lock lk st)) = l1_inv minv live extra st"
  "l1_objects (snd (check_lock lk st)) = l1_objects st"
  "l1_staging (snd (check_lock lk st)) = l1_staging st"
  "l1_mem (snd (check_lock lk st)) = l1_mem st"
  "get_staging (snd (check_lock lk st)) = get_staging st"
  by (simp_all add: check_lock_def tick_def get_staging_def fun_eq_iff)

lemma tick_inv:
  "l1_inv minv live extra (snd (tick st)) = l1_inv minv live extra st"
  "l1_objects (snd (tick st)) = l1_objects st"
  "l1_staging (snd (tick st)) = l1_staging st"
  "l1_mem (snd (tick st)) = l1_mem st"
  "get_staging (snd (tick st)) = get_staging st"
  by (simp_all add: tick_def get_staging_def fun_eq_iff)

lemma lock_times_inv:
  "l1_inv minv live extra (snd (lock_times n lk st)) = l1_inv minv live extra st \<and>
   l1_objects (snd (lock_times n lk st)) = l1_objects st \<and>
   l1_staging (snd (lock_times n lk st)) = l1_staging st \<and> l1_mem (snd (lock_times n lk st)) = l1_mem st"
  by (induction n lk st rule: lock_times.induct) (simp_all add: tick_def)

lemmas clock_inv = check_lock_inv tick_inv lock_times_inv

lemma get_staging_set [simp]:
  "get_staging (set_staging k tag e st) k' tag' = (if k' = k \<and> tag' = tag then Some e else get_staging st k' tag')"
  by (simp add: get_staging_def set_staging_def Let_def split: option.splits)

lemma set_staging_objects [simp]:
  "l1_objects (set_staging k tag e st) = l1_objects st" "l1_mem (set_staging k tag e st) = l1_mem st"
  by (simp_all add: set_staging_def Let_def)

section \<open>Staging helpers\<close>

lemma take_staging_inv:
  assumes inv: "l1_inv minv live extra st"
  shows "ensures (take_staging k tag st) (\<lambda>((err, taken), st'). l1_objects st' = l1_objects st \<and>
    (case taken of None \<Rightarrow> l1_inv minv live extra st'
     | Some e \<Rightarrow> err = SUCCESS \<and> l1_inv minv live (extra @ [os_memory_obj e]) st'))"
proof (cases "get_staging st k tag")
  case None
  with inv show ?thesis by (simp add: take_staging_def)
next
  case (Some staged)
  obtain locked st1 where cl: "check_lock (os_write_lock staged) st = (locked, st1)" by (cases "check_lock (os_write_lock staged) st")
  have st1: "l1_inv minv live extra st1" "l1_objects st1 = l1_objects st" "get_staging st1 k tag = Some staged"
    using check_lock_inv[where lk = "os_write_lock staged" and st = st] inv Some cl by (auto simp: fun_eq_iff)
  show ?thesis
  proof (cases locked)
    case False
    with st1 Some cl show ?thesis by (simp add: take_staging_def)
  next
    case True
    let ?e = "staged\<lparr>os_write_lock := ttl_release (os_write_lock staged)\<rparr>"
    have "l1_inv minv live extra (set_staging k tag ?e st1)"
      by (rule staging_touch[OF st1(1,3)]) simp_all
    from pop_staging_inv[OF this, of k tag ?e] obtain st' where
      "pop_staging k tag (set_staging k tag ?e st1) = Inr (?e\<lparr>os_staging_charge := 0\<rparr>, st')"
      "l1_inv minv live (extra @ [os_memory_obj ?e]) st'" "l1_objects st' = l1_objects st1" by auto
    with True Some cl st1(2) show ?thesis by (simp add: take_staging_def Let_def)
  qed
qed

lemma reclaim_loop_inv:
  assumes "l1_inv minv live (extra @ freed) st" and "dict_ok items"
    and "\<And>tag e. (tag, e) \<in> set items \<Longrightarrow> get_staging st k tag = Some e"
  shows "ensures (reclaim_loop k force items freed st) (\<lambda>(freed', st'). l1_inv minv live (extra @ freed') st' \<and>
    l1_objects st' = l1_objects st \<and> (\<forall>k' tag. k' \<noteq> k \<longrightarrow> get_staging st' k' tag = get_staging st k' tag) \<and>
    (\<forall>tag. tag \<notin> set (dict_keys items) \<longrightarrow> get_staging st' k tag = get_staging st k tag) \<and>
    (force \<longrightarrow> (\<forall>tag \<in> set (dict_keys items). get_staging st' k tag = None)))"
  using assms
proof (induction items arbitrary: freed st)
  case Nil
  then show ?case by simp
next
  case (Cons item items)
  obtain tag e where item: "item = (tag, e)" by (cases item)
  obtain locked st1 where cl: "check_lock (os_write_lock e) st = (locked, st1)" by (cases "check_lock (os_write_lock e) st")
  have st1: "l1_inv minv live (extra @ freed) st1" "l1_objects st1 = l1_objects st" "get_staging st1 = get_staging st"
    using check_lock_inv[where lk = "os_write_lock e" and st = st] Cons.prems(1) cl by auto
  have tags: "tag \<notin> set (dict_keys items)" "dict_ok items" using Cons.prems(2) item by auto
  show ?case
  proof (cases "locked \<and> \<not> force")
    case True
    have "\<And>t e'. (t, e') \<in> set items \<Longrightarrow> get_staging st1 k t = Some e'" using Cons.prems(3) st1(3) by auto
    from Cons.IH[OF st1(1) tags(2) this] show ?thesis
      using True cl item st1 by (auto elim!: ensures_mono)
  next
    case False
    have "get_staging st1 k tag = Some e" using Cons.prems(3) item st1(3) by auto
    from pop_staging_inv[OF st1(1) this] obtain st2 where st2:
      "pop_staging k tag st1 = Inr (e\<lparr>os_staging_charge := 0\<rparr>, st2)" "l1_inv minv live (extra @ freed @ [os_memory_obj e]) st2"
      "l1_objects st2 = l1_objects st1" "get_staging st2 k tag = None"
      "\<And>k' tag'. (k', tag') \<noteq> (k, tag) \<Longrightarrow> get_staging st2 k' tag' = get_staging st1 k' tag'" by auto
    have "\<And>t e'. (t, e') \<in> set items \<Longrightarrow> get_staging st2 k t = Some e'"
      using Cons.prems(3) st1(3) st2(5) tags(1) by (metis Pair_inject fst_conv image_eqI image_set list.set_intros(2))
    from Cons.IH[OF st2(2) tags(2) this] show ?thesis
      using False cl item st1 st2 tags(1) by (auto elim!: ensures_mono)
  qed
qed

lemma staging_None_iff:
  assumes "l1_inv minv live extra st"
  shows "map_of (l1_staging st) k = None \<longleftrightarrow> (\<forall>tag. get_staging st k tag = None)"
proof (cases "map_of (l1_staging st) k")
  case None
  then show ?thesis by (simp add: get_staging_def)
next
  case (Some d)
  then obtain tag e d' where "d = (tag, e) # d'" using l1_invD(6)[OF assms Some] by (cases d) auto
  with Some show ?thesis by (auto simp: get_staging_def intro!: exI[of _ tag])
qed

section \<open>Loops over keys\<close>

lemma reserve_read_loop_inv:
  assumes "l1_inv minv live extra st"
  shows "case reserve_read_loop n keys ret succ st of (ret', succ', st') \<Rightarrow> l1_inv minv live extra st'"
  using assms
proof (induction keys arbitrary: ret succ st)
  case (Cons key keys)
  show ?case
  proof (cases "map_of (l1_objects st) key")
    case None
    show ?thesis unfolding reserve_read_loop.simps None option.case by (rule Cons.IH[OF Cons.prems])
  next
    case (Some e)
    obtain lk st1 where lt: "lock_times n (os_read_lock e) st = (lk, st1)" by (cases "lock_times n (os_read_lock e) st")
    have "l1_inv minv live extra st1" "l1_objects st1 = l1_objects st"
      using lock_times_inv[of minv live extra n "os_read_lock e" st] lt Cons.prems by simp_all
    then have "l1_inv minv live extra (st1\<lparr>l1_objects := AList.update key (e\<lparr>os_read_lock := lk\<rparr>) (l1_objects st1)\<rparr>)"
      by (intro objects_touch[where e = e]) (use Some in simp_all)
    then show ?thesis unfolding reserve_read_loop.simps Some option.case lt Let_def prod.case by (rule Cons.IH)
  qed
qed simp

lemma unsafe_read_loop_inv:
  assumes "l1_inv minv live extra st"
  shows "case unsafe_read_loop keys ret st of (ret', st') \<Rightarrow> l1_inv minv live extra st'"
  using assms
proof (induction keys arbitrary: ret st)
  case (Cons key keys)
  show ?case
  proof (cases "map_of (l1_objects st) key")
    case None
    show ?thesis unfolding unsafe_read_loop.simps None option.case by (rule Cons.IH[OF Cons.prems])
  next
    case (Some e)
    obtain b st1 where cl: "check_lock (os_read_lock e) st = (b, st1)" by (cases "check_lock (os_read_lock e) st")
    have "l1_inv minv live extra st1"
      using check_lock_inv(1)[of minv live extra "os_read_lock e" st] cl Cons.prems by simp
    then show ?thesis
      unfolding unsafe_read_loop.simps Some cl option.case Let_def prod.case by (cases b) (simp_all add: Cons.IH)
  qed
qed simp

lemma finish_read_loop_inv:
  assumes "l1_inv minv live (fa_need_to_free fa) st"
  shows "case finish_read_loop n keys fa st of (fa', st') \<Rightarrow> l1_inv minv live (fa_need_to_free fa') st'"
  using assms
proof (induction keys arbitrary: fa st)
  case (Cons key keys)
  note inv = Cons.prems
  show ?case
  proof (cases "map_of (l1_objects st) key")
    case None
    show ?thesis unfolding finish_read_loop.simps None option.case by (rule Cons.IH, use inv in simp)
  next
    case (Some e)
    obtain b st1 where cl: "check_lock (os_read_lock e) st = (b, st1)" by (cases "check_lock (os_read_lock e) st")
    have st1: "l1_inv minv live (fa_need_to_free fa) st1" "l1_objects st1 = l1_objects st"
      using check_lock_inv(1)[of minv live "fa_need_to_free fa" "os_read_lock e" st]
        check_lock_inv(2)[of "os_read_lock e" st] cl inv by simp_all
    define lk where "lk = unlock_times n (os_read_lock e)"
    define st2 where "st2 = st1\<lparr>l1_objects := AList.update key (e\<lparr>os_read_lock := lk\<rparr>) (l1_objects st1)\<rparr>"
    obtain b3 st3 where c3: "(if os_is_temporary e then check_lock lk st2 else (True, st2)) = (b3, st3)"
      by (cases "if os_is_temporary e then check_lock lk st2 else (True, st2)")
    have "l1_inv minv live (fa_need_to_free fa) st2"
      unfolding st2_def by (rule objects_touch[OF st1(1), where e = e]) (use Some st1(2) in auto)
    then have st3: "l1_inv minv live (fa_need_to_free fa) st3" "map_of (l1_objects st3) key = Some (e\<lparr>os_read_lock := lk\<rparr>)"
      using c3 check_lock_inv(1)[of minv live "fa_need_to_free fa" lk st2] check_lock_inv(2)[of lk st2]
      by (auto simp: st2_def split: if_splits)
    from objects_delete[OF this] have del:
      "l1_inv minv live (fa_need_to_free fa @ [os_memory_obj e]) (st3\<lparr>l1_objects := AList.delete key (l1_objects st3)\<rparr>)"
      by simp
    note eq = finish_read_loop.simps(2)[of n key keys fa st, unfolded Some cl option.case Let_def prod.case
        lk_def[symmetric] st2_def[symmetric] c3]
    consider "\<not> b" | "b" "os_is_temporary e \<and> \<not> b3" | "b" "\<not> (os_is_temporary e \<and> \<not> b3)" by blast
    then show ?thesis
    proof cases
      case 1
      show ?thesis unfolding eq if_P[OF 1] by (rule Cons.IH, use st1 in simp)
    next
      case 2
      then have nb: "\<not> \<not> b" by simp
      show ?thesis unfolding eq if_P[OF 2(2)] if_not_P[OF nb] by (rule Cons.IH, use del in simp)
    next
      case 3
      then have nb: "\<not> \<not> b" by simp
      show ?thesis unfolding eq if_not_P[OF 3(2)] if_not_P[OF nb] by (rule Cons.IH, use st3 in simp)
    qed
  qed
qed simp

lemma reserve_write_scan_inv:
  assumes "l1_inv minv live extra st" and "\<forall>k \<in> set (dict_keys need). get_staging st k tag = None"
  shows "case reserve_write_scan tag items ret succ need st of (ret', succ', need', st') \<Rightarrow>
    l1_inv minv live extra st' \<and> (\<forall>k \<in> set (dict_keys need'). get_staging st' k tag = None) \<and>
    (distinct (dict_keys need @ dict_keys items) \<longrightarrow> distinct (dict_keys need'))"
  using assms
proof (induction items arbitrary: ret succ need st)
  case (Cons item items)
  obtain key is_temp where item: "item = (key, is_temp)" by (cases item)
  note eq = reserve_write_scan.simps(2)[of tag key is_temp items ret succ need st, folded item]
  show ?case
  proof (cases "map_of (l1_objects st) key")
    case (Some e)
    then show ?thesis
      unfolding eq using Cons.IH[OF Cons.prems, of "AList.update key (KEY_NOT_WRITABLE, None) ret" succ] item
      by (auto split: prod.splits)
  next
    case None
    show ?thesis
    proof (cases "get_staging st key tag")
      case unstaged: None
      have "\<forall>k \<in> set (dict_keys (need @ [(key, is_temp)])). get_staging st k tag = None"
        using Cons.prems(2) unstaged by auto
      from Cons.IH[OF Cons.prems(1) this, of ret succ] show ?thesis
        unfolding eq using None unstaged item by (auto split: prod.splits)
    next
      case (Some staged)
      obtain b st1 where cl: "check_lock (os_write_lock staged) st = (b, st1)" by (cases "check_lock (os_write_lock staged) st")
      have st1: "l1_inv minv live extra st1" "get_staging st1 = get_staging st"
        using check_lock_inv(1)[of minv live extra "os_write_lock staged" st] check_lock_inv(5)[of "os_write_lock staged" st]
          cl Cons.prems(1) by simp_all
      define now where "now = fst (tick st1)"
      define w where "w = staged\<lparr>os_write_lock := ttl_acquire now (os_write_lock staged), os_is_temporary := is_temp\<rparr>"
      define st3 where "st3 = set_staging key tag w (snd (tick st1))"
      have "l1_inv minv live extra st3"
        unfolding st3_def by (rule staging_touch) (use st1 Some in \<open>simp_all add: tick_inv w_def\<close>)
      moreover have "\<forall>k \<in> set (dict_keys need). get_staging st3 k tag = None"
        using Cons.prems(2) Some st1(2) by (auto simp: st3_def tick_inv)
      ultimately have 3: "case reserve_write_scan tag items r s need st3 of (ret', succ', need', st') \<Rightarrow>
        l1_inv minv live extra st' \<and> (\<forall>k \<in> set (dict_keys need'). get_staging st' k tag = None) \<and>
        (distinct (dict_keys need @ dict_keys items) \<longrightarrow> distinct (dict_keys need'))" for r s
        by (rule Cons.IH)
      have 1: "case reserve_write_scan tag items r s need st1 of (ret', succ', need', st') \<Rightarrow>
        l1_inv minv live extra st' \<and> (\<forall>k \<in> set (dict_keys need'). get_staging st' k tag = None) \<and>
        (distinct (dict_keys need @ dict_keys items) \<longrightarrow> distinct (dict_keys need'))" for r s
        by (rule Cons.IH) (use st1 Cons.prems(2) in simp_all)
      show ?thesis
        using 1[of "AList.update key (KEY_NOT_WRITABLE, None) ret" succ]
          3[of "AList.update key (SUCCESS, Some (os_memory_obj staged)) ret" "succ @ [key]"] item
        unfolding eq by (cases b) (auto simp: None Some cl case_prod_beta Let_def now_def w_def st3_def)
    qed
  qed
qed simp

lemma objects_delete_list:
  assumes "l1_inv minv live extra st" and "distinct (dict_keys its)" and "set its \<subseteq> set (l1_objects st)"
  shows "l1_inv minv live (extra @ map os_memory_obj (dict_values its))
    (st\<lparr>l1_objects := fold AList.delete (dict_keys its) (l1_objects st)\<rparr>)"
  using assms
proof (induction its arbitrary: extra st)
  case (Cons it its)
  obtain k e where it: "it = (k, e)" by (cases it)
  have "map_of (l1_objects st) k = Some e"
    using Cons.prems(3) it l1_invD(4)[OF Cons.prems(1)] by (simp add: dict_get_Some_iff)
  from objects_delete[OF Cons.prems(1) this]
  have 1: "l1_inv minv live (extra @ [os_memory_obj e]) (st\<lparr>l1_objects := AList.delete k (l1_objects st)\<rparr>)" .
  have "set its \<subseteq> set (AList.delete k (l1_objects st))"
    using Cons.prems(2,3) it by (auto simp: AList.delete_eq image_iff)
  then show ?case
    using Cons.IH[OF 1] Cons.prems(2) it by simp
qed simp

lemma clear_scan_spec:
  "\<exists>its. clear_scan items keys objs st = (keys @ dict_keys its, objs @ map os_memory_obj (dict_values its),
      st\<lparr>l1_ticks := l1_ticks st + length items\<rparr>) \<and>
    subseq its items \<and>
    (\<forall>(k, e) \<in> set its. \<exists>i \<ge> l1_ticks st. \<not> ttl_is_locked (l1_clock st i) (os_read_lock e))"
proof (induction items arbitrary: keys objs st)
  case Nil
  show ?case by (rule exI[of _ "[]"]) simp
next
  case (Cons item items)
  obtain k e where item: "item = (k, e)" by (cases item)
  let ?st1 = "st\<lparr>l1_ticks := Suc (l1_ticks st)\<rparr>"
  let ?b = "ttl_is_locked (l1_clock st (l1_ticks st)) (os_read_lock e)"
  have cl: "check_lock (os_read_lock e) st = (?b, ?st1)" by (simp add: check_lock_def tick_def)
  show ?case
  proof (cases ?b)
    case True
    from Cons.IH[of keys objs ?st1] obtain its where its:
      "clear_scan items keys objs ?st1 = (keys @ dict_keys its, objs @ map os_memory_obj (dict_values its),
        ?st1\<lparr>l1_ticks := l1_ticks ?st1 + length items\<rparr>)" "subseq its items"
      "\<forall>(k, e) \<in> set its. \<exists>i \<ge> l1_ticks ?st1. \<not> ttl_is_locked (l1_clock ?st1 i) (os_read_lock e)" by blast
    have "\<forall>(k, e) \<in> set its. \<exists>i \<ge> l1_ticks st. \<not> ttl_is_locked (l1_clock st i) (os_read_lock e)"
      using its(3) Suc_leD by fastforce
    moreover have "subseq its (item # items)" using its(2) by (rule list_emb_Cons)
    moreover have "clear_scan (item # items) keys objs st = clear_scan items keys objs ?st1"
      using True by (simp add: item cl)
    ultimately show ?thesis unfolding its(1) by (intro exI[of _ its]) simp
  next
    case False
    from Cons.IH[of "keys @ [k]" "objs @ [os_memory_obj e]" ?st1] obtain its where its:
      "clear_scan items (keys @ [k]) (objs @ [os_memory_obj e]) ?st1 = ((keys @ [k]) @ dict_keys its,
        (objs @ [os_memory_obj e]) @ map os_memory_obj (dict_values its),
        ?st1\<lparr>l1_ticks := l1_ticks ?st1 + length items\<rparr>)" "subseq its items"
      "\<forall>(k, e) \<in> set its. \<exists>i \<ge> l1_ticks ?st1. \<not> ttl_is_locked (l1_clock ?st1 i) (os_read_lock e)" by blast
    have "\<forall>(k, e) \<in> set its. \<exists>i \<ge> l1_ticks st. \<not> ttl_is_locked (l1_clock st i) (os_read_lock e)"
      using its(3) Suc_leD by fastforce
    then have "\<forall>(k, e) \<in> set ((k, e) # its). \<exists>i \<ge> l1_ticks st. \<not> ttl_is_locked (l1_clock st i) (os_read_lock e)"
      using False by auto
    moreover have "clear_scan (item # items) keys objs st = clear_scan items (keys @ [k]) (objs @ [os_memory_obj e]) ?st1"
      using False by (simp add: item cl)
    ultimately show ?thesis unfolding its(1) using its(2) by (intro exI[of _ "(k, e) # its"]) (simp add: item)
  qed
qed

lemma subseq_dict:
  assumes "subseq its d" and "dict_ok d"
  shows "dict_ok its" and "set its \<subseteq> set d"
proof -
  obtain N where N: "its = nths d N" using assms(1) by (auto simp: subseq_conv_nths)
  show "dict_ok its" unfolding N nths_map[symmetric] using assms(2) by (rule distinct_nthsI)
  show "set its \<subseteq> set d" unfolding N by (rule set_nths_subset)
qed

lemma objects_clear:
  assumes "l1_inv minv live [] st"
  shows "l1_inv minv live (map os_memory_obj (dict_values (l1_objects st))) (st\<lparr>l1_objects := []\<rparr>)"
proof -
  have "mset (all_objs (st\<lparr>l1_objects := []\<rparr>) @ map os_memory_obj (dict_values (l1_objects st))) = mset (all_objs st @ [])"
    by (simp add: all_objs_eq staged_entries_def)
  from owns_mset_cong[OF this, of live] show ?thesis
    using assms by (simp add: l1_inv_def tables_ok_def staged_entries_def)
qed

context memory_manager
begin

lemma mem_free_inv:
  assumes inv: "l1_inv minv live (extra @ objs) st"
  shows "ensures (mem_free ops objs st) (\<lambda>st'. l1_inv minv live extra st' \<and> (\<exists>m. st' = st\<lparr>l1_mem := m\<rparr>))"
proof -
  have own: "distinct (all_objs st @ extra @ objs)" "set (all_objs st @ extra @ objs) = live (l1_mem st)"
    using l1_invD(3)[OF inv] by (simp_all add: owns_def)
  then have "set objs \<subseteq> live (l1_mem st)" by auto
  from free_law[OF l1_invD(1)[OF inv] this] obtain m where
    m: "mm_free ops (l1_mem st) objs = Inr (SUCCESS, m)" "minv m" "live m = live (l1_mem st) - set objs" by blast
  have "all_objs (st\<lparr>l1_mem := m\<rparr>) = all_objs st" by (simp add: all_objs_def)
  moreover have "live m = set (all_objs st @ extra)" using own m(3) by auto
  moreover have "distinct (all_objs st @ extra)" using own(1) by auto
  ultimately have "l1_inv minv live extra (st\<lparr>l1_mem := m\<rparr>)"
    using inv m(2) by (simp add: l1_inv_def owns_def tables_ok_def staged_entries_def)
  with m(1) show ?thesis by (auto simp: mem_free_def)
qed

lemma reclaim_staging_inv:
  assumes inv: "l1_inv minv live extra st"
  shows "ensures (reclaim_staging ops k force st) (\<lambda>(_, st'). l1_inv minv live extra st' \<and> l1_objects st' = l1_objects st \<and>
    (\<forall>k'. k' \<noteq> k \<longrightarrow> (map_of (l1_staging st') k' = None) = (map_of (l1_staging st) k' = None)) \<and>
    (force \<longrightarrow> map_of (l1_staging st') k = None))"
proof (cases "map_of (l1_staging st) k")
  case None
  with inv show ?thesis by (simp add: reclaim_staging_def)
next
  case (Some d)
  note d = l1_invD(6)[OF inv Some]
  have "ensures (reclaim_loop k force d [] st) (\<lambda>(freed', st'). l1_inv minv live (extra @ freed') st' \<and>
    l1_objects st' = l1_objects st \<and> (\<forall>k' tag. k' \<noteq> k \<longrightarrow> get_staging st' k' tag = get_staging st k' tag) \<and>
    (\<forall>tag. tag \<notin> set (dict_keys d) \<longrightarrow> get_staging st' k tag = get_staging st k tag) \<and>
    (force \<longrightarrow> (\<forall>tag \<in> set (dict_keys d). get_staging st' k tag = None)))"
    by (rule reclaim_loop_inv) (use inv d Some in \<open>simp_all add: get_staging_def\<close>)
  then obtain freed st1 where loop: "reclaim_loop k force d [] st = Inr (freed, st1)"
    and st1: "l1_inv minv live (extra @ freed) st1" "l1_objects st1 = l1_objects st"
      "\<And>k' tag. k' \<noteq> k \<Longrightarrow> get_staging st1 k' tag = get_staging st k' tag"
      "\<And>tag. tag \<notin> set (dict_keys d) \<Longrightarrow> get_staging st1 k tag = get_staging st k tag"
      "force \<Longrightarrow> (\<forall>tag \<in> set (dict_keys d). get_staging st1 k tag = None)"
    by (elim ensuresE) auto
  have none: "(map_of (l1_staging st1) k' = None) = (map_of (l1_staging st) k' = None)" if "k' \<noteq> k" for k'
    using st1(3)[OF that] staging_None_iff[OF st1(1), of k'] staging_None_iff[OF inv, of k'] by simp
  have "get_staging st k tag = None" if "tag \<notin> set (dict_keys d)" for tag
    using that Some dict_get_None_iff[of d tag] by (simp add: get_staging_def)
  then have gone: "map_of (l1_staging st1) k = None" if force
    using st1(4) st1(5)[OF that] staging_None_iff[OF st1(1), of k] by metis
  from mem_free_inv[OF st1(1)] show ?thesis
    using Some loop st1(2) none gone by (auto simp: reclaim_staging_def elim!: ensuresE)
qed

lemma l1_inv_mem:
  assumes "l1_inv minv live extra st" "minv m" "live m = live (l1_mem st)"
  shows "l1_inv minv live extra (st\<lparr>l1_mem := m\<rparr>)"
  using assms by (simp add: l1_inv_def owns_def all_objs_def tables_ok_def staged_entries_def)

lemma reserve_write_stage_inv:
  assumes "l1_inv minv live (extra @ map snd items) st" and "distinct (map (fst \<circ> fst) items)"
    and "\<forall>k \<in> set (map (fst \<circ> fst) items). get_staging st k tag = None"
    and "\<forall>i \<in> set (map snd items). owner (l1_mem st) i = None"
  shows "ensures (reserve_write_stage ops tag items ret succ st) (\<lambda>(ret', succ', st'). l1_inv minv live extra st')"
  using assms
proof (induction items arbitrary: ret succ st)
  case (Cons item items)
  obtain key is_temp i where item: "item = ((key, is_temp), i)" by (metis surj_pair)
  have own: "distinct (i # map snd items)" "i \<in> live (l1_mem st)" "owner (l1_mem st) i = None"
    using l1_invD(3)[OF Cons.prems(1)] Cons.prems(4) item by (auto simp: owns_def)
  from set_owner_law[OF l1_invD(1)[OF Cons.prems(1)] own(2,3), of "l1_manager_id st"] obtain m where
    m: "mm_set_l1_manager ops (l1_mem st) i (l1_manager_id st) = Inr m" "minv m" "live m = live (l1_mem st)"
      "\<And>j. j \<noteq> i \<Longrightarrow> owner m j = owner (l1_mem st) j" by blast
  define st0 where "st0 = st\<lparr>l1_mem := m\<rparr>"
  define e where "e = \<lparr>os_memory_obj = i, os_write_lock = ttl_acquire (fst (tick st0)) (ttl_new (l1_write_ttl_seconds st)),
    os_read_lock = ttl_new (l1_read_ttl_seconds st), os_is_temporary = is_temp, os_staging_charge = 0\<rparr>"
  define st1 where "st1 = put_staging ops key tag e (snd (tick st0))"
  have "mset (extra @ map snd (item # items)) = mset ((extra @ map snd items) @ [os_memory_obj e])"
    using item by (simp add: e_def)
  from l1_inv_extra[OF this Cons.prems(1)] m(2,3)
  have 0: "l1_inv minv live ((extra @ map snd items) @ [os_memory_obj e]) (snd (tick st0))"
    unfolding tick_inv st0_def by (rule l1_inv_mem)
  have un: "get_staging (snd (tick st0)) k tag = get_staging st k tag" for k
    by (simp add: tick_inv st0_def get_staging_def)
  have 1: "l1_inv minv live (extra @ map snd items) st1"
    unfolding st1_def by (rule put_staging_inv[OF 0]) (use Cons.prems(3) item un in simp)
  have 2: "distinct (map (fst \<circ> fst) items)" using Cons.prems(2) by (simp add: comp_def)
  have 3: "\<forall>k \<in> set (map (fst \<circ> fst) items). get_staging st1 k tag = None"
    using Cons.prems(2,3) item un by (auto simp: st1_def put_staging_def Let_def get_staging_def set_staging_def)
  have 4: "\<forall>i \<in> set (map snd items). owner (l1_mem st1) i = None"
  proof
    fix j assume j: "j \<in> set (map snd items)"
    with own(1) have "j \<noteq> i" by auto
    moreover have "owner (l1_mem st) j = None" using Cons.prems(4) j by auto
    ultimately have "owner m j = None" using m(4) by simp
    then show "owner (l1_mem st1) j = None" by (simp add: st1_def put_staging_def Let_def st0_def tick_inv)
  qed
  show ?case
    using Cons.IH[OF 1 2 3 4, of "AList.update key (SUCCESS, Some i) ret" "succ @ [key]"] m(1)
    by (simp add: item case_prod_beta Let_def st1_def e_def st0_def)
qed simp

section \<open>Operations\<close>

lemma reserve_read_inv: "l1_inv minv live extra st \<Longrightarrow> l1_inv minv live extra (snd (reserve_read keys n st))"
  using reserve_read_loop_inv[of minv live extra st "nat (validate_read_locks n)" keys "[]" "[]"]
  by (simp add: reserve_read_def case_prod_beta Let_def)

lemma unsafe_read_inv: "l1_inv minv live extra st \<Longrightarrow> l1_inv minv live extra (snd (unsafe_read keys st))"
  using unsafe_read_loop_inv[of minv live extra st keys "[]"] by (simp add: unsafe_read_def case_prod_beta)

lemma finish_read_inv:
  assumes "l1_inv minv live [] st"
  shows "ensures (finish_read ops keys n st) (\<lambda>(_, st'). l1_inv minv live [] st')"
proof -
  obtain fa st1 where loop: "finish_read_loop (nat (validate_read_locks n)) keys
      \<lparr>fa_ret = [], fa_successful_keys = [], fa_need_to_free = [], fa_need_to_free_keys = []\<rparr> st = (fa, st1)"
    by (metis surj_pair)
  have "l1_inv minv live ([] @ fa_need_to_free fa) st1"
    using finish_read_loop_inv[of minv live "\<lparr>fa_ret = [], fa_successful_keys = [], fa_need_to_free = [],
      fa_need_to_free_keys = []\<rparr>" st "nat (validate_read_locks n)" keys] assms loop by simp
  from mem_free_inv[OF this] show ?thesis
    unfolding finish_read_def loop Let_def prod.case by (rule ensures_bind) simp
qed

lemma reserve_write_inv:
  assumes inv: "l1_inv minv live [] st" and dist: "distinct keys" and len: "length keys = length is_temporary"
    and lay: "layout_ok layout"
  shows "ensures (reserve_write ops keys is_temporary layout tag st) (\<lambda>(_, st'). l1_inv minv live [] st')"
proof -
  obtain ret succ need st1 where scan: "reserve_write_scan tag (zip keys is_temporary) [] [] [] st = (ret, succ, need, st1)"
    by (metis surj_pair)
  have st1: "l1_inv minv live [] st1" "\<forall>k \<in> set (dict_keys need). get_staging st1 k tag = None" "distinct (dict_keys need)"
    using reserve_write_scan_inv[OF inv, of "[]" tag "zip keys is_temporary" "[]" "[]"] scan dist len by simp_all
  from allocate_law[OF l1_invD(1)[OF st1(1)] lay, of "int (length need)"] obtain err ids m where
    al: "mm_allocate ops (l1_mem st1) layout (int (length need)) = Inr ((err, ids), m)" and m: "minv m" and
    ids: "if err = SUCCESS then int (length ids) = int (length need) \<and> distinct ids \<and> set ids \<inter> live (l1_mem st1) = {} \<and>
               live m = live (l1_mem st1) \<union> set ids \<and> (\<forall>i \<in> set ids. owner m i = None)
          else err = OUT_OF_MEMORY \<and> ids = [] \<and> live m = live (l1_mem st1)"
    by (metis of_nat_0_le_iff)
  note eq = reserve_write_def[of ops keys is_temporary layout tag st, unfolded scan Let_def prod.case al sum.case]
  show ?thesis
  proof (cases "need = [] \<or> err \<noteq> SUCCESS")
    case True
    then show ?thesis unfolding eq using len st1(1) l1_inv_mem[OF st1(1) m] ids by auto
  next
    case False
    then have len': "length need = length ids" and zip: "map snd (zip need ids) = ids" "map (fst \<circ> fst) (zip need ids) = dict_keys need"
      using ids by (simp_all flip: map_map)
    have "all_objs (st1\<lparr>l1_mem := m\<rparr>) = all_objs st1" by (simp add: all_objs_def)
    then have "l1_inv minv live ([] @ map snd (zip need ids)) (st1\<lparr>l1_mem := m\<rparr>)"
      using st1(1) m ids False zip by (auto simp: l1_inv_def owns_def tables_ok_def staged_entries_def)
    then have "ensures (reserve_write_stage ops tag (zip need ids) ret succ (st1\<lparr>l1_mem := m\<rparr>)) (\<lambda>(_, _, st'). l1_inv minv live [] st')"
      by (rule reserve_write_stage_inv) (use zip st1 ids False in \<open>auto simp: get_staging_def\<close>)
    with False len len' show ?thesis unfolding eq by (auto elim!: ensuresE)
  qed
qed

lemma finish_write_loop_inv:
  assumes "l1_inv minv live (wa_discarded wa) st"
  shows "ensures (finish_write_loop ops tag keys wa st) (\<lambda>(wa', st'). l1_inv minv live (wa_discarded wa') st')"
  using assms
proof (induction keys arbitrary: wa st)
  case (Cons key keys)
  from take_staging_inv[OF Cons.prems, of key tag] show ?case
  proof (elim ensuresE, clarify)
    fix err taken st1
    assume t: "take_staging key tag st = Inr ((err, taken), st1)"
      and i: "case taken of None \<Rightarrow> l1_inv minv live (wa_discarded wa) st1
        | Some e \<Rightarrow> err = SUCCESS \<and> l1_inv minv live (wa_discarded wa @ [os_memory_obj e]) st1"
    show ?thesis
    proof (cases taken)
      case None
      with t i Cons.IH show ?thesis by simp
    next
      case (Some e)
      show ?thesis
      proof (cases "map_of (l1_objects st1) key")
        case resident: None
        have "l1_inv minv live (wa_discarded wa) (st1\<lparr>l1_objects := AList.update key e (l1_objects st1)\<rparr>)"
          by (rule objects_insert) (use i Some resident in simp_all)
        with t Some resident Cons.IH show ?thesis by (simp add: Let_def)
      next
        case resident: (Some r)
        with t i Some Cons.IH show ?thesis by simp
      qed
    qed
  qed
qed simp

lemma finish_write_inv:
  assumes "l1_inv minv live [] st"
  shows "ensures (finish_write ops keys tag st) (\<lambda>(_, st'). l1_inv minv live [] st')"
proof -
  have "ensures (finish_write_loop ops tag keys wa_empty st) (\<lambda>(wa', st'). l1_inv minv live ([] @ wa_discarded wa') st')"
    using finish_write_loop_inv[of wa_empty st tag keys] assms by (simp add: wa_empty_def)
  then show ?thesis
    unfolding finish_write_def
    by (rule ensures_bind, clarify) (rule ensures_bind, rule mem_free_inv, auto)
qed

lemma finish_write_and_reserve_read_loop_inv:
  assumes "l1_inv minv live (wa_discarded wa) st"
  shows "ensures (finish_write_and_reserve_read_loop ops n tag keys wa st) (\<lambda>(wa', st'). l1_inv minv live (wa_discarded wa') st')"
  using assms
proof (induction keys arbitrary: wa st)
  case (Cons key keys)
  from take_staging_inv[OF Cons.prems, of key tag] show ?case
  proof (elim ensuresE, clarify)
    fix err taken st1
    assume t: "take_staging key tag st = Inr ((err, taken), st1)"
      and i: "case taken of None \<Rightarrow> l1_inv minv live (wa_discarded wa) st1
        | Some e \<Rightarrow> err = SUCCESS \<and> l1_inv minv live (wa_discarded wa @ [os_memory_obj e]) st1"
    show ?thesis
    proof (cases taken)
      case None
      with t i Cons.IH show ?thesis by simp
    next
      case (Some e)
      have ins: "l1_inv minv live (wa_discarded wa) (snd (lock_times n (os_read_lock e) st1)\<lparr>l1_objects :=
          AList.update key (e\<lparr>os_read_lock := lk\<rparr>) (l1_objects st1)\<rparr>)" if "map_of (l1_objects st1) key = None" for lk
        using objects_insert[of minv live "wa_discarded wa" "e\<lparr>os_read_lock := lk\<rparr>" "snd (lock_times n (os_read_lock e) st1)" key]
          lock_times_inv[of minv live "wa_discarded wa @ [os_memory_obj e]" n "os_read_lock e" st1] i Some that by simp
      have tch: "l1_inv minv live (wa_discarded wa @ [os_memory_obj e]) (snd (lock_times n (os_read_lock r) st1)\<lparr>l1_objects :=
          AList.update key (r\<lparr>os_read_lock := lk\<rparr>) (l1_objects st1)\<rparr>)" if "map_of (l1_objects st1) key = Some r" for r lk
        using objects_touch[of minv live "wa_discarded wa @ [os_memory_obj e]" "snd (lock_times n (os_read_lock r) st1)" key r
            "r\<lparr>os_read_lock := lk\<rparr>"]
          lock_times_inv[of minv live "wa_discarded wa @ [os_memory_obj e]" n "os_read_lock r" st1] i Some that by simp
      show ?thesis
        using t Some Cons.IH ins tch
          lock_times_inv[of minv live "wa_discarded wa" n _ st1]
        by (cases "map_of (l1_objects st1) key") (simp_all add: Let_def case_prod_beta)
    qed
  qed
qed simp

lemma finish_write_and_reserve_read_inv:
  assumes "l1_inv minv live [] st"
  shows "ensures (finish_write_and_reserve_read ops keys n tag st) (\<lambda>(_, st'). l1_inv minv live [] st')"
proof -
  have "ensures (finish_write_and_reserve_read_loop ops (nat (validate_read_locks n)) tag keys wa_empty st)
      (\<lambda>(wa', st'). l1_inv minv live ([] @ wa_discarded wa') st')"
    using finish_write_and_reserve_read_loop_inv[of wa_empty st "nat (validate_read_locks n)" tag keys] assms
    by (simp add: wa_empty_def)
  then show ?thesis
    unfolding finish_write_and_reserve_read_def
    by (rule ensures_bind, clarify) (rule ensures_bind, rule mem_free_inv, auto simp: Let_def)
qed

lemma finish_write_and_delete_loop_inv:
  assumes "l1_inv minv live (wa_discarded wa) st"
  shows "ensures (finish_write_and_delete_loop tag keys wa st) (\<lambda>(wa', st'). l1_inv minv live (wa_discarded wa') st')"
  using assms
proof (induction keys arbitrary: wa st)
  case (Cons key keys)
  from take_staging_inv[OF Cons.prems, of key tag] show ?case
  proof (elim ensuresE, clarify)
    fix err taken st1
    assume t: "take_staging key tag st = Inr ((err, taken), st1)"
      and i: "case taken of None \<Rightarrow> l1_inv minv live (wa_discarded wa) st1
        | Some e \<Rightarrow> err = SUCCESS \<and> l1_inv minv live (wa_discarded wa @ [os_memory_obj e]) st1"
    show ?thesis
      using t i Cons.IH by (cases taken) (simp_all add: Let_def)
  qed
qed simp

lemma finish_write_and_delete_inv:
  assumes "l1_inv minv live [] st"
  shows "ensures (finish_write_and_delete ops keys tag st) (\<lambda>(_, st'). l1_inv minv live [] st')"
proof -
  have "ensures (finish_write_and_delete_loop tag keys wa_empty st) (\<lambda>(wa', st'). l1_inv minv live ([] @ wa_discarded wa') st')"
    using finish_write_and_delete_loop_inv[of wa_empty st tag keys] assms by (simp add: wa_empty_def)
  then show ?thesis
    unfolding finish_write_and_delete_def
    by (rule ensures_bind, clarify) (rule ensures_bind, rule mem_free_inv, auto)
qed

lemma delete_loop_inv:
  assumes "l1_inv minv live (da_need_to_free da) st"
  shows "ensures (delete_loop ops force keys da st) (\<lambda>(da', st'). l1_inv minv live (da_need_to_free da') st')"
  using assms
proof (induction keys arbitrary: da st)
  case (Cons key keys)
  from reclaim_staging_inv[OF Cons.prems, of key force] obtain n st1 where
    rc: "reclaim_staging ops key force st = Inr (n, st1)" and
    st1: "l1_inv minv live (da_need_to_free da) st1" "l1_objects st1 = l1_objects st"
    by (elim ensuresE) auto
  show ?case
  proof (cases "map_of (l1_objects st) key")
    case None
    then show ?thesis using Cons rc st1 by (simp add: Let_def)
  next
    case (Some e)
    obtain b st2 where cl: "check_lock (os_read_lock e) st1 = (b, st2)" by (cases "check_lock (os_read_lock e) st1")
    have st2: "l1_inv minv live (da_need_to_free da) st2" "map_of (l1_objects st2) key = Some e"
      using check_lock_inv(1)[of minv live "da_need_to_free da" "os_read_lock e" st1]
        check_lock_inv(2)[of "os_read_lock e" st1] cl st1 Some by simp_all
    note del = objects_delete[OF this]
    show ?thesis
      using Cons.IH rc st1 Some cl st2(1) del by (cases b; cases force) (simp_all add: Let_def)
  qed
qed simp

lemma free_and_report_deleted_inv:
  assumes "l1_inv minv live objs st"
  shows "ensures (free_and_report_deleted ops keys objs st)
    (\<lambda>st'. l1_inv minv live [] st' \<and> l1_objects st' = l1_objects st \<and> l1_staging st' = l1_staging st)"
proof -
  have "ensures (mem_free ops objs st) (\<lambda>st'. l1_inv minv live [] st' \<and> (\<exists>m. st' = st\<lparr>l1_mem := m\<rparr>))"
    by (rule mem_free_inv) (use assms in simp)
  then show ?thesis
    unfolding free_and_report_deleted_def Let_def by (rule ensures_bind) (auto simp: report_def)
qed

lemma delete_inv:
  assumes "l1_inv minv live [] st"
  shows "ensures (delete_keys ops keys force st) (\<lambda>(_, st'). l1_inv minv live [] st')"
proof -
  have "ensures (delete_loop ops force keys
      \<lparr>da_ret = [], da_need_to_free = [], da_successful_keys = [], da_gone_keys = []\<rparr> st)
      (\<lambda>(da', st'). l1_inv minv live (da_need_to_free da') st')"
    by (rule delete_loop_inv) (use assms in simp)
  then show ?thesis
    unfolding delete_keys_def
    by (rule ensures_bind, clarify) (rule ensures_bind, erule free_and_report_deleted_inv, auto)
qed

lemma reclaim_keys_inv:
  assumes "l1_inv minv live [] st"
  shows "ensures (reclaim_keys ops force keys gone st) (\<lambda>(_, st'). l1_inv minv live [] st' \<and> l1_objects st' = l1_objects st \<and>
    (force \<longrightarrow> (\<forall>k. k \<in> set keys \<or> map_of (l1_staging st) k = None \<longrightarrow> map_of (l1_staging st') k = None)))"
  using assms
proof (induction keys arbitrary: gone st)
  case (Cons key keys)
  from reclaim_staging_inv[OF Cons.prems, of key force] obtain n st1 where
    rc: "reclaim_staging ops key force st = Inr (n, st1)" and
    st1: "l1_inv minv live [] st1" "l1_objects st1 = l1_objects st"
      "\<forall>k'. k' \<noteq> key \<longrightarrow> (map_of (l1_staging st1) k' = None) = (map_of (l1_staging st) k' = None)"
      "force \<longrightarrow> map_of (l1_staging st1) key = None"
    by (elim ensuresE) auto
  define gone' where "gone' = (if n > 0 \<and> map_of (l1_staging st1) key = None \<and> map_of (l1_objects st1) key = None
    then gone @ [key] else gone)"
  have eq: "reclaim_keys ops force (key # keys) gone st = reclaim_keys ops force keys gone' st1"
    by (simp add: rc gone'_def)
  from Cons.IH[OF st1(1), of gone'] obtain g st' where
    r: "reclaim_keys ops force keys gone' st1 = Inr (g, st')" "l1_inv minv live [] st'" "l1_objects st' = l1_objects st1"
      "force \<longrightarrow> (\<forall>k. k \<in> set keys \<or> map_of (l1_staging st1) k = None \<longrightarrow> map_of (l1_staging st') k = None)"
    by (elim ensuresE) auto
  have "map_of (l1_staging st') k = None" if "force" "k \<in> set (key # keys) \<or> map_of (l1_staging st) k = None" for k
    using r(4) that st1(3,4) by (cases "k = key") auto
  with r st1(2) show ?case unfolding eq by simp
qed simp

lemma mem_free_objects:
  "mem_free ops objs (st\<lparr>l1_objects := os\<rparr>) = Inr st' \<Longrightarrow>
     mem_free ops objs st = Inr (st'\<lparr>l1_objects := l1_objects st\<rparr>)"
  by (auto simp: mem_free_def split: sum.splits)

lemma clear_all_inv:
  assumes "l1_inv minv live [] st"
  shows "ensures (clear_all ops st) (\<lambda>st'. l1_inv minv live [] st' \<and> l1_objects st' = [] \<and> l1_staging st' = [])"
proof -
  let ?objs = "map os_memory_obj (dict_values (l1_objects st))"
  have "l1_inv minv live ([] @ ?objs) (st\<lparr>l1_objects := []\<rparr>)" using objects_clear[OF assms] by simp
  from mem_free_inv[OF this] obtain st1 where 1: "mem_free ops ?objs (st\<lparr>l1_objects := []\<rparr>) = Inr st1"
    "l1_inv minv live [] st1" "l1_objects st1 = []" by (elim ensuresE) auto
  define st2 where "st2 = report [On_deleted_by_manager (dict_keys (l1_objects st)),
    L1_KEYS_EVICTED (dict_keys (l1_objects st)) (map (object_meta ops st) ?objs)] st1"
  have st2: "l1_inv minv live [] st2" "l1_objects st2 = []" using 1 by (simp_all add: st2_def report_def)
  have eq: "(st1\<lparr>l1_objects := l1_objects st\<rparr>)\<lparr>l1_objects := []\<rparr> = st1" using 1(3) by simp
  from reclaim_keys_inv[OF st2(1), of True "dict_keys (l1_staging st2)" "[]"] obtain g st3 where
    3: "reclaim_keys ops True (dict_keys (l1_staging st2)) [] st2 = Inr (g, st3)" "l1_inv minv live [] st3"
      "l1_objects st3 = []" "\<And>k. map_of (l1_staging st3) k = None"
    using st2(2) by (elim ensuresE) (auto simp: dict_get_None_iff)
  have "l1_staging st3 = []"
  proof (cases "l1_staging st3")
    case (Cons p d)
    then show ?thesis using 3(4)[of "fst p"] by (cases p) simp
  qed
  with 3 show ?thesis
    unfolding clear_all_def Let_def mem_free_objects[OF 1(1)] sum.case eq st2_def[symmetric]
    by (simp add: report_staging_gone_def report_def)
qed

lemma clear_unlocked_inv:
  assumes inv: "l1_inv minv live [] st"
  shows "ensures (clear_unlocked ops st) (\<lambda>st'. l1_inv minv live [] st')"
proof -
  obtain its st1 where sc: "clear_scan (l1_objects st) [] [] st = (dict_keys its, map os_memory_obj (dict_values its), st1)"
    and st1: "l1_inv minv live [] st1" "l1_objects st1 = l1_objects st" and its: "subseq its (l1_objects st)"
    using clear_scan_spec[of "l1_objects st" "[]" "[]" st] inv by auto
  have d: "distinct (dict_keys its)" "set its \<subseteq> set (l1_objects st1)"
    using subseq_dict[OF its l1_invD(4)[OF inv]] st1(2) by simp_all
  define st2 where "st2 = st1\<lparr>l1_objects := fold AList.delete (dict_keys its) (l1_objects st1)\<rparr>"
  have 2: "l1_inv minv live (map os_memory_obj (dict_values its)) st2"
    using objects_delete_list[OF st1(1) d] by (simp add: st2_def)
  have 3: "ensures (if dict_keys its = [] then Inr st2 else free_and_report_deleted ops (dict_keys its) (map os_memory_obj (dict_values its)) st2)
    (\<lambda>st'. l1_inv minv live [] st')"
    using 2 free_and_report_deleted_inv[OF 2, of "dict_keys its"] by (auto elim!: ensures_mono)
  show ?thesis
    unfolding clear_unlocked_def sc Let_def prod.case st2_def[symmetric]
    by (rule ensures_bind[OF 3], rule ensures_bind, erule reclaim_keys_inv) auto
qed

lemma close_inv:
  assumes inv: "l1_inv minv live [] st"
  shows "ensures (close_l1 ops st) (\<lambda>st'. l1_inv minv live [] st' \<and> live (l1_mem st') = {})"
proof -
  have "l1_inv minv live ([] @ all_objs st) (st\<lparr>l1_objects := [], l1_staging := [], l1_staging_bytes := 0\<rparr>)"
    using inv by (auto simp: l1_inv_def owns_def tables_ok_def staged_entries_def all_objs_def)
  from mem_free_inv[OF this] obtain m where
    1: "mem_free ops (all_objs st) (st\<lparr>l1_objects := [], l1_staging := [], l1_staging_bytes := 0\<rparr>) =
          Inr (st\<lparr>l1_objects := [], l1_staging := [], l1_staging_bytes := 0, l1_mem := m\<rparr>)"
    and 2: "l1_inv minv live [] (st\<lparr>l1_objects := [], l1_staging := [], l1_staging_bytes := 0, l1_mem := m\<rparr>)"
    by (elim ensuresE) auto
  have "mem_free ops (all_objs st) st = Inr (st\<lparr>l1_mem := m\<rparr>)"
    using arg_cong[OF 1, of "map_sum id l1_mem"] by (auto simp: mem_free_def split: sum.splits)
  with 2 show ?thesis
    by (simp add: close_l1_def l1_inv_def owns_def tables_ok_def staged_entries_def all_objs_def)
qed

end

end
