(* ===== verification/L1_Protection.thy ===== *)
theory L1_Protection
  imports L1_Operations
begin

text \<open>
  What a read reservation guarantees: as long as fewer locks have been released on a resident object
  than it holds, and none of its locks has expired, no operation short of a forced delete, a forced
  clear or shutdown removes it or replaces its memory object.
\<close>

section \<open>Sequences of calls\<close>

datatype 'k l1_op =
    Reserve_read "'k list" int
  | Unsafe_read "'k list"
  | Finish_read "'k list" int
  | Reserve_write "'k list" "bool list" memory_layout_desc string
  | Finish_write "'k list" string
  | Finish_write_and_reserve_read "'k list" int string
  | Finish_write_and_delete "'k list" string
  | Delete "'k list" bool
  | Touch_keys bool "'k list"
  | Clear bool
  | Is_key_evictable 'k
  | Report_status
  | Close

definition drop_value :: "('a \<times> 'b) result \<Rightarrow> 'b result" where
  "drop_value r = (case r of Inl e \<Rightarrow> Inl e | Inr x \<Rightarrow> Inr (snd x))"

fun l1_step :: "'m mem_ops \<Rightarrow> 'k l1_op \<Rightarrow> ('k, 'm) l1_manager \<Rightarrow> ('k, 'm) l1_manager result" where
  "l1_step ops (Reserve_read keys n) st = Inr (snd (reserve_read keys n st))"
| "l1_step ops (Unsafe_read keys) st = Inr (snd (unsafe_read keys st))"
| "l1_step ops (Finish_read keys n) st = drop_value (finish_read ops keys n st)"
| "l1_step ops (Reserve_write keys temps layout tag) st = drop_value (reserve_write ops keys temps layout tag st)"
| "l1_step ops (Finish_write keys tag) st = drop_value (finish_write ops keys tag st)"
| "l1_step ops (Finish_write_and_reserve_read keys n tag) st = drop_value (finish_write_and_reserve_read ops keys n tag st)"
| "l1_step ops (Finish_write_and_delete keys tag) st = drop_value (finish_write_and_delete ops keys tag st)"
| "l1_step ops (Delete keys force) st = drop_value (delete_keys ops keys force st)"
| "l1_step ops (Touch_keys has_subscribers keys) st = Inr (touch_keys has_subscribers keys st)"
| "l1_step ops (Clear force) st = clear ops force st"
| "l1_step ops (Is_key_evictable key) st = Inr (snd (is_key_evictable key st))"
| "l1_step ops Report_status st = Inr (snd (report_status ops st))"
| "l1_step ops Close st = close_l1 ops st"

fun l1_run :: "'m mem_ops \<Rightarrow> 'k l1_op list \<Rightarrow> ('k, 'm) l1_manager \<Rightarrow> ('k, 'm) l1_manager result" where
  "l1_run ops [] st = Inr st"
| "l1_run ops (op # calls) st = (case l1_step ops op st of Inl e \<Rightarrow> Inl e | Inr st' \<Rightarrow> l1_run ops calls st')"

text \<open>What a caller must respect: the keys of a write reservation are distinct, one flag per key, a layout of at least a byte.\<close>

fun l1_op_ok :: "'k l1_op \<Rightarrow> bool" where
  "l1_op_ok (Reserve_write keys temps layout tag) \<longleftrightarrow> distinct keys \<and> length keys = length temps \<and> layout_ok layout"
| "l1_op_ok _ \<longleftrightarrow> True"

lemma ensures_drop_value: "ensures r (\<lambda>(_, st'). Q st') \<Longrightarrow> ensures (drop_value r) Q"
  by (cases r) (auto simp: drop_value_def)

lemma any_unlocked_inv: "l1_inv minv live extra st \<Longrightarrow> l1_inv minv live extra (snd (any_unlocked items st))"
  by (induction items arbitrary: st) (auto simp: case_prod_beta Let_def check_lock_inv)

lemma is_key_evictable_inv: "l1_inv minv live extra st \<Longrightarrow> l1_inv minv live extra (snd (is_key_evictable k st))"
  by (auto simp: is_key_evictable_def case_prod_beta Let_def check_lock_inv intro!: any_unlocked_inv split: option.splits)

lemma count_locked_inv:
  "l1_inv minv live extra st \<Longrightarrow> l1_inv minv live extra (snd (count_read_locked es st))"
  "l1_inv minv live extra st \<Longrightarrow> l1_inv minv live extra (snd (count_write_locked es st))"
  by (induction es arbitrary: st) (simp_all add: case_prod_beta Let_def check_lock_inv)

lemma report_status_inv: "l1_inv minv live extra st \<Longrightarrow> l1_inv minv live extra (snd (report_status ops st))"
  by (simp add: report_status_def case_prod_beta Let_def count_locked_inv)

context memory_manager
begin

lemma l1_step_inv:
  assumes "l1_inv minv live [] st" and "l1_op_ok op"
  shows "ensures (l1_step ops op st) (l1_inv minv live [])"
proof (cases op)
  case (Clear force)
  then show ?thesis
    using clear_all_inv[OF assms(1)] clear_unlocked_inv[OF assms(1)] by (auto simp: clear_def elim!: ensures_mono)
next
  case Close
  then show ?thesis using close_inv[OF assms(1)] by (auto elim!: ensures_mono)
qed (use assms in \<open>simp_all add: reserve_read_inv unsafe_read_inv touch_keys_def is_key_evictable_inv report_status_inv
    finish_read_inv reserve_write_inv finish_write_inv finish_write_and_reserve_read_inv finish_write_and_delete_inv
    delete_inv ensures_drop_value\<close>)

lemma l1_run_inv:
  "l1_inv minv live [] st \<Longrightarrow> \<forall>op \<in> set calls. l1_op_ok op \<Longrightarrow> ensures (l1_run ops calls st) (l1_inv minv live [])"
proof (induction calls arbitrary: st)
  case (Cons op calls)
  then show ?case unfolding l1_run.simps by (intro ensures_bind[OF l1_step_inv]) auto
qed simp

end

section \<open>Calls that leave a resident entry alone\<close>

text \<open>The entry of \<open>k\<close> is the same and time has only gone on.\<close>

definition unmoved :: "'k \<Rightarrow> ('k, 'm) l1_manager \<Rightarrow> ('k, 'm) l1_manager \<Rightarrow> bool" where
  "unmoved k st st' \<longleftrightarrow> map_of (l1_objects st') k = map_of (l1_objects st) k \<and>
     l1_clock st' = l1_clock st \<and> l1_ticks st \<le> l1_ticks st'"

lemma unmoved_refl [simp]: "unmoved k st st"
  by (simp add: unmoved_def)

lemma unmoved_trans: "unmoved k st st1 \<Longrightarrow> unmoved k st1 st2 \<Longrightarrow> unmoved k st st2"
  by (auto simp: unmoved_def)

text \<open>\<open>yields r Q\<close>: if the computation does not raise, its value satisfies \<open>Q\<close>.\<close>

definition yields :: "'a result \<Rightarrow> ('a \<Rightarrow> bool) \<Rightarrow> bool" where
  "yields r Q = (case r of Inl _ \<Rightarrow> True | Inr x \<Rightarrow> Q x)"

lemma yields_simps [simp]: "yields (Inr x) Q = Q x" "yields (Inl e) Q"
  by (simp_all add: yields_def)

lemma yields_bind:
  "yields r P \<Longrightarrow> (\<And>x. P x \<Longrightarrow> yields (f x) Q) \<Longrightarrow> yields (case r of Inl e \<Rightarrow> Inl e | Inr x \<Rightarrow> f x) Q"
  by (cases r) (auto simp: yields_def)

lemma yields_mono: "yields r P \<Longrightarrow> (\<And>x. P x \<Longrightarrow> Q x) \<Longrightarrow> yields r Q"
  by (cases r) (auto simp: yields_def)

lemma yields_if: "yields r Q \<Longrightarrow> yields r' Q \<Longrightarrow> yields (if b then r else r') Q"
  by simp

lemma ensures_yields: "ensures r P \<Longrightarrow> yields r Q \<Longrightarrow> ensures r (\<lambda>x. P x \<and> Q x)"
  by (cases r) (auto simp: yields_def)

lemma clock_unmoved [simp]:
  "unmoved k st (snd (check_lock lk st))" "unmoved k st (snd (tick st))"
  "unmoved k st (report os st)" "unmoved k st (report_read_reserved ks st)" "unmoved k st (report_staging_gone ks st)"
  "unmoved k st (set_staging key tag e st)" "unmoved k st (put_staging ops key tag e st)"
  by (simp_all add: unmoved_def check_lock_def tick_def report_def report_read_reserved_def report_staging_gone_def
      set_staging_def put_staging_def Let_def)

lemma report_unmoved [simp]:
  "unmoved k st (report os st') = unmoved k st st'" "unmoved k st (report_read_reserved ks st') = unmoved k st st'"
  "unmoved k st (report_staging_gone ks st') = unmoved k st st'" "unmoved k st (st'\<lparr>l1_mem := m\<rparr>) = unmoved k st st'"
  by (simp_all add: unmoved_def report_def report_read_reserved_def report_staging_gone_def)

lemma mem_free_unmoved: "yields (mem_free ops objs st) (unmoved k st)"
  by (auto simp: mem_free_def unmoved_def yields_def split: sum.splits)

lemma pop_staging_unmoved: "yields (pop_staging key tag st) (\<lambda>(_, st'). unmoved k st st')"
  by (auto simp: pop_staging_def unmoved_def Let_def split: option.splits)

lemma take_staging_unmoved: "yields (take_staging key tag st) (\<lambda>(_, st'). unmoved k st st')"
proof (cases "get_staging st key tag")
  case (Some staged)
  let ?st1 = "snd (check_lock (os_write_lock staged) st)"
  let ?st2 = "set_staging key tag (staged\<lparr>os_write_lock := ttl_release (os_write_lock staged)\<rparr>) ?st1"
  have "unmoved k st ?st2" by (rule unmoved_trans[OF clock_unmoved(1) clock_unmoved(6)])
  then have "yields (pop_staging key tag ?st2) (\<lambda>(_, st'). unmoved k st st')"
    by (intro yields_mono[OF pop_staging_unmoved[of key tag ?st2 k]]) (auto intro: unmoved_trans)
  then have "yields (case pop_staging key tag ?st2 of Inl e \<Rightarrow> Inl e | Inr (entry, st3) \<Rightarrow> Inr ((SUCCESS, Some entry), st3))
      (\<lambda>(_, st'). unmoved k st st')"
    by (rule yields_bind) auto
  then show ?thesis by (simp add: take_staging_def Some case_prod_beta Let_def)
qed (simp add: take_staging_def)

lemma check_lock_unmoved: "check_lock lk st = (b, st') \<Longrightarrow> unmoved k st0 st \<Longrightarrow> unmoved k st0 st'"
  by (auto simp: check_lock_def tick_def unmoved_def)

lemma reclaim_loop_unmoved: "unmoved k st0 st \<Longrightarrow> yields (reclaim_loop key force items freed st) (\<lambda>(_, st'). unmoved k st0 st')"
proof (induction items arbitrary: freed st)
  case (Cons item items)
  obtain tag e where item: "item = (tag, e)" by (cases item)
  obtain b st1 where cl: "check_lock (os_write_lock e) st = (b, st1)" by (cases "check_lock (os_write_lock e) st")
  note 1 = check_lock_unmoved[OF cl Cons.prems]
  have "yields (case pop_staging key tag st1 of Inl e \<Rightarrow> Inl e
      | Inr (entry, st2) \<Rightarrow> reclaim_loop key force items (freed @ [os_memory_obj entry]) st2) (\<lambda>(_, st'). unmoved k st0 st')"
    by (rule yields_bind[OF pop_staging_unmoved[of key tag st1 k]]) (auto intro: Cons.IH unmoved_trans[OF 1])
  with Cons.IH[OF 1] show ?case
    unfolding item reclaim_loop.simps cl Let_def prod.case by (intro yields_if)
qed simp

lemma reclaim_staging_unmoved:
  "unmoved k st0 st \<Longrightarrow> yields (reclaim_staging ops key force st) (\<lambda>(_, st'). unmoved k st0 st')"
  unfolding reclaim_staging_def
  by (cases "map_of (l1_staging st) key")
    (auto intro!: yields_bind[OF reclaim_loop_unmoved] yields_bind[OF mem_free_unmoved] intro: unmoved_trans)

lemma reclaim_keys_unmoved:
  "unmoved k st0 st \<Longrightarrow> yields (reclaim_keys ops force keys gone st) (\<lambda>(_, st'). unmoved k st0 st')"
proof (induction keys arbitrary: gone st)
  case (Cons key keys)
  show ?case
    unfolding reclaim_keys.simps
    by (rule yields_bind[OF reclaim_staging_unmoved[OF Cons.prems]]) (auto intro: Cons.IH)
qed simp

lemma unsafe_read_unmoved: "unmoved k st0 st \<Longrightarrow> unmoved k st0 (snd (unsafe_read_loop keys ret st))"
proof (induction keys arbitrary: ret st)
  case (Cons key keys)
  show ?case
  proof (cases "map_of (l1_objects st) key")
    case None
    with Cons show ?thesis by simp
  next
    case (Some e)
    obtain b st1 where cl: "check_lock (os_read_lock e) st = (b, st1)" by (cases "check_lock (os_read_lock e) st")
    from check_lock_unmoved[OF cl Cons.prems] Some cl Cons.IH show ?thesis by (cases b) simp_all
  qed
qed simp

lemma reserve_write_scan_unmoved:
  "unmoved k st0 st \<Longrightarrow> unmoved k st0 (snd (snd (snd (reserve_write_scan tag items ret succ need st))))"
proof (induction items arbitrary: ret succ need st)
  case (Cons item items)
  obtain key is_temp where item: "item = (key, is_temp)" by (cases item)
  show ?case
  proof (cases "map_of (l1_objects st) key = None \<and> get_staging st key tag \<noteq> None")
    case False
    then show ?thesis using Cons by (cases "get_staging st key tag") (simp_all add: item)
  next
    case True
    then obtain staged where st: "map_of (l1_objects st) key = None" "get_staging st key tag = Some staged" by auto
    obtain b st1 where cl: "check_lock (os_write_lock staged) st = (b, st1)" by (cases "check_lock (os_write_lock staged) st")
    note 1 = check_lock_unmoved[OF cl Cons.prems]
    have "unmoved k st0 (set_staging key tag e (snd (tick st1)))" for e
      by (rule unmoved_trans[OF unmoved_trans[OF 1 clock_unmoved(2)] clock_unmoved(6)])
    with Cons.IH st 1 cl show ?thesis by (cases b) (simp_all add: item case_prod_beta Let_def)
  qed
qed simp

lemma reserve_write_stage_unmoved:
  "unmoved k st0 st \<Longrightarrow> yields (reserve_write_stage ops tag items ret succ st) (\<lambda>(_, _, st'). unmoved k st0 st')"
proof (induction items arbitrary: ret succ st)
  case (Cons item items)
  obtain key is_temp i where item: "item = ((key, is_temp), i)" by (metis surj_pair)
  have "unmoved k st0 (put_staging ops key tag e (snd (tick (st\<lparr>l1_mem := m\<rparr>))))" for e m
    by (rule unmoved_trans[OF unmoved_trans[OF _ clock_unmoved(2)] clock_unmoved(7)]) (use Cons.prems in simp)
  with Cons.IH show ?case by (auto simp: item case_prod_beta Let_def split: sum.splits)
qed simp

lemma reserve_write_unmoved: "yields (reserve_write ops keys temps layout tag st) (\<lambda>(_, st'). unmoved k st st')"
proof -
  obtain ret succ need st1 where scan: "reserve_write_scan tag (zip keys temps) [] [] [] st = (ret, succ, need, st1)"
    by (metis surj_pair)
  have 1: "unmoved k st st1"
    using reserve_write_scan_unmoved[of k st st tag "zip keys temps" "[]" "[]" "[]"] scan by simp
  have 2: "yields (reserve_write_stage ops tag items ret succ (st1\<lparr>l1_mem := m\<rparr>)) (\<lambda>(_, _, st'). unmoved k st st')" for items m
    by (rule reserve_write_stage_unmoved) (use 1 in simp)
  have 3: "yields (mem_free ops objs (st1\<lparr>l1_mem := m\<rparr>)) (\<lambda>st'. unmoved k st st')" for objs m
    by (rule yields_mono[OF mem_free_unmoved[of _ _ _ k]]) (use 1 in \<open>simp add: unmoved_def\<close>)
  show ?thesis
  proof (cases "mm_allocate ops (l1_mem st1) layout (int (length need))")
    case (Inl e)
    with 1 show ?thesis by (auto simp: reserve_write_def scan)
  next
    case (Inr r)
    obtain err objs m where r: "r = ((err, objs), m)" by (metis surj_pair)
    show ?thesis
      unfolding reserve_write_def scan Let_def prod.case Inr r sum.case
      by (intro yields_if yields_bind[where P = "\<lambda>(_, _, st'). unmoved k st st'"] 2 yields_bind[OF 3] yields_bind[OF 2])
        (use 1 in auto)
  qed
qed

lemma finish_write_and_delete_loop_unmoved:
  "unmoved k st0 st \<Longrightarrow> yields (finish_write_and_delete_loop tag keys wa st) (\<lambda>(_, st'). unmoved k st0 st')"
proof (induction keys arbitrary: wa st)
  case (Cons key keys)
  show ?case
    unfolding finish_write_and_delete_loop.simps
    by (rule yields_bind[OF take_staging_unmoved[of key tag st k]])
      (auto simp: Let_def intro!: Cons.IH intro: unmoved_trans[OF Cons.prems] split: option.splits)
qed simp

lemma finish_write_and_delete_unmoved: "yields (finish_write_and_delete ops keys tag st) (\<lambda>(_, st'). unmoved k st st')"
  unfolding finish_write_and_delete_def
  by (rule yields_bind[OF finish_write_and_delete_loop_unmoved[OF unmoved_refl]])
    (auto intro!: yields_bind[OF mem_free_unmoved] intro: unmoved_trans)

section \<open>Held objects\<close>

text \<open>
  The resident entry of \<open>k\<close> holds memory object \<open>i\<close> under at least \<open>c\<close> read locks, which no clock
  reading still to come finds expired; nor will it find a lock taken later expired.
\<close>

definition read_held :: "'k \<Rightarrow> nat \<Rightarrow> int \<Rightarrow> ('k, 'm) l1_manager \<Rightarrow> bool" where
  "read_held k i c st \<longleftrightarrow>
     (case map_of (l1_objects st) k of
        None \<Rightarrow> False
      | Some e \<Rightarrow> os_memory_obj e = i \<and> c \<le> tl_counter (os_read_lock e) \<and>
          (\<forall>t \<ge> l1_ticks st. l1_clock st t < tl_expiration_ms (os_read_lock e)) \<and>
          (\<forall>t \<ge> l1_ticks st. \<forall>t' \<ge> l1_ticks st. l1_clock st t < l1_clock st t' + tl_ttl_ms (os_read_lock e)))"

lemma held_unmoved: "unmoved k st st' \<Longrightarrow> read_held k i c st \<Longrightarrow> read_held k i c st'"
  by (fastforce simp: read_held_def unmoved_def split: option.splits)

lemma heldD:
  assumes "read_held k i c st"
  obtains e where "map_of (l1_objects st) k = Some e" "os_memory_obj e = i" "c \<le> tl_counter (os_read_lock e)"
    "\<And>t. l1_ticks st \<le> t \<Longrightarrow> l1_clock st t < tl_expiration_ms (os_read_lock e)"
    "\<And>t t'. l1_ticks st \<le> t \<Longrightarrow> l1_ticks st \<le> t' \<Longrightarrow> l1_clock st t < l1_clock st t' + tl_ttl_ms (os_read_lock e)"
  using assms by (auto simp: read_held_def split: option.splits)

lemma held_absent: "read_held k i c st \<Longrightarrow> map_of (l1_objects st) key = None \<Longrightarrow> key \<noteq> k"
  by (auto simp: read_held_def)

lemma held_locked:
  assumes "read_held k i c st" "0 < c" "map_of (l1_objects st) k = Some e" "l1_ticks st \<le> t"
  shows "ttl_is_locked (l1_clock st t) (os_read_lock e)"
  using assms by (auto simp: read_held_def ttl_is_locked_def)

lemma held_check_lock:
  assumes "read_held k i c st" "0 < c" "map_of (l1_objects st) k = Some e" "check_lock (os_read_lock e) st = (b, st')"
  shows "b"
  using held_locked[OF assms(1-3), of "l1_ticks st"] assms(4) by (auto simp: check_lock_def tick_def)

text \<open>Taking more locks keeps the object held; releasing lowers the count by what was released.\<close>

lemma unlock_times_counter:
  "0 \<le> tl_counter lk \<Longrightarrow> tl_counter (unlock_times n lk) = max 0 (tl_counter lk - int n)"
  "tl_expiration_ms (unlock_times n lk) = tl_expiration_ms lk" "tl_ttl_ms (unlock_times n lk) = tl_ttl_ms lk"
  by (induction n lk rule: unlock_times.induct) (auto simp: ttl_release_def)

lemma lock_times_lock:
  assumes "\<And>t. l1_ticks st \<le> t \<Longrightarrow> l1_clock st t < tl_expiration_ms lk"
    "\<And>t t'. l1_ticks st \<le> t \<Longrightarrow> l1_ticks st \<le> t' \<Longrightarrow> l1_clock st t < l1_clock st t' + tl_ttl_ms lk"
    "lock_times n lk st = (lk', st')"
  shows "tl_counter lk' = tl_counter lk + int n \<and> tl_ttl_ms lk' = tl_ttl_ms lk \<and>
    (\<forall>t \<ge> l1_ticks st'. l1_clock st t < tl_expiration_ms lk')"
  using assms
proof (induction n arbitrary: lk st)
  case (Suc n)
  let ?now = "l1_clock st (l1_ticks st)"
  let ?lk = "ttl_acquire ?now lk" and ?st = "st\<lparr>l1_ticks := Suc (l1_ticks st)\<rparr>"
  have run: "lock_times n ?lk ?st = (lk', st')" using Suc.prems(3) by (simp add: tick_def)
  have lk: "tl_counter ?lk = tl_counter lk + 1" "tl_ttl_ms ?lk = tl_ttl_ms lk" "tl_expiration_ms ?lk = ?now + tl_ttl_ms lk"
    using Suc.prems(1)[of "l1_ticks st"] by (simp_all add: ttl_acquire_live)
  have "tl_counter lk' = tl_counter ?lk + int n \<and> tl_ttl_ms lk' = tl_ttl_ms ?lk \<and>
      (\<forall>t \<ge> l1_ticks st'. l1_clock ?st t < tl_expiration_ms lk')"
    by (rule Suc.IH[OF _ _ run]) (use Suc.prems(2)[of _ "l1_ticks st"] Suc.prems(2) lk in auto)
  with lk show ?case by simp
qed auto

lemma lock_times_held:
  assumes h: "read_held k i c st" and e: "map_of (l1_objects st) k = Some e" and lt: "lock_times n (os_read_lock e) st = (lk, st')"
  shows "read_held k i (c + int n) (st'\<lparr>l1_objects := AList.update k (e\<lparr>os_read_lock := lk\<rparr>) (l1_objects st')\<rparr>)"
proof -
  from h e have e': "os_memory_obj e = i" "c \<le> tl_counter (os_read_lock e)"
    "\<And>t. l1_ticks st \<le> t \<Longrightarrow> l1_clock st t < tl_expiration_ms (os_read_lock e)"
    "\<And>t t'. l1_ticks st \<le> t \<Longrightarrow> l1_ticks st \<le> t' \<Longrightarrow> l1_clock st t < l1_clock st t' + tl_ttl_ms (os_read_lock e)"
    by (auto elim!: heldD)
  from lock_times_lock[OF e'(3,4) lt] lock_times_snd[OF lt] e' show ?thesis
    by (auto simp: read_held_def)
qed

lemma unlock_times_held:
  assumes h: "read_held k i c st" and e: "map_of (l1_objects st) k = Some e" and n: "int n < c"
  shows "read_held k i (c - int n) (st\<lparr>l1_objects := AList.update k (e\<lparr>os_read_lock := unlock_times n (os_read_lock e)\<rparr>) (l1_objects st)\<rparr>)"
  using assms unlock_times_counter[where lk = "os_read_lock e" and n = n] by (auto simp: read_held_def)

lemma held_other:
  assumes "read_held k i c st" and "key \<noteq> k" and "unmoved k st st'"
  shows "read_held k i c (st'\<lparr>l1_objects := AList.update key e (l1_objects st')\<rparr>)"
    and "read_held k i c (st'\<lparr>l1_objects := AList.delete key (l1_objects st')\<rparr>)"
  using assms by (auto intro!: held_unmoved[OF _ assms(1)] simp: unmoved_def)

lemma held_weaken: "read_held k i c st \<Longrightarrow> c' \<le> c \<Longrightarrow> read_held k i c' st"
  by (auto simp: read_held_def split: option.splits)

lemma reserve_read_loop_held:
  "read_held k i c st \<Longrightarrow> read_held k i c (snd (snd (reserve_read_loop n keys ret succ st)))"
proof (induction keys arbitrary: ret succ st)
  case (Cons key keys)
  show ?case
  proof (cases "map_of (l1_objects st) key")
    case None
    with Cons show ?thesis by simp
  next
    case (Some e)
    obtain lk st1 where lt: "lock_times n (os_read_lock e) st = (lk, st1)" by (cases "lock_times n (os_read_lock e) st")
    have "read_held k i c (st1\<lparr>l1_objects := AList.update key (e\<lparr>os_read_lock := lk\<rparr>) (l1_objects st1)\<rparr>)"
    proof (cases "key = k")
      case True
      with lock_times_held[OF Cons.prems, of e n lk st1] Some lt show ?thesis by (auto intro: held_weaken)
    next
      case False
      have "unmoved k st st1" using lock_times_snd[OF lt] by (simp add: unmoved_def)
      from held_other(1)[OF Cons.prems False this] show ?thesis .
    qed
    with Cons.IH Some lt show ?thesis by simp
  qed
qed simp

lemma finish_read_loop_held:
  "read_held k i c st \<Longrightarrow> int n * int (count_list keys k) < c \<Longrightarrow>
     read_held k i (c - int n * int (count_list keys k)) (snd (finish_read_loop n keys fa st))"
proof (induction keys arbitrary: c fa st)
  case (Cons key keys)
  show ?case
  proof (cases "map_of (l1_objects st) key")
    case None
    with Cons held_absent[OF Cons.prems(1) None] show ?thesis by simp
  next
    case (Some e)
    obtain b st1 where cl: "check_lock (os_read_lock e) st = (b, st1)" by (cases "check_lock (os_read_lock e) st")
    have h1: "read_held k i c st1" "unmoved k st st1" "l1_objects st1 = l1_objects st"
      using held_unmoved[OF check_lock_unmoved[OF cl unmoved_refl] Cons.prems(1)] check_lock_unmoved[OF cl unmoved_refl]
        check_lock_snd[OF cl] by auto
    define lk where "lk = unlock_times n (os_read_lock e)"
    define st2 where "st2 = st1\<lparr>l1_objects := AList.update key (e\<lparr>os_read_lock := lk\<rparr>) (l1_objects st1)\<rparr>"
    obtain b3 st3 where c3: "(if os_is_temporary e then check_lock lk st2 else (True, st2)) = (b3, st3)"
      by (cases "if os_is_temporary e then check_lock lk st2 else (True, st2)")
    note eq = finish_read_loop.simps(2)[of n key keys fa st, unfolded Some cl option.case Let_def prod.case
        lk_def[symmetric] st2_def[symmetric] c3]
    have u3: "unmoved k st2 st3" using c3 check_lock_unmoved[of lk st2 b3 st3 k st2] by (auto split: if_splits)
    show ?thesis
    proof (cases "key = k")
      case False
      have "read_held k i c st2" unfolding st2_def by (rule held_other[OF h1(1) False unmoved_refl])
      then have "read_held k i c st3" "read_held k i c (st3\<lparr>l1_objects := AList.delete key (l1_objects st3)\<rparr>)"
        using u3 held_other(2)[OF _ False u3] by (auto intro: held_unmoved)
      with h1 Cons.IH Cons.prems(2) False show ?thesis unfolding eq by simp
    next
      case True
      have "0 \<le> int n * int (count_list keys k)" "int n + int n * int (count_list keys k) < c"
        using Cons.prems(2) True by (simp_all add: distrib_left)
      then have pos: "int n < c" "0 < c" "int n * int (count_list keys k) < c - int n" by linarith+
      have b: b using held_check_lock[OF Cons.prems(1) pos(2)] Some cl True by blast
      have h2: "read_held k i (c - int n) st2"
        using unlock_times_held[OF h1(1) _ pos(1), of e] Some True h1(3) by (simp add: st2_def lk_def)
      have "b3" using c3 held_check_lock[OF h2, of "e\<lparr>os_read_lock := lk\<rparr>" b3 st3] pos(1) True
        by (auto simp: st2_def split: if_splits)
      with Cons.IH[OF held_unmoved[OF u3 h2] pos(3)] b True show ?thesis unfolding eq by (simp add: algebra_simps)
    qed
  qed
qed simp

lemma finish_write_loop_held:
  "read_held k i c st \<Longrightarrow> yields (finish_write_loop ops tag keys wa st) (\<lambda>(_, st'). read_held k i c st')"
proof (induction keys arbitrary: wa st)
  case (Cons key keys)
  show ?case
    unfolding finish_write_loop.simps
  proof (rule yields_bind[OF take_staging_unmoved[of key tag st k]], clarify)
    fix err taken st1 assume u: "unmoved k st st1"
    note h = held_unmoved[OF u Cons.prems]
    have "read_held k i c (st1\<lparr>l1_objects := AList.update key e (l1_objects st1)\<rparr>)" if "map_of (l1_objects st1) key = None" for e
      by (rule held_other(1)[OF h held_absent[OF h that] unmoved_refl])
    then show "yields (let wa1 = wa\<lparr>wa_ret := AList.update key (err, None) (wa_ret wa)\<rparr> in
          case taken of None \<Rightarrow> finish_write_loop ops tag keys wa1 st1
          | Some entry \<Rightarrow>
              if map_of (l1_objects st1) key \<noteq> None
              then finish_write_loop ops tag keys (wa1\<lparr>wa_discarded := wa_discarded wa1 @ [os_memory_obj entry]\<rparr>) st1
              else let st2 = st1\<lparr>l1_objects := AList.update key entry (l1_objects st1)\<rparr> in
                finish_write_loop ops tag keys
                  (if os_is_temporary entry then wa1
                   else wa1\<lparr>wa_keys := wa_keys wa1 @ [key], wa_meta := wa_meta wa1 @ [object_meta ops st2 (os_memory_obj entry)]\<rparr>) st2)
        (\<lambda>(_, st'). read_held k i c st')"
      using h Cons.IH by (auto simp: Let_def split: option.splits)
  qed
qed simp

lemma lock_final_held:
  fixes st1 :: "('k, 'm) l1_manager"
  assumes h: "read_held k i c st1" and lt: "lock_times n (os_read_lock f) st1 = (lk, st2)"
    and f: "f = (case map_of (l1_objects st1) key of None \<Rightarrow> e | Some r \<Rightarrow> r)"
  shows "read_held k i c (st2\<lparr>l1_objects := AList.update key (f\<lparr>os_read_lock := lk\<rparr>) (l1_objects st2)\<rparr>)"
proof (cases "key = k")
  case True
  with h f have "map_of (l1_objects st1) k = Some f" by (auto elim!: heldD)
  from lock_times_held[OF h this lt] True show ?thesis by (auto intro: held_weaken)
next
  case False
  have u: "unmoved k st1 st2" using lock_times_snd[OF lt] by (simp add: unmoved_def)
  from held_other(1)[OF h False u] show ?thesis .
qed

lemma finish_write_and_reserve_read_loop_held:
  "read_held k i c st \<Longrightarrow> yields (finish_write_and_reserve_read_loop ops n tag keys wa st) (\<lambda>(_, st'). read_held k i c st')"
proof (induction keys arbitrary: wa st)
  case (Cons key keys)
  show ?case
  proof (cases "take_staging key tag st")
    case (Inr r)
    obtain err taken st1 where r: "r = ((err, taken), st1)" by (metis surj_pair)
    have "unmoved k st st1" using take_staging_unmoved[of key tag st k] Inr r by simp
    note h = held_unmoved[OF this Cons.prems]
    show ?thesis
    proof (cases taken)
      case None
      with Cons.IH[OF h] Inr r show ?thesis by simp
    next
      case (Some e)
      define f where "f = (case map_of (l1_objects st1) key of None \<Rightarrow> e | Some r \<Rightarrow> r)"
      obtain lk st2 where lt: "lock_times n (os_read_lock f) st1 = (lk, st2)" by (cases "lock_times n (os_read_lock f) st1")
      from Cons.IH[OF lock_final_held[OF h lt f_def]] show ?thesis
        using lt Inr r Some by (cases "map_of (l1_objects st1) key") (simp_all add: f_def Let_def)
    qed
  qed simp
qed simp

lemma delete_loop_held:
  "read_held k i c st \<Longrightarrow> 0 < c \<Longrightarrow> \<not> force \<or> k \<notin> set keys \<Longrightarrow>
     yields (delete_loop ops force keys da st) (\<lambda>(_, st'). read_held k i c st')"
proof (induction keys arbitrary: da st)
  case (Cons key keys)
  show ?case
  proof (cases "reclaim_staging ops key force st")
    case (Inl e)
    then show ?thesis using Cons.IH[OF Cons.prems(1,2)] Cons.prems(3) by (simp add: Let_def)
  next
    case (Inr r)
    obtain n st1 where r: "r = (n, st1)" by (cases r)
    have u: "unmoved k st st1" using reclaim_staging_unmoved[where ops = ops and key = key and force = force, OF unmoved_refl[of k st]] Inr r by simp
    note h = held_unmoved[OF u Cons.prems(1)]
    show ?thesis
    proof (cases "map_of (l1_objects st) key")
      case None
      then show ?thesis
        using Cons.IH[OF h Cons.prems(2)] Cons.IH[OF Cons.prems(1,2)] Cons.prems(3) Inr r by (auto simp: Let_def)
    next
      case (Some e)
      obtain b st2 where cl: "check_lock (os_read_lock e) st1 = (b, st2)" by (cases "check_lock (os_read_lock e) st1")
      note u2 = check_lock_unmoved[OF cl unmoved_refl]
      note h2 = held_unmoved[OF u2 h]
      show ?thesis
      proof (cases "key = k")
        case True
        have "b" by (rule held_check_lock[OF h Cons.prems(2) _ cl]) (use u Some True in \<open>simp add: unmoved_def\<close>)
        moreover have "\<not> force" using Cons.prems(3) True by simp
        ultimately show ?thesis
          using Cons.IH[OF h2 Cons.prems(2)] Cons.IH[OF h Cons.prems(2)] Some Inr r cl by (simp add: Let_def)
      next
        case False
        from Cons.IH[OF held_other(2)[OF h2 False unmoved_refl] Cons.prems(2)] Cons.IH[OF h2 Cons.prems(2)]
          Cons.IH[OF h Cons.prems(2)] Cons.prems(3) Some Inr r cl
        show ?thesis by (auto simp: Let_def)
      qed
    qed
  qed
qed simp

lemma report_held [simp]:
  "read_held k i c (report os st) = read_held k i c st" "read_held k i c (report_read_reserved ks st) = read_held k i c st"
  "read_held k i c (report_staging_gone ks st) = read_held k i c st"
  by (simp_all add: read_held_def report_def report_read_reserved_def report_staging_gone_def split: option.split)

lemma held_fold_delete:
  assumes h: "read_held k i c st" and "k \<notin> set keys"
  shows "read_held k i c (st\<lparr>l1_objects := fold AList.delete keys (l1_objects st)\<rparr>)"
proof -
  have "map_of (fold AList.delete keys os) k = map_of os k" if "k \<notin> set keys" for os :: "('a \<times> l1_object_state) list" and keys
    using that by (induction keys arbitrary: os) auto
  with assms show ?thesis by (intro held_unmoved[OF _ h]) (simp add: unmoved_def)
qed

lemma clear_unlocked_held:
  assumes h: "read_held k i c st" and c: "0 < c" and dict: "dict_ok (l1_objects st)"
  shows "yields (clear_unlocked ops st) (read_held k i c)"
proof -
  obtain its st1 where sc: "clear_scan (l1_objects st) [] [] st = (dict_keys its, map os_memory_obj (dict_values its), st1)"
    and st1: "st1 = st\<lparr>l1_ticks := l1_ticks st + length (l1_objects st)\<rparr>" and its: "subseq its (l1_objects st)"
    and un: "\<forall>(k, e) \<in> set its. \<exists>i \<ge> l1_ticks st. \<not> ttl_is_locked (l1_clock st i) (os_read_lock e)"
    using clear_scan_spec[of "l1_objects st" "[]" "[]" st] by auto
  have "k \<notin> set (dict_keys its)"
  proof
    assume "k \<in> set (dict_keys its)"
    then obtain e where e: "(k, e) \<in> set its" by auto
    then have "map_of (l1_objects st) k = Some e" using subseq_dict(2)[OF its dict] dict by (auto simp: dict_get_Some_iff)
    from held_locked[OF h c this] un e show False by fastforce
  qed
  moreover have h1: "read_held k i c st1" by (rule held_unmoved[OF _ h]) (simp add: st1 unmoved_def)
  ultimately have h2: "read_held k i c (st1\<lparr>l1_objects := fold AList.delete (dict_keys its) (l1_objects st1)\<rparr>)"
    by (intro held_fold_delete)
  have 3: "yields (free_and_report_deleted ops keys objs s) (read_held k i c)" if "read_held k i c s" for keys objs and s :: "('a, 'b) l1_manager"
    unfolding free_and_report_deleted_def Let_def
    by (rule yields_bind[OF mem_free_unmoved[of ops objs s k]]) (auto intro: held_unmoved[OF _ that])
  have 4: "yields (case reclaim_keys ops False (dict_keys (l1_staging s)) [] s of Inl e \<Rightarrow> Inl e
      | Inr (gone_keys, st4) \<Rightarrow> Inr (report_staging_gone gone_keys st4)) (read_held k i c)" if "read_held k i c s" for s :: "('a, 'b) l1_manager"
    by (rule yields_bind[OF reclaim_keys_unmoved[OF unmoved_refl[of k s]]]) (auto intro: held_unmoved[OF _ that])
  show ?thesis
    unfolding clear_unlocked_def sc Let_def prod.case
    by (rule yields_bind[where P = "read_held k i c"]) (use h2 3 4 in auto)
qed

text \<open>The read locks a call releases on a key, and the calls that remove a key whatever its locks.\<close>

fun op_releases :: "'k \<Rightarrow> 'k l1_op \<Rightarrow> int" where
  "op_releases k (Finish_read keys n) = validate_read_locks n * int (count_list keys k)"
| "op_releases k _ = 0"

fun op_forces :: "'k \<Rightarrow> 'k l1_op \<Rightarrow> bool" where
  "op_forces k (Delete keys force) \<longleftrightarrow> force \<and> k \<in> set keys"
| "op_forces k (Clear force) \<longleftrightarrow> force"
| "op_forces k Close \<longleftrightarrow> True"
| "op_forces k _ \<longleftrightarrow> False"

lemma yields_drop_value: "yields r (\<lambda>(_, st'). Q st') \<Longrightarrow> yields (drop_value r) Q"
  by (cases r) (auto simp: drop_value_def)

lemma mem_free_held: "read_held k i c st \<Longrightarrow> yields (mem_free ops objs st) (read_held k i c)"
  by (rule yields_mono[OF mem_free_unmoved[of ops objs st k]]) (auto intro: held_unmoved)

lemma any_unlocked_unmoved: "unmoved k st0 st \<Longrightarrow> unmoved k st0 (snd (any_unlocked items st))"
proof (induction items arbitrary: st)
  case (Cons item items)
  obtain tag e where item: "item = (tag, e)" by (cases item)
  obtain b st1 where cl: "check_lock (os_write_lock e) st = (b, st1)" by (cases "check_lock (os_write_lock e) st")
  from Cons.IH check_lock_unmoved[OF cl Cons.prems] cl show ?case by (cases b) (simp_all add: item)
qed simp

lemma is_key_evictable_unmoved: "unmoved k st (snd (is_key_evictable key st))"
proof -
  have tail: "unmoved k st (snd (if f then (True, s) else (case map_of (l1_staging s) key of
      None \<Rightarrow> (False, s) | Some per_tag \<Rightarrow> any_unlocked per_tag s)))" if "unmoved k st s" for f s
    using that any_unlocked_unmoved[OF that] by (simp split: option.split)
  show ?thesis
  proof (cases "map_of (l1_objects st) key")
    case None
    then show ?thesis using tail[of st False] by (simp add: is_key_evictable_def)
  next
    case (Some e)
    obtain b st1 where cl: "check_lock (os_read_lock e) st = (b, st1)" by (cases "check_lock (os_read_lock e) st")
    from tail[OF check_lock_unmoved[OF cl unmoved_refl], of "\<not> b"] Some cl show ?thesis
      by (simp add: is_key_evictable_def)
  qed
qed

lemma count_locked_unmoved:
  "unmoved k st0 st \<Longrightarrow> unmoved k st0 (snd (count_read_locked es st))"
  "unmoved k st0 st \<Longrightarrow> unmoved k st0 (snd (count_write_locked es st))"
  by (induction es arbitrary: st) (simp_all add: case_prod_beta Let_def unmoved_trans[OF _ clock_unmoved(1)])

lemma report_status_unmoved: "unmoved k st (snd (report_status ops st))"
  by (simp add: report_status_def case_prod_beta Let_def count_locked_unmoved)

lemma finish_read_held:
  assumes "read_held k i c st" and "validate_read_locks n * int (count_list keys k) < c"
  shows "yields (finish_read ops keys n st) (\<lambda>(_, st'). read_held k i (c - validate_read_locks n * int (count_list keys k)) st')"
proof -
  let ?fa = "\<lparr>fa_ret = [], fa_successful_keys = [], fa_need_to_free = [], fa_need_to_free_keys = []\<rparr>"
  have v: "int (nat (validate_read_locks n)) = validate_read_locks n"
    by (simp add: validate_read_locks_def MAX_READ_LOCK_COUNT_def)
  obtain fa st1 where loop: "finish_read_loop (nat (validate_read_locks n)) keys ?fa st = (fa, st1)" by (metis surj_pair)
  have "read_held k i (c - validate_read_locks n * int (count_list keys k)) st1"
    using finish_read_loop_held[OF assms(1), of "nat (validate_read_locks n)" keys ?fa] assms(2) v loop by simp
  from mem_free_held[OF this] show ?thesis
    unfolding finish_read_def loop Let_def prod.case by (rule yields_bind) simp
qed

lemma finish_write_held:
  assumes "read_held k i c st"
  shows "yields (finish_write ops keys tag st) (\<lambda>(_, st'). read_held k i c st')"
  unfolding finish_write_def
  by (rule yields_bind[OF finish_write_loop_held[OF assms]], clarify) (rule yields_bind, erule mem_free_held, simp)

lemma finish_write_and_reserve_read_held:
  assumes "read_held k i c st"
  shows "yields (finish_write_and_reserve_read ops keys n tag st) (\<lambda>(_, st'). read_held k i c st')"
  unfolding finish_write_and_reserve_read_def
  by (rule yields_bind[OF finish_write_and_reserve_read_loop_held[OF assms]], clarify)
    (rule yields_bind, erule mem_free_held, simp add: Let_def)

lemma delete_held:
  assumes "read_held k i c st" "0 < c" "\<not> force \<or> k \<notin> set keys"
  shows "yields (delete_keys ops keys force st) (\<lambda>(_, st'). read_held k i c st')"
proof -
  have "yields (free_and_report_deleted ops ks objs s) (read_held k i c)" if "read_held k i c s" for ks objs and s :: "('a, 'b) l1_manager"
    unfolding free_and_report_deleted_def Let_def by (rule yields_bind[OF mem_free_held[OF that]]) simp
  then show ?thesis
    unfolding delete_keys_def
    by (intro yields_bind[OF delete_loop_held[OF assms]]) (auto intro!: yields_bind[where P = "read_held k i c"])
qed

lemma l1_step_held:
  assumes h: "read_held k i c st" and pos: "op_releases k op < c" "0 < c" and nf: "\<not> op_forces k op" and dict: "dict_ok (l1_objects st)"
  shows "yields (l1_step ops op st) (read_held k i (c - op_releases k op))"
proof (cases op)
  case (Reserve_read keys n)
  with reserve_read_loop_held[OF h, of "nat (validate_read_locks n)" keys "[]" "[]"] show ?thesis
    by (simp add: reserve_read_def case_prod_beta Let_def)
next
  case (Unsafe_read keys)
  with held_unmoved[OF unsafe_read_unmoved[OF unmoved_refl, of k st keys "[]"] h] show ?thesis
    by (simp add: unsafe_read_def)
next
  case (Reserve_write keys temps layout tag)
  have "yields (reserve_write ops keys temps layout tag st) (\<lambda>(_, st'). read_held k i c st')"
    by (rule yields_mono[OF reserve_write_unmoved[of ops keys temps layout tag st k]]) (auto intro: held_unmoved[OF _ h])
  with Reserve_write show ?thesis by (simp add: yields_drop_value)
next
  case (Finish_write_and_delete keys tag)
  have "yields (finish_write_and_delete ops keys tag st) (\<lambda>(_, st'). read_held k i c st')"
    by (rule yields_mono[OF finish_write_and_delete_unmoved[of ops keys tag st k]]) (auto intro: held_unmoved[OF _ h])
  with Finish_write_and_delete show ?thesis by (simp add: yields_drop_value)
next
  case (Delete keys force)
  with delete_held[OF h pos(2), of force keys ops] nf show ?thesis by (simp add: yields_drop_value)
next
  case (Clear force)
  then show ?thesis using clear_unlocked_held[OF h pos(2) dict] nf by (simp add: clear_def)
qed (use nf h pos held_unmoved[OF is_key_evictable_unmoved h] held_unmoved[OF report_status_unmoved h] in
    \<open>simp_all add: touch_keys_def yields_drop_value finish_read_held finish_write_held finish_write_and_reserve_read_held\<close>)

lemma op_releases_nonneg: "0 \<le> op_releases k op"
  by (cases op) (simp_all add: validate_read_locks_def MAX_READ_LOCK_COUNT_def)

context memory_manager
begin

lemma l1_run_held:
  assumes "l1_inv minv live [] st" and "read_held k i c st" and "sum_list (map (op_releases k) calls) < c"
    and "\<forall>op \<in> set calls. l1_op_ok op \<and> \<not> op_forces k op"
  shows "ensures (l1_run ops calls st) (\<lambda>st'. l1_inv minv live [] st' \<and> read_held k i (c - sum_list (map (op_releases k) calls)) st')"
  using assms
proof (induction calls arbitrary: c st)
  case (Cons op calls)
  have nn: "0 \<le> sum_list (map (op_releases k) calls)" by (intro sum_list_nonneg) (auto simp: op_releases_nonneg)
  with Cons.prems(3) op_releases_nonneg[of k op] have pos: "op_releases k op < c" "0 < c"
    "sum_list (map (op_releases k) calls) < c - op_releases k op" by simp_all
  have "yields (l1_step ops op st) (read_held k i (c - op_releases k op))"
    by (rule l1_step_held[OF Cons.prems(2) pos(1,2)]) (use Cons.prems(1,4) l1_invD(4) in auto)
  moreover have "ensures (l1_step ops op st) (l1_inv minv live [])"
    by (rule l1_step_inv[OF Cons.prems(1)]) (use Cons.prems(4) in simp)
  ultimately have step: "ensures (l1_step ops op st) (\<lambda>st'. l1_inv minv live [] st' \<and> read_held k i (c - op_releases k op) st')"
    by (intro ensures_yields)
  show ?case
    unfolding l1_run.simps
  proof (rule ensures_bind[OF step])
    fix st' assume "l1_inv minv live [] st' \<and> read_held k i (c - op_releases k op) st'"
    with Cons.IH[of st' "c - op_releases k op"] pos(3) Cons.prems(4)
    show "ensures (l1_run ops calls st') (\<lambda>st'. l1_inv minv live [] st' \<and> read_held k i (c - sum_list (map (op_releases k) (op # calls))) st')"
      by (simp add: algebra_simps)
  qed
qed simp

lemma held_live:
  assumes "l1_inv minv live [] st" "read_held k i c st"
  shows "i \<in> live (l1_mem st)"
proof -
  obtain e where "map_of (l1_objects st) k = Some e" "os_memory_obj e = i" using assms(2) by (auto simp: read_held_def split: option.splits)
  then have "i \<in> set (all_objs st)" by (auto simp: all_objs_def intro!: image_eqI[OF _ map_of_SomeD])
  with l1_invD(3)[OF assms(1)] show ?thesis by (simp add: owns_def)
qed

end

end
