(* ===== verification/L1_Dram.thy ===== *)
theory L1_Dram
  imports L1_Protection Mixed_Allocator
begin

text \<open>
  The L1 manager on pinned host memory (\<open>DRAML1Manager\<close>): its operations run on the mixed allocator,
  so the laws proved for any memory manager become statements about the two components together.
\<close>

section \<open>Bytes in use\<close>

lemma card_regions:
  "apart rs \<Longrightarrow> \<forall>r \<in> set rs. 0 < snd r \<Longrightarrow> finite (regions rs) \<and> int (card (regions rs)) = sum_list (map snd rs)"
proof (induction rs)
  case (Cons r rs)
  then have IH: "finite (regions rs)" "int (card (regions rs)) = sum_list (map snd rs)" and
    r: "region r \<inter> regions rs = {}" "0 < snd r" by simp_all
  have "finite (region r)" "int (card (region r)) = snd r" using r(2) by (simp_all add: region_def)
  with IH r(1) show ?case by (simp add: card_Un_disjoint)
qed simp

lemma free_blocks_apart:
  assumes "fl_ok bs"
  shows "apart (map (\<lambda>b. (start b, blk_size b)) bs)"
proof -
  have "sorted_wrt (\<lambda>b c. region (start b, blk_size b) \<inter> region (start c, blk_size c) = {}) bs"
  proof (rule sorted_wrt_mono_rel[of bs "\<lambda>b c. start b < start c"])
    fix b c assume "b \<in> set bs" "c \<in> set bs" "start b < start c"
    with assms show "region (start b, blk_size b) \<inter> region (start c, blk_size c) = {}"
      using gappedD(2)[of "set bs" b c] by (auto simp: fl_ok_def region_def)
  next
    show "sorted_wrt (\<lambda>b c. start b < start c) bs"
      using assms strict_sorted_iff[of "map start bs"] by (simp add: fl_ok_def sorted_wrt_map)
  qed
  then show ?thesis by (simp add: apart_def sorted_wrt_map)
qed

lemma total_allocated_live:
  assumes "client_inv am rs"
  shows "total_allocated_size am = sum_list (map snd rs)"
proof -
  let ?free = "map (\<lambda>b. (start b, blk_size b)) (explicit_list am)"
  have inv: "am_inv am" "0 \<le> am_size am" "apart rs" "\<forall>r \<in> set rs. 0 < snd r"
    "free_addrs am \<union> regions rs = {0 ..< am_size am}" "free_addrs am \<inter> regions rs = {}"
    using assms by (simp_all add: client_inv_def)
  have fl: "fl_ok (explicit_list am)" and sum: "sum_list (map blk_size (explicit_list am)) + total_allocated_size am = am_size am"
    using inv(1) by (simp_all add: am_inv_def)
  have "\<forall>r \<in> set ?free. 0 < snd r" using fl gappedD(1) by (fastforce simp: fl_ok_def)
  from card_regions[OF free_blocks_apart[OF fl] this]
  have f: "finite (regions ?free)" "int (card (regions ?free)) = sum_list (map blk_size (explicit_list am))"
    by (simp_all add: comp_def)
  have "regions ?free = free_addrs am" by (simp add: regions_def region_def free_addrs_def addrs_def block_addrs_def)
  with f card_regions[OF inv(3,4)] inv(6) have "int (card (free_addrs am \<union> regions rs)) =
      sum_list (map blk_size (explicit_list am)) + sum_list (map snd rs)"
    by (simp add: card_Un_disjoint)
  with inv(2,5) sum show ?thesis by simp
qed

lemma live_regions_sum:
  "sum_list (map snd (live_regions (mx_objs mx))) = (\<Sum>i \<in> live_ids mx. mo_phy_size (mx_objs mx ! i))"
proof -
  have "(\<Sum>mo \<leftarrow> filter live_obj xs. mo_phy_size mo) = (\<Sum>i | i < length xs \<and> live_obj (xs ! i). mo_phy_size (xs ! i))" for xs
  proof (induction xs rule: rev_induct)
    case (snoc x xs)
    have "{i. i < length (xs @ [x]) \<and> live_obj ((xs @ [x]) ! i)} =
        {i. i < length xs \<and> live_obj (xs ! i)} \<union> (if live_obj x then {length xs} else {})"
      by (auto simp: nth_append less_Suc_eq split: if_splits)
    moreover have "(\<Sum>i | i < length xs \<and> live_obj (xs ! i). mo_phy_size ((xs @ [x]) ! i)) =
        (\<Sum>i | i < length xs \<and> live_obj (xs ! i). mo_phy_size (xs ! i))"
      by (rule sum.cong) (auto simp: nth_append)
    ultimately show ?case using snoc by (simp add: sum.union_disjoint)
  qed simp
  then show ?thesis by (simp add: live_regions_def live_ids_def obj_region_def comp_def)
qed

lemma memory_used:
  assumes "l1_inv mx_inv live_ids [] st"
  shows "fst (l1mm_get_memory_usage (l1_mem st)) = (\<Sum>i \<leftarrow> all_objs st. mo_phy_size (mx_objs (l1_mem st) ! i))"
proof -
  have "client_inv (ta_address_manager (mx_pin_allocator (l1_mem st))) (live_regions (mx_objs (l1_mem st)))"
    using l1_invD(1)[OF assms] by (simp add: mx_inv_def ta_inv_def)
  from total_allocated_live[OF this] live_regions_sum[of "l1_mem st"] l1_invD(3)[OF assms] show ?thesis
    by (simp add: l1mm_get_memory_usage_def Let_def get_free_size_def get_heap_size_def owns_def sum_list_distinct_conv_sum_set)
qed

lemma l1_init_inv:
  assumes "mx_init sl sz al = Inr mx" and "sorted_list_contract sl" and "0 < sz"
  shows "l1_inv mx_inv live_ids [] (l1_init mx mid wttl rttl clock)"
  using mx_init_ok[OF assms] by (simp add: l1_inv_def tables_ok_def owns_def l1_init_def all_objs_def staged_entries_def)

section \<open>Write-finish, case by case\<close>

lemma take_staging_cases:
  assumes inv: "l1_inv minv live extra st" and k: "get_staging st k tag = Some e"
  defines "now \<equiv> l1_clock st (l1_ticks st)"
  shows "if ttl_is_locked now (os_write_lock e)
    then \<exists>st'. take_staging k tag st = Inr ((SUCCESS, Some (e\<lparr>os_write_lock := ttl_release (os_write_lock e),
          os_staging_charge := 0\<rparr>)), st') \<and> l1_inv minv live (extra @ [os_memory_obj e]) st' \<and>
        l1_objects st' = l1_objects st \<and> l1_mem st' = l1_mem st \<and> get_staging st' k tag = None
    else take_staging k tag st = Inr ((KEY_IN_WRONG_STATE, None), st\<lparr>l1_ticks := Suc (l1_ticks st)\<rparr>)"
proof (cases "ttl_is_locked now (os_write_lock e)")
  case False
  then show ?thesis using k by (simp add: take_staging_def check_lock_def tick_def now_def)
next
  case True
  let ?st1 = "st\<lparr>l1_ticks := Suc (l1_ticks st)\<rparr>"
  let ?e = "e\<lparr>os_write_lock := ttl_release (os_write_lock e)\<rparr>"
  have k1: "get_staging ?st1 k tag = Some e" using k by (simp add: get_staging_def)
  have "l1_inv minv live extra (set_staging k tag ?e ?st1)" by (rule staging_touch[OF _ k1]) (use inv in simp_all)
  from pop_staging_inv[OF this, of k tag ?e] obtain st' where
    "pop_staging k tag (set_staging k tag ?e ?st1) = Inr (?e\<lparr>os_staging_charge := 0\<rparr>, st')"
    "l1_inv minv live (extra @ [os_memory_obj e]) st'" "l1_objects st' = l1_objects st" "l1_mem st' = l1_mem st"
    "get_staging st' k tag = None" by auto
  with True k show ?thesis by (simp add: take_staging_def check_lock_def tick_def now_def Let_def)
qed

context memory_manager
begin

lemma mem_free_live:
  assumes inv: "l1_inv minv live objs st"
  shows "ensures (mem_free ops objs st) (\<lambda>st'. l1_inv minv live [] st' \<and> (\<exists>m. st' = st\<lparr>l1_mem := m\<rparr>) \<and>
    live (l1_mem st') = live (l1_mem st) - set objs)"
proof -
  have "l1_inv minv live ([] @ objs) st" using inv by simp
  from mem_free_inv[OF this] obtain m where m: "mem_free ops objs st = Inr (st\<lparr>l1_mem := m\<rparr>)"
    "l1_inv minv live [] (st\<lparr>l1_mem := m\<rparr>)" by (elim ensuresE) auto
  then have "live m = set (all_objs st)" by (simp add: l1_inv_def owns_def all_objs_def)
  moreover have "live (l1_mem st) = set (all_objs st) \<union> set objs" "set (all_objs st) \<inter> set objs = {}"
    using l1_invD(3)[OF inv] by (auto simp: owns_def)
  ultimately have "live m = live (l1_mem st) - set objs" by auto
  with m show ?thesis by auto
qed

lemma finish_write_one:
  assumes inv: "l1_inv minv live [] st"
  shows "\<exists>err st'. finish_write ops [k] tag st = Inr ([(k, err)], st') \<and> l1_inv minv live [] st' \<and>
    (case get_staging st k tag of
       None \<Rightarrow> err = KEY_NOT_EXIST \<and> l1_objects st' = l1_objects st \<and> live (l1_mem st') = live (l1_mem st)
     | Some e \<Rightarrow>
         if \<not> ttl_is_locked (l1_clock st (l1_ticks st)) (os_write_lock e)
         then err = KEY_IN_WRONG_STATE \<and> l1_objects st' = l1_objects st \<and> get_staging st' k tag = Some e \<and>
              live (l1_mem st') = live (l1_mem st)
         else err = SUCCESS \<and> get_staging st' k tag = None \<and>
              (case map_of (l1_objects st) k of
                 Some r \<Rightarrow> l1_objects st' = l1_objects st \<and> live (l1_mem st') = live (l1_mem st) - {os_memory_obj e}
               | None \<Rightarrow> live (l1_mem st') = live (l1_mem st) \<and>
                   (\<exists>r. map_of (l1_objects st') k = Some r \<and> os_memory_obj r = os_memory_obj e)))"
proof (cases "get_staging st k tag")
  case None
  have "l1_inv minv live [] st" by (rule inv)
  from mem_free_live[OF this] None show ?thesis
    by (auto simp: finish_write_def take_staging_def wa_empty_def Let_def elim!: ensuresE)
next
  case (Some e)
  note taken = take_staging_cases[OF inv Some]
  show ?thesis
  proof (cases "ttl_is_locked (l1_clock st (l1_ticks st)) (os_write_lock e)")
    case False
    let ?st1 = "st\<lparr>l1_ticks := Suc (l1_ticks st)\<rparr>"
    have "l1_inv minv live [] ?st1" using inv by simp
    from mem_free_live[OF this] taken False Some show ?thesis
      by (auto simp: finish_write_def wa_empty_def Let_def get_staging_def elim!: ensuresE)
  next
    case True
    let ?e = "e\<lparr>os_write_lock := ttl_release (os_write_lock e), os_staging_charge := 0\<rparr>"
    from taken True obtain st1 where st1: "take_staging k tag st = Inr ((SUCCESS, Some ?e), st1)"
      "l1_inv minv live [os_memory_obj e] st1" "l1_objects st1 = l1_objects st" "l1_mem st1 = l1_mem st"
      "get_staging st1 k tag = None" by auto
    show ?thesis
    proof (cases "map_of (l1_objects st) k")
      case resident: (Some r)
      from mem_free_live[OF st1(2)] obtain m where m: "mem_free ops [os_memory_obj e] st1 = Inr (st1\<lparr>l1_mem := m\<rparr>)"
        "l1_inv minv live [] (st1\<lparr>l1_mem := m\<rparr>)" "live m = live (l1_mem st) - {os_memory_obj e}"
        using st1(4) by (elim ensuresE) auto
      then show ?thesis
        using st1 True Some resident by (simp add: finish_write_def wa_empty_def Let_def get_staging_def)
    next
      case none: None
      let ?st2 = "st1\<lparr>l1_objects := AList.update k ?e (l1_objects st1)\<rparr>"
      have "l1_inv minv live [] ?st2" by (rule objects_insert) (use st1 none in simp_all)
      from mem_free_live[OF this] obtain m where m: "mem_free ops [] ?st2 = Inr (?st2\<lparr>l1_mem := m\<rparr>)"
        "l1_inv minv live [] (?st2\<lparr>l1_mem := m\<rparr>)" "live m = live (l1_mem st)"
        using st1(4) by (elim ensuresE) auto
      then show ?thesis
        using st1 True Some none
        by (simp add: finish_write_def wa_empty_def Let_def get_staging_def report_def)
    qed
  qed
qed

text \<open>A write reservation of a key that is neither resident nor staged under the tag.\<close>

lemma reserve_write_one:
  assumes inv: "l1_inv minv live [] st" and lay: "layout_ok layout"
    and fresh: "map_of (l1_objects st) k = None" "get_staging st k tag = None"
  shows "\<exists>r st'. reserve_write ops [k] [is_temp] layout tag st = Inr ([(k, r)], st') \<and> l1_inv minv live [] st' \<and>
    l1_objects st' = l1_objects st \<and> l1_clock st' = l1_clock st \<and>
    (r = (OUT_OF_MEMORY, None) \<and> live (l1_mem st') = live (l1_mem st) \<and> get_staging st' k tag = None \<or>
     (\<exists>i e. r = (SUCCESS, Some i) \<and> i \<notin> live (l1_mem st) \<and> live (l1_mem st') = insert i (live (l1_mem st)) \<and>
        l1_ticks st' = Suc (l1_ticks st) \<and> get_staging st' k tag = Some e \<and> os_memory_obj e = i \<and>
        os_write_lock e = ttl_acquire (l1_clock st (l1_ticks st)) (ttl_new (l1_write_ttl_seconds st))))"
proof -
  have scan: "reserve_write_scan tag (zip [k] [is_temp]) [] [] [] st = ([], [], [(k, is_temp)], st)"
    using fresh by simp
  have "ensures (reserve_write ops [k] [is_temp] layout tag st) (\<lambda>(_, st'). l1_inv minv live [] st')"
    by (rule reserve_write_inv[OF inv _ _ lay]) simp_all
  then obtain ret st' where run: "reserve_write ops [k] [is_temp] layout tag st = Inr (ret, st')" and inv': "l1_inv minv live [] st'"
    by (elim ensuresE) auto
  from allocate_law[OF l1_invD(1)[OF inv] lay, of 1] obtain err ids m where
    al: "mm_allocate ops (l1_mem st) layout 1 = Inr ((err, ids), m)" and m: "minv m" and
    ids: "if err = SUCCESS then int (length ids) = 1 \<and> distinct ids \<and> set ids \<inter> live (l1_mem st) = {} \<and>
               live m = live (l1_mem st) \<union> set ids \<and> (\<forall>i \<in> set ids. owner m i = None)
          else err = OUT_OF_MEMORY \<and> ids = [] \<and> live m = live (l1_mem st)" by auto
  show ?thesis
  proof (cases "err = SUCCESS")
    case False
    with ids have "err = OUT_OF_MEMORY" "ids = []" "live m = live (l1_mem st)" by simp_all
    with run inv' al scan fresh(2) show ?thesis
      by (auto simp: reserve_write_def report_def get_staging_def)
  next
    case True
    with ids obtain i where i: "ids = [i]" "i \<notin> live (l1_mem st)" "live m = insert i (live (l1_mem st))" "owner m i = None"
      by (cases ids; cases "tl ids") auto
    from set_owner_law[OF m _ i(4), of "l1_manager_id st"] i(3) obtain m' where
      m': "mm_set_l1_manager ops m i (l1_manager_id st) = Inr m'" "live m' = live m" by auto
    have "ret = [(k, (SUCCESS, Some i))] \<and> l1_objects st' = l1_objects st \<and> l1_clock st' = l1_clock st \<and> l1_mem st' = m' \<and>
        l1_ticks st' = Suc (l1_ticks st) \<and> (\<exists>e. get_staging st' k tag = Some e \<and> os_memory_obj e = i \<and>
        os_write_lock e = ttl_acquire (l1_clock st (l1_ticks st)) (ttl_new (l1_write_ttl_seconds st)))"
      using run al scan True i(1) m'(1)
      by (auto simp: reserve_write_def report_def tick_def put_staging_def set_staging_def get_staging_def Let_def)
    with run inv' i m' show ?thesis by auto
  qed
qed

text \<open>A write reservation that names such a key twice: the second entry overwrites the first.\<close>

lemma put_staging_twice:
  fixes st :: "('k, 'm) l1_manager" and k :: 'k and tag :: string and e1 e2 :: l1_object_state
  assumes "mm_get_size ops m1 (os_memory_obj e1) = mm_get_size ops m2 (os_memory_obj e1)"
  defines "st' \<equiv> put_staging ops k tag e2
      (snd (tick ((put_staging ops k tag e1 (snd (tick (st\<lparr>l1_mem := m1\<rparr>))))\<lparr>l1_mem := m2\<rparr>)))"
  shows "l1_mem st' = m2" and "st'\<lparr>l1_staging_bytes := l1_staging_bytes st' - mm_get_size ops m2 (os_memory_obj e1)\<rparr> =
    put_staging ops k tag e2 (st\<lparr>l1_mem := m2, l1_ticks := l1_ticks st + 2\<rparr>)"
  using assms(1) by (simp_all add: st'_def put_staging_def set_staging_def tick_def Let_def update_last)

lemma l1_inv_fresh_objs:
  assumes inv: "l1_inv minv live [] st" and m: "minv m" "live m = live (l1_mem st) \<union> set ids"
    and ids: "distinct ids" "set ids \<inter> live (l1_mem st) = {}"
  shows "l1_inv minv live ids (st\<lparr>l1_mem := m, l1_ticks := n\<rparr>)"
proof -
  have "distinct (all_objs st)" "live (l1_mem st) = set (all_objs st)"
    using l1_invD(3)[OF inv] by (auto simp: owns_def)
  moreover have a: "all_objs (st\<lparr>l1_mem := m, l1_ticks := n\<rparr>) = all_objs st" by (simp add: all_objs_def)
  ultimately have "owns live ids (st\<lparr>l1_mem := m, l1_ticks := n\<rparr>)"
    unfolding owns_def a using m(2) ids by (simp add: Int_commute)
  with m(1) l1_invD(2)[OF inv] show ?thesis by (simp add: l1_inv_def tables_ok_def staged_entries_def)
qed

lemma reserve_write_twice:
  assumes inv: "l1_inv minv live [] st" and lay: "layout_ok layout"
    and fresh: "map_of (l1_objects st) k = None" "get_staging st k tag = None"
  shows "\<exists>ret st'. reserve_write ops [k, k] [t1, t2] layout tag st = Inr (ret, st') \<and>
    (ret = [(k, (OUT_OF_MEMORY, None))] \<and> l1_inv minv live [] st' \<or>
     (\<exists>i j. ret = [(k, (SUCCESS, Some j))] \<and> i \<noteq> j \<and> map_option os_memory_obj (get_staging st' k tag) = Some j \<and>
        l1_inv minv live [i] (st'\<lparr>l1_staging_bytes := l1_staging_bytes st' - mm_get_size ops (l1_mem st') i\<rparr>)))"
proof -
  have scan: "reserve_write_scan tag (zip [k, k] [t1, t2]) [] [] [] st = ([], [], [(k, t1), (k, t2)], st)"
    using fresh by simp
  from allocate_law[OF l1_invD(1)[OF inv] lay, of 2] obtain err ids m where
    al: "mm_allocate ops (l1_mem st) layout 2 = Inr ((err, ids), m)" and m: "minv m" and
    ids: "if err = SUCCESS then int (length ids) = 2 \<and> distinct ids \<and> set ids \<inter> live (l1_mem st) = {} \<and>
               live m = live (l1_mem st) \<union> set ids \<and> (\<forall>i \<in> set ids. owner m i = None)
          else err = OUT_OF_MEMORY \<and> ids = [] \<and> live m = live (l1_mem st)" by auto
  show ?thesis
  proof (cases "err = SUCCESS")
    case False
    with ids have "err = OUT_OF_MEMORY" "ids = []" "live m = live (l1_mem st)" by simp_all
    with al scan l1_inv_mem[OF inv m] show ?thesis by (auto simp: reserve_write_def)
  next
    case True
    with ids have two: "length ids = 2" by simp
    then obtain i j where ij: "ids = [i, j]" by (auto simp: numeral_2_eq_2 length_Suc_conv)
    with ids True have live: "i \<noteq> j" "i \<notin> live (l1_mem st)" "j \<notin> live (l1_mem st)"
      "live m = live (l1_mem st) \<union> {i, j}" and ow: "owner m i = None" "owner m j = None" by auto
    from set_owner_law[OF m _ ow(1), of "l1_manager_id st"] live(4) obtain m1 where
      m1: "mm_set_l1_manager ops m i (l1_manager_id st) = Inr m1" "minv m1" "live m1 = live m" "owner m1 j = None"
      using ow(2) live(1) by auto
    from set_owner_law[OF m1(2) _ m1(4), of "l1_manager_id st"] m1(3) live(4) obtain m2 where
      m2: "mm_set_l1_manager ops m1 j (l1_manager_id st) = Inr m2" "minv m2" "live m2 = live m"
        "\<And>x. mm_get_size ops m2 x = mm_get_size ops m1 x"
      by auto
    define e where "e = (\<lambda>x n is_temp. \<lparr>os_memory_obj = x,
      os_write_lock = ttl_acquire (l1_clock st (l1_ticks st + n)) (ttl_new (l1_write_ttl_seconds st)),
      os_read_lock = ttl_new (l1_read_ttl_seconds st), os_is_temporary = is_temp, os_staging_charge = 0\<rparr>)"
    define st' where "st' = put_staging ops k tag (e j 1 t2)
      (snd (tick ((put_staging ops k tag (e i 0 t1) (snd (tick (st\<lparr>l1_mem := m1\<rparr>))))\<lparr>l1_mem := m2\<rparr>)))"
    have tw: "l1_mem st' = m2"
      "st'\<lparr>l1_staging_bytes := l1_staging_bytes st' - mm_get_size ops m2 i\<rparr> =
       put_staging ops k tag (e j 1 t2) (st\<lparr>l1_mem := m2, l1_ticks := l1_ticks st + 2\<rparr>)"
      using put_staging_twice[of m1 "e i 0 t1" m2 k tag "e j 1 t2" st] m2(4) by (simp_all add: st'_def e_def)
    have "l1_inv minv live ([i] @ [j]) (st\<lparr>l1_mem := m2, l1_ticks := l1_ticks st + 2\<rparr>)"
      using l1_inv_fresh_objs[OF inv m2(2), of "[i] @ [j]"] m2(3) live by simp
    then have I: "l1_inv minv live [i] (put_staging ops k tag (e j 1 t2) (st\<lparr>l1_mem := m2, l1_ticks := l1_ticks st + 2\<rparr>))"
      using fresh(2) by (intro put_staging_inv) (simp_all add: e_def get_staging_def)
    have g: "map_option os_memory_obj (get_staging st' k tag) = Some j"
      by (simp add: st'_def put_staging_def Let_def e_def get_staging_def set_staging_def)
    define os where "os = [On_reserved_write [k, k], L1_WRITE_RESERVED [k, k] tag]"
    have "reserve_write ops [k, k] [t1, t2] layout tag st = Inr ([(k, (SUCCESS, Some j))], report os st')"
      using al scan True m1(1) m2(1)
      by (simp add: reserve_write_def ij st'_def e_def os_def tick_def put_staging_def set_staging_def Let_def)
    moreover have "(report os st')\<lparr>l1_staging_bytes := l1_staging_bytes (report os st') - mm_get_size ops (l1_mem (report os st')) i\<rparr> =
        report os (st'\<lparr>l1_staging_bytes := l1_staging_bytes st' - mm_get_size ops m2 i\<rparr>)"
      by (simp add: report_def tw(1))
    ultimately show ?thesis using I g live(1) unfolding tw(2)[symmetric]
      by (auto simp: report_def get_staging_def)
  qed
qed

end

text \<open>The lemmas about L1 operations, on the mixed allocator.\<close>

lemmas dram_run_inv = memory_manager.l1_run_inv[OF dram.memory_manager_axioms]
  and dram_run_held = memory_manager.l1_run_held[OF dram.memory_manager_axioms]
  and dram_held_live = memory_manager.held_live[OF dram.memory_manager_axioms]
  and dram_finish_write_one = memory_manager.finish_write_one[OF dram.memory_manager_axioms]
  and dram_reserve_write_one = memory_manager.reserve_write_one[OF dram.memory_manager_axioms]
  and dram_reserve_write_twice = memory_manager.reserve_write_twice[OF dram.memory_manager_axioms]
  and dram_close_inv = memory_manager.close_inv[OF dram.memory_manager_axioms]

section \<open>Properties\<close>

text \<open>
  C2: The L1 manager never leaks and never loses track. Starting from a state in which the memory
  objects in the two tables are exactly the live objects of the allocator, any sequence of calls
  raises nothing and ends in such a state: every live memory object is in exactly one place, the
  bytes the allocator reports as used are the sizes of the objects in the tables, and the staging
  byte counter is the sum of the charges of the staging objects. (The keys of a write reservation
  must be distinct, with one flag each and a layout of at least a byte.)
\<close>

theorem l1_run_no_leak:
  assumes "l1_inv mx_inv live_ids [] st" and "\<forall>op \<in> set calls. l1_op_ok op"
  shows "\<exists>st'. l1_run l1mm_ops calls st = Inr st' \<and>
    distinct (all_objs st') \<and> set (all_objs st') = live_ids (l1_mem st') \<and>
    fst (l1mm_get_memory_usage (l1_mem st')) = (\<Sum>i \<leftarrow> all_objs st'. mo_phy_size (mx_objs (l1_mem st') ! i)) \<and>
    get_staging_memory_usage st' = sum_list (map os_staging_charge (staged_entries st'))"
proof -
  from dram_run_inv[OF assms] obtain st' where "l1_run l1mm_ops calls st = Inr st'" "l1_inv mx_inv live_ids [] st'"
    by (elim ensuresE)
  with memory_used[of st'] l1_invD(3,7)[of mx_inv live_ids "[]" st'] show ?thesis
    by (simp add: owns_def get_staging_memory_usage_def)
qed

text \<open>A small manager on 16 KiB of pinned memory, with a clock that stands at 5 ms.\<close>

definition dram_layout :: memory_layout_desc where
  "dram_layout = \<lparr>layout_shapes = [[2, 1000]], layout_dtypes = [f16]\<rparr>"

definition dram_start :: "(nat, mixed_allocator) l1_manager" where
  "dram_start = l1_init \<lparr>mx_align_bytes = 4096, mx_pin_allocator = ta_init std_sorted_list 16384 4096 None\<rparr> 7 60 60 (\<lambda>_. 5)"

lemma dram_start_inv: "l1_inv mx_inv live_ids [] dram_start"
  unfolding dram_start_def
  by (rule l1_init_inv[where sl = std_sorted_list and sz = 16384 and al = 4096])
    (simp_all add: mx_init_def std_sorted_list_contract)

lemma dram_layout_ok: "layout_ok dram_layout"
  by code_simp

theorem l1_run_no_leak_witness:
  "\<exists>st'. l1_run l1mm_ops [Reserve_write [1, 2] [False, True] dram_layout ''w'', Finish_write [1, 2] ''w'', Reserve_read [1] 2,
      Clear False] dram_start = Inr st' \<and> set (all_objs st') = live_ids (l1_mem st')"
  using l1_run_no_leak[OF dram_start_inv, of "[Reserve_write [1, 2] [False, True] dram_layout ''w'', Finish_write [1, 2] ''w'',
      Reserve_read [1] 2, Clear False]"] dram_layout_ok by auto

text \<open>
  C3: A reader's object cannot be taken away. If a resident object carries \<open>c\<close> read locks that do not
  expire meanwhile, then after any calls that release fewer than \<open>c\<close> of them and contain no forced
  delete of the key, no forced clear and no shutdown, whatever else they write, delete, clear or
  read, the key is still resident with the same memory object, which is still live, and the
  remaining locks are still counted.
\<close>

theorem l1_read_lock_protects:
  assumes "l1_inv mx_inv live_ids [] st" and "read_held k i c st"
    and "\<forall>op \<in> set calls. l1_op_ok op \<and> \<not> op_forces k op"
    and "sum_list (map (op_releases k) calls) < c"
  shows "\<exists>st' e. l1_run l1mm_ops calls st = Inr st' \<and> map_of (l1_objects st') k = Some e \<and> os_memory_obj e = i \<and>
    c - sum_list (map (op_releases k) calls) \<le> tl_counter (os_read_lock e) \<and> i \<in> live_ids (l1_mem st')"
proof -
  from dram_run_held[OF assms(1,2,4,3)] obtain st' where st': "l1_run l1mm_ops calls st = Inr st'"
    "l1_inv mx_inv live_ids [] st'" "read_held k i (c - sum_list (map (op_releases k) calls)) st'"
    by (elim ensuresE) auto
  with dram_held_live[OF st'(2,3)] show ?thesis by (auto simp: read_held_def split: option.splits)
qed

text \<open>
  C10: What finishing a write does, on every branch. A key with no staging object under the tag is
  reported missing and nothing changes. A staging object whose write lock has expired stays staged.
  Otherwise the staging object is taken: it becomes the resident object if the key has none, with
  its memory object unchanged; if the key is already resident, the first writer wins, the resident
  table is untouched and exactly the late writer's memory object is freed.
\<close>

theorem l1_finish_write_spec:
  assumes "l1_inv mx_inv live_ids [] st"
  shows "\<exists>err st'. finish_write l1mm_ops [k] tag st = Inr ([(k, err)], st') \<and>
    (case get_staging st k tag of
       None \<Rightarrow> err = KEY_NOT_EXIST \<and> l1_objects st' = l1_objects st \<and> live_ids (l1_mem st') = live_ids (l1_mem st)
     | Some e \<Rightarrow>
         if \<not> ttl_is_locked (l1_clock st (l1_ticks st)) (os_write_lock e)
         then err = KEY_IN_WRONG_STATE \<and> l1_objects st' = l1_objects st \<and> get_staging st' k tag = Some e \<and>
              live_ids (l1_mem st') = live_ids (l1_mem st)
         else err = SUCCESS \<and> get_staging st' k tag = None \<and>
              (case map_of (l1_objects st) k of
                 Some r \<Rightarrow> l1_objects st' = l1_objects st \<and>
                   live_ids (l1_mem st') = live_ids (l1_mem st) - {os_memory_obj e}
               | None \<Rightarrow> live_ids (l1_mem st') = live_ids (l1_mem st) \<and>
                   (\<exists>r. map_of (l1_objects st') k = Some r \<and> os_memory_obj r = os_memory_obj e)))"
  using dram_finish_write_one[OF assms, of k tag] by (elim exE conjE, intro exI conjI) assumption+

text \<open>
  C8: A written object is what is read back. Reserving a write for a key that is neither resident nor
  staged under the tag either reports out of memory and changes no table, or hands out a memory
  object that was not in use; before the write is finished readers are told that the key does not
  exist, and after it (within the write lock's time to live) they get exactly that object.
\<close>

theorem l1_write_read_roundtrip:
  assumes "l1_inv mx_inv live_ids [] st" and "layout_ok layout"
    and "map_of (l1_objects st) k = None" and "get_staging st k tag = None"
    and "l1_clock st (Suc (l1_ticks st)) < l1_clock st (l1_ticks st) + l1_write_ttl_seconds st * 1000"
  shows "\<exists>r st1. reserve_write l1mm_ops [k] [is_temp] layout tag st = Inr ([(k, r)], st1) \<and>
    fst (reserve_read [k] n st1) = [(k, (KEY_NOT_EXIST, None))] \<and>
    (r = (OUT_OF_MEMORY, None) \<and> get_staging st1 k tag = None \<or>
     (\<exists>i st2. r = (SUCCESS, Some i) \<and> i \<notin> live_ids (l1_mem st) \<and>
        finish_write l1mm_ops [k] tag st1 = Inr ([(k, SUCCESS)], st2) \<and>
        fst (reserve_read [k] n st2) = [(k, (SUCCESS, Some i))]))"
proof -
  from dram_reserve_write_one[OF assms(1-4), of is_temp] obtain r st1 where
    st1: "reserve_write l1mm_ops [k] [is_temp] layout tag st = Inr ([(k, r)], st1)" "l1_inv mx_inv live_ids [] st1"
      "l1_objects st1 = l1_objects st" "l1_clock st1 = l1_clock st" and
    r: "r = (OUT_OF_MEMORY, None) \<and> get_staging st1 k tag = None \<or>
      (\<exists>i e. r = (SUCCESS, Some i) \<and> i \<notin> live_ids (l1_mem st) \<and> l1_ticks st1 = Suc (l1_ticks st) \<and>
        get_staging st1 k tag = Some e \<and> os_memory_obj e = i \<and>
        os_write_lock e = ttl_acquire (l1_clock st (l1_ticks st)) (ttl_new (l1_write_ttl_seconds st)))"
    by blast
  have missing: "fst (reserve_read [k] n st1) = [(k, (KEY_NOT_EXIST, None))]"
    using assms(3) st1(3) by (simp add: reserve_read_def)
  from r show ?thesis
  proof (elim disjE exE conjE)
    assume "r = (OUT_OF_MEMORY, None)" "get_staging st1 k tag = None"
    with st1(1) missing show ?thesis by auto
  next
    fix i e assume i: "r = (SUCCESS, Some i)" "i \<notin> live_ids (l1_mem st)" "l1_ticks st1 = Suc (l1_ticks st)"
      "get_staging st1 k tag = Some e" "os_memory_obj e = i"
      "os_write_lock e = ttl_acquire (l1_clock st (l1_ticks st)) (ttl_new (l1_write_ttl_seconds st))"
    have "ttl_is_locked (l1_clock st1 (l1_ticks st1)) (os_write_lock e)"
      using assms(5) i(3,6) st1(4) by (simp add: ttl_is_locked_def ttl_acquire_def ttl_new_def)
    with dram_finish_write_one[OF st1(2), of k tag] i(4,5) assms(3) st1(3) obtain st2 e2 where
      st2: "finish_write l1mm_ops [k] tag st1 = Inr ([(k, SUCCESS)], st2)" "map_of (l1_objects st2) k = Some e2" "os_memory_obj e2 = i"
      by auto
    have "fst (reserve_read [k] n st2) = [(k, (SUCCESS, Some i))]"
      using st2 by (simp add: reserve_read_def case_prod_beta Let_def)
    with st1(1) missing i(1,2) st2(1) show ?thesis by auto
  qed
qed

text \<open>
  C34: Shutdown returns all memory: closing the manager frees every object in its tables, and the
  allocator then reports no byte in use.
\<close>

theorem l1_close_releases_all:
  assumes "l1_inv mx_inv live_ids [] st"
  shows "\<exists>st'. close_l1 l1mm_ops st = Inr st' \<and> live_ids (l1_mem st') = {} \<and> fst (l1mm_get_memory_usage (l1_mem st')) = 0"
proof -
  from dram_close_inv[OF assms] obtain st' where st': "close_l1 l1mm_ops st = Inr st'" "l1_inv mx_inv live_ids [] st'"
    "live_ids (l1_mem st') = {}" by (elim ensuresE) auto
  then have "all_objs st' = []" using l1_invD(3)[OF st'(2)] by (simp add: owns_def)
  with memory_used[OF st'(2)] st' show ?thesis by simp
qed

section \<open>The properties on a small manager\<close>

definition dram_after :: "nat l1_op list \<Rightarrow> (nat, mixed_allocator) l1_manager" where
  "dram_after calls = (case l1_run l1mm_ops calls dram_start of Inl _ \<Rightarrow> dram_start | Inr st \<Rightarrow> st)"

lemma dram_after_inv: "\<forall>op \<in> set calls. l1_op_ok op \<Longrightarrow> l1_inv mx_inv live_ids [] (dram_after calls)"
  using dram_run_inv[OF dram_start_inv, of calls] by (auto simp: dram_after_def elim!: ensuresE)

definition dram_shared :: "(nat, mixed_allocator) l1_manager" where
  "dram_shared = dram_after [Reserve_write [1] [False] dram_layout ''w'', Finish_write [1] ''w'', Reserve_read [1] 2]"

lemma dram_shared_inv: "l1_inv mx_inv live_ids [] dram_shared"
  unfolding dram_shared_def by (rule dram_after_inv) (simp add: dram_layout_ok)

lemma dram_shared_entry:
  "map_option (\<lambda>e. (os_memory_obj e, tl_counter (os_read_lock e), tl_expiration_ms (os_read_lock e), tl_ttl_ms (os_read_lock e)))
     (map_of (l1_objects dram_shared) 1) = Some (0, 2, 60005, 60000)"
  by code_simp

lemma dram_shared_clock: "l1_clock dram_shared t = 5"
  by code_simp

theorem l1_read_lock_protects_witness:
  "\<exists>st' e. l1_run l1mm_ops [Finish_read [1] 1, Delete [1] False, Clear False, Finish_write [1] ''w''] dram_shared = Inr st' \<and>
     map_of (l1_objects st') 1 = Some e \<and> os_memory_obj e = 0 \<and> 0 \<in> live_ids (l1_mem st')"
proof -
  have "read_held 1 0 2 dram_shared"
    using dram_shared_entry by (auto simp: read_held_def dram_shared_clock split: option.splits)
  moreover have "sum_list (map (op_releases 1) [Finish_read [1] 1, Delete [1] False, Clear False, Finish_write [1 :: nat] ''w'']) < 2"
    by code_simp
  ultimately show ?thesis
    using l1_read_lock_protects[OF dram_shared_inv, of 1 0 2 "[Finish_read [1] 1, Delete [1] False, Clear False, Finish_write [1] ''w'']"]
    by auto
qed

definition dram_late :: "(nat, mixed_allocator) l1_manager" where
  "dram_late = dram_after [Reserve_write [1] [False] dram_layout ''a'', Reserve_write [1] [False] dram_layout ''b'', Finish_write [1] ''a'']"

lemma dram_late_inv: "l1_inv mx_inv live_ids [] dram_late"
  unfolding dram_late_def by (rule dram_after_inv) (simp add: dram_layout_ok)

theorem l1_finish_write_spec_witness:
  "\<exists>st'. finish_write l1mm_ops [1] ''b'' dram_late = Inr ([(1, SUCCESS)], st') \<and> l1_objects st' = l1_objects dram_late \<and>
     live_ids (l1_mem st') = live_ids (l1_mem dram_late) - {1}"
proof -
  have b: "map_option (\<lambda>e. (os_memory_obj e, ttl_is_locked (l1_clock dram_late (l1_ticks dram_late)) (os_write_lock e)))
      (get_staging dram_late 1 ''b'') = Some (1, True)" by code_simp
  have a: "map_option os_memory_obj (map_of (l1_objects dram_late) 1) = Some 0" by code_simp
  from l1_finish_write_spec[OF dram_late_inv, of 1 "''b''"] a b show ?thesis by (auto split: if_splits)
qed

theorem l1_write_read_roundtrip_witness:
  "\<exists>r st1. reserve_write l1mm_ops [3] [False] dram_layout ''w'' dram_start = Inr ([(3, r)], st1) \<and>
    fst (reserve_read [3] 1 st1) = [(3, (KEY_NOT_EXIST, None))] \<and>
    (r = (OUT_OF_MEMORY, None) \<and> get_staging st1 3 ''w'' = None \<or>
     (\<exists>i st2. r = (SUCCESS, Some i) \<and> i \<notin> live_ids (l1_mem dram_start) \<and>
        finish_write l1mm_ops [3] ''w'' st1 = Inr ([(3, SUCCESS)], st2) \<and>
        fst (reserve_read [3] 1 st2) = [(3, (SUCCESS, Some i))]))"
  by (rule l1_write_read_roundtrip[OF dram_start_inv dram_layout_ok])
    (simp_all add: dram_start_def l1_init_def get_staging_def)

theorem l1_close_releases_all_witness:
  "\<exists>st'. close_l1 l1mm_ops dram_shared = Inr st' \<and> live_ids (l1_mem st') = {} \<and> fst (l1mm_get_memory_usage (l1_mem st')) = 0"
  by (rule l1_close_releases_all[OF dram_shared_inv])

text \<open>
  C36: A write reservation that names a key twice, the key being neither resident nor staged, spoils
  the staging counter. When there is memory, both reservations get their own object and the second
  overwrites the staging entry of the first, whose object is then in no table. The destructor frees
  that object, after which the manager is consistent again, with one exception: the staging counter
  still includes the size of the lost object, on top of the charges of all staging entries.
\<close>

theorem l1_duplicate_keys_overcount:
  assumes "l1_inv mx_inv live_ids [] st" and "layout_ok layout"
    and "map_of (l1_objects st) k = None" and "get_staging st k tag = None"
  shows "\<exists>ret st'. reserve_write l1mm_ops [k, k] [t1, t2] layout tag st = Inr (ret, st') \<and>
    (ret = [(k, (OUT_OF_MEMORY, None))] \<and> l1_inv mx_inv live_ids [] st' \<or>
     (\<exists>i j mx. ret = [(k, (SUCCESS, Some j))] \<and> map_option os_memory_obj (get_staging st' k tag) = Some j \<and>
        i \<in> live_ids (l1_mem st') \<and> i \<notin> set (all_objs st') \<and>
        tensor_del (l1_mem st') i = Inr mx \<and> live_ids mx = set (all_objs st') \<and>
        get_staging_memory_usage st' =
          sum_list (map os_staging_charge (staged_entries st')) + get_size (mx_objs (l1_mem st') ! i) \<and>
        l1_inv mx_inv live_ids []
          (st'\<lparr>l1_mem := mx, l1_staging_bytes := l1_staging_bytes st' - get_size (mx_objs (l1_mem st') ! i)\<rparr>)))"
proof -
  from dram_reserve_write_twice[OF assms, of t1 t2] obtain ret st' where
    run: "reserve_write l1mm_ops [k, k] [t1, t2] layout tag st = Inr (ret, st')" and
    alt: "ret = [(k, (OUT_OF_MEMORY, None))] \<and> l1_inv mx_inv live_ids [] st' \<or>
     (\<exists>i j. ret = [(k, (SUCCESS, Some j))] \<and> i \<noteq> j \<and> map_option os_memory_obj (get_staging st' k tag) = Some j \<and>
        l1_inv mx_inv live_ids [i] (st'\<lparr>l1_staging_bytes := l1_staging_bytes st' - mm_get_size l1mm_ops (l1_mem st') i\<rparr>))"
    by blast
  show ?thesis
  proof (cases "ret = [(k, (OUT_OF_MEMORY, None))]")
    case True
    with run alt show ?thesis by auto
  next
    case False
    with alt obtain i j where ret: "ret = [(k, (SUCCESS, Some j))]"
      and j: "map_option os_memory_obj (get_staging st' k tag) = Some j"
      and inv: "l1_inv mx_inv live_ids [i]
        (st'\<lparr>l1_staging_bytes := l1_staging_bytes st' - get_size (mx_objs (l1_mem st') ! i)\<rparr>)"
      by (auto simp: l1mm_ops_def)
    note D = l1_invD[OF inv, simplified]
    have own: "i \<notin> set (all_objs st')" "live_ids (l1_mem st') = insert i (set (all_objs st'))" "distinct (all_objs st')"
      using D(3) by (auto simp: owns_def all_objs_def)
    with D(1) parent_free_law[of "l1_mem st'" i] tensor_del_law[of "l1_mem st'" i] obtain mx where
      mx: "tensor_del (l1_mem st') i = Inr mx" "mx_inv mx" "live_ids mx = live_ids (l1_mem st') - {i}" by auto
    have "live_ids mx = set (all_objs st')" using own mx(3) by auto
    moreover have "get_staging_memory_usage st' =
        sum_list (map os_staging_charge (staged_entries st')) + get_size (mx_objs (l1_mem st') ! i)"
      using D(7) by (simp add: get_staging_memory_usage_def staged_entries_def)
    moreover have "l1_inv mx_inv live_ids []
        (st'\<lparr>l1_mem := mx, l1_staging_bytes := l1_staging_bytes st' - get_size (mx_objs (l1_mem st') ! i)\<rparr>)"
      using inv own mx by (auto simp: l1_inv_def owns_def all_objs_def tables_ok_def staged_entries_def)
    ultimately show ?thesis using run ret j own mx(1) by blast
  qed
qed

theorem l1_duplicate_keys_overcount_witness:
  "\<exists>ret st' i mx. reserve_write l1mm_ops [1, 1] [False, False] dram_layout ''w'' dram_start = Inr (ret, st') \<and>
     tensor_del (l1_mem st') i = Inr mx \<and> live_ids mx = set (all_objs st') \<and>
     get_staging_memory_usage st' =
       sum_list (map os_staging_charge (staged_entries st')) + get_size (mx_objs (l1_mem st') ! i)"
proof -
  have "case reserve_write l1mm_ops [1, 1] [False, False] dram_layout ''w'' dram_start of
      Inl _ \<Rightarrow> False | Inr (ret, st') \<Rightarrow> ret = [(1, (SUCCESS, Some 1))]" by code_simp
  then obtain st' where run: "reserve_write l1mm_ops [1, 1] [False, False] dram_layout ''w'' dram_start =
      Inr ([(1, (SUCCESS, Some 1))], st')"
    by (auto split: sum.splits)
  have fresh: "map_of (l1_objects dram_start) 1 = None" "get_staging dram_start 1 ''w'' = None"
    by (simp_all add: dram_start_def l1_init_def get_staging_def)
  from l1_duplicate_keys_overcount[OF dram_start_inv dram_layout_ok fresh, of False False] run
  show ?thesis by auto
qed

end
