(* ===== verification/Object_Keys.thy ===== *)
theory Object_Keys
  imports Memory_Interface "HOL-Library.Word" "HOL-Library.List_Lexorder" "HOL-Library.Char_ord"
begin

text \<open>
  Object keys: \<open>ObjectKeyIdentity\<close>, \<open>ObjectKey\<close>, \<open>EncodedObjectKey\<close>, the shard and window
  descriptors and the expansion of an IPC key into object keys of \<open>lmcache/v1/distributed/api.py\<close>,
  and the tuple encoding of \<open>lmcache/v1/mp_coordinator/utils/encoding.py\<close>. An object key is its
  identity: \<open>extra_attributes\<close> takes no part in equality or hashing and is left out.
\<close>

unbundle bit_operations_syntax

section \<open>Identity\<close>

type_synonym py_bytes = "8 word list"

record object_key =
  chunk_hash :: py_bytes
  kv_rank :: int
  model_name :: string
  object_group_id :: int
  cache_salt :: string
  key_tags :: "(string, string) dict"

definition freeze_dict :: "(string, string) dict \<Rightarrow> (string, string) dict" where
  "freeze_dict tags = sort_key fst tags"

definition validate_identity_tags :: "(string, string) dict \<Rightarrow> unit result" where
  "validate_identity_tags tags = (if list_all (\<lambda>(name, _). name \<noteq> '''') tags then Inr () else Inl ValueError)"

definition salt_forbidden :: "char list" where
  "salt_forbidden = [CHR ''@'', CHR ''/'', CHR 0x5C, CHR 0x00]"

definition object_key_identity :: "object_key \<Rightarrow> object_key result" where
  "object_key_identity k =
     (if CHR ''@'' \<in> set (model_name k) then Inl ValueError
      else if object_group_id k < 0 then Inl ValueError
      else if list_ex (\<lambda>c. c \<in> set salt_forbidden) (cache_salt k) then Inl ValueError
      else if length (cache_salt k) > 128 then Inl ValueError
      else (case validate_identity_tags (key_tags k) of
              Inl e \<Rightarrow> Inl e
            | Inr _ \<Rightarrow> Inr (k\<lparr>key_tags := freeze_dict (key_tags k)\<rparr>)))"

text \<open>The flat constructor: without an identity, and overriding fields of one.\<close>

record key_fields =
  f_chunk_hash :: "py_bytes option"
  f_model_name :: "string option"
  f_kv_rank :: "int option"
  f_object_group_id :: "int option"
  f_cache_salt :: "string option"
  f_tags :: "(string, string) dict option"

definition or_else :: "'a option \<Rightarrow> 'a \<Rightarrow> 'a" where
  "or_else x d = (case x of None \<Rightarrow> d | Some v \<Rightarrow> v)"

definition make_object_key :: "object_key option \<Rightarrow> key_fields \<Rightarrow> object_key result" where
  "make_object_key identity f =
     (case identity of
        None \<Rightarrow>
          (case (f_chunk_hash f, f_model_name f, f_kv_rank f) of
             (Some h, Some m, Some r) \<Rightarrow>
               object_key_identity \<lparr>chunk_hash = h, kv_rank = r, model_name = m,
                 object_group_id = or_else (f_object_group_id f) 0, cache_salt = or_else (f_cache_salt f) '''',
                 key_tags = or_else (f_tags f) []\<rparr>
           | _ \<Rightarrow> Inl TypeError)
      | Some k \<Rightarrow>
          if f_chunk_hash f \<noteq> None \<or> f_model_name f \<noteq> None \<or> f_kv_rank f \<noteq> None \<or> f_object_group_id f \<noteq> None \<or>
             f_cache_salt f \<noteq> None \<or> f_tags f \<noteq> None
          then object_key_identity \<lparr>chunk_hash = or_else (f_chunk_hash f) (chunk_hash k),
                 kv_rank = or_else (f_kv_rank f) (kv_rank k), model_name = or_else (f_model_name f) (model_name k),
                 object_group_id = or_else (f_object_group_id f) (object_group_id k),
                 cache_salt = or_else (f_cache_salt f) (cache_salt k), key_tags = or_else (f_tags f) (key_tags k)\<rparr>
          else Inr k)"

definition flat_key :: "py_bytes \<Rightarrow> string \<Rightarrow> int \<Rightarrow> int \<Rightarrow> string \<Rightarrow> (string, string) dict \<Rightarrow> object_key result" where
  "flat_key h m r g s t = make_object_key None \<lparr>f_chunk_hash = Some h, f_model_name = Some m, f_kv_rank = Some r,
     f_object_group_id = Some g, f_cache_salt = Some s, f_tags = Some t\<rparr>"

text \<open>The keys that exist: what the constructor returns.\<close>

definition key_ok :: "object_key \<Rightarrow> bool" where
  "key_ok k \<longleftrightarrow> object_key_identity k = Inr k"

section \<open>Wire form\<close>

record encoded_object_key =
  chunk_hash_hex :: string
  e_model_name :: string
  e_kv_rank :: int
  e_object_group_id :: int
  e_cache_salt :: string
  e_tags :: "(string, string) dict"

definition make_encoded :: "encoded_object_key \<Rightarrow> encoded_object_key result" where
  "make_encoded e =
     (case validate_identity_tags (e_tags e) of
        Inl err \<Rightarrow> Inl err
      | Inr _ \<Rightarrow> Inr (e\<lparr>e_tags := freeze_dict (e_tags e)\<rparr>))"

definition hex_digit :: "nat \<Rightarrow> char" where
  "hex_digit n = ''0123456789abcdef'' ! n"

fun hex :: "py_bytes \<Rightarrow> string" where
  "hex [] = ''''"
| "hex (b # bs) = hex_digit (unat b div 16) # hex_digit (unat b mod 16) # hex bs"

definition hex_value :: "char \<Rightarrow> nat option" where
  "hex_value c = map_of (zip ''0123456789abcdefABCDEF'' ([0..<16] @ [10..<16])) c"

definition is_ascii_space :: "char \<Rightarrow> bool" where
  "is_ascii_space c \<longleftrightarrow> c \<in> set [CHR 0x20, CHR 0x09, CHR 0x0A, CHR 0x0B, CHR 0x0C, CHR 0x0D]"

text \<open>\<open>bytes.fromhex\<close>: pairs of digits, white space allowed between the pairs.\<close>

fun fromhex :: "string \<Rightarrow> py_bytes result" where
  "fromhex [] = Inr []"
| "fromhex (c # cs) =
     (if is_ascii_space c then fromhex cs
      else (case cs of
              [] \<Rightarrow> Inl ValueError
            | d # ds \<Rightarrow>
                (case (hex_value c, hex_value d) of
                   (Some h, Some l) \<Rightarrow>
                     (case fromhex ds of Inl e \<Rightarrow> Inl e | Inr bs \<Rightarrow> Inr (word_of_nat (16 * h + l) # bs))
                 | _ \<Rightarrow> Inl ValueError)))"

definition to_encoded_object_key :: "object_key \<Rightarrow> encoded_object_key result" where
  "to_encoded_object_key k = make_encoded
     \<lparr>chunk_hash_hex = hex (chunk_hash k), e_model_name = model_name k, e_kv_rank = kv_rank k,
      e_object_group_id = object_group_id k, e_cache_salt = cache_salt k, e_tags = key_tags k\<rparr>"

definition to_object_key :: "encoded_object_key \<Rightarrow> object_key result" where
  "to_object_key e =
     (case fromhex (chunk_hash_hex e) of
        Inl err \<Rightarrow> Inl err
      | Inr h \<Rightarrow> flat_key h (e_model_name e) (e_kv_rank e) (e_object_group_id e) (e_cache_salt e) (e_tags e))"

section \<open>Capture encoding\<close>

type_synonym encoded_key = "py_bytes \<times> string \<times> int \<times> int \<times> string"

definition encode_key :: "object_key \<Rightarrow> encoded_key" where
  "encode_key k = (chunk_hash k, model_name k, kv_rank k, object_group_id k, cache_salt k)"

definition decode_key :: "encoded_key \<Rightarrow> object_key result" where
  "decode_key e = (case e of (h, m, r, g, s) \<Rightarrow>
     make_object_key None \<lparr>f_chunk_hash = Some h, f_model_name = Some m, f_kv_rank = Some r,
       f_object_group_id = Some g, f_cache_salt = Some s, f_tags = None\<rparr>)"

section \<open>KV ranks\<close>

definition ComputeKVRank :: "int \<Rightarrow> int \<Rightarrow> int \<Rightarrow> int \<Rightarrow> int" where
  "ComputeKVRank world_size global_rank local_world_size local_rank =
     push_bit 24 world_size OR push_bit 16 global_rank OR push_bit 8 local_world_size OR local_rank"

definition WorldSizeFromKVRank :: "int \<Rightarrow> int" where
  "WorldSizeFromKVRank rank = drop_bit 24 rank AND 255"

record shard_replication_desc =
  group_tp_replicas :: "int list"
  group_dcp_shards :: "int list"

definition make_shard_desc :: "int list \<Rightarrow> int list \<Rightarrow> shard_replication_desc result" where
  "make_shard_desc tp dcp =
     (if dcp \<noteq> [] \<and> length dcp \<noteq> length tp then Inl ValueError
      else Inr \<lparr>group_tp_replicas = tp, group_dcp_shards = dcp\<rparr>)"

text \<open>Indexing a Python sequence; negative indices count from the end.\<close>

definition py_index :: "'a list \<Rightarrow> int \<Rightarrow> 'a result" where
  "py_index xs i =
     (if 0 \<le> i \<and> i < int (length xs) then Inr (xs ! nat i)
      else if - int (length xs) \<le> i \<and> i < 0 then Inr (xs ! nat (int (length xs) + i))
      else Inl IndexError)"

definition tp_replicas :: "shard_replication_desc \<Rightarrow> int \<Rightarrow> int result" where
  "tp_replicas sd g = (if group_tp_replicas sd = [] then Inr 1 else py_index (group_tp_replicas sd) g)"

definition dcp_shards :: "shard_replication_desc \<Rightarrow> int \<Rightarrow> int result" where
  "dcp_shards sd g = (if group_dcp_shards sd = [] then Inr 1 else py_index (group_dcp_shards sd) g)"

definition num_kv_readers :: "shard_replication_desc \<Rightarrow> int \<Rightarrow> int result" where
  "num_kv_readers sd g =
     (case tp_replicas sd g of
        Inl e \<Rightarrow> Inl e
      | Inr tp \<Rightarrow> (case dcp_shards sd g of
                     Inl e \<Rightarrow> Inl e
                   | Inr dcp \<Rightarrow> if dcp = 0 then Inl ZeroDivisionError else Inr (max 1 (tp div dcp))))"

text \<open>\<open>range(0, stop, step)\<close>.\<close>

definition py_range :: "int \<Rightarrow> int \<Rightarrow> int list result" where
  "py_range stop step =
     (if step = 0 then Inl ValueError
      else if step > 0 then Inr (map (\<lambda>i. int i * step) [0 ..< nat ((stop + step - 1) div step)])
      else Inr (map (\<lambda>i. int i * step) [0 ..< nat ((stop + step + 1) div step)]))"

datatype config_value = Config_str string | Config_other

record ipc_key =
  ik_model_name :: string
  ik_world_size :: int
  ik_worker_id :: "int option"
  ik_cache_salt :: string
  ik_request_configs :: "(string, config_value) dict option"

definition lookup_worker_ids :: "ipc_key \<Rightarrow> int \<Rightarrow> int \<Rightarrow> int list result" where
  "lookup_worker_ids ipc tp dcp =
     (case ik_worker_id ipc of
        None \<Rightarrow>
          (case py_range (ik_world_size ipc) tp of
             Inl e \<Rightarrow> Inl e
           | Inr firsts \<Rightarrow> Inr (concat (map (\<lambda>first. map (\<lambda>shard. first + shard) [0 .. dcp - 1]) firsts)))
      | Some w \<Rightarrow> if tp = 0 \<or> dcp = 0 then Inl ZeroDivisionError else Inr [w - w mod tp + w mod dcp])"

definition lookup_kv_ranks :: "ipc_key \<Rightarrow> int \<Rightarrow> int \<Rightarrow> int list result" where
  "lookup_kv_ranks ipc tp dcp =
     (case lookup_worker_ids ipc tp dcp of
        Inl e \<Rightarrow> Inl e
      | Inr ws \<Rightarrow> Inr (map (\<lambda>w. ComputeKVRank (ik_world_size ipc) w (ik_world_size ipc) w) ws))"

section \<open>From IPC keys to object keys\<close>

definition tag_prefix :: string where
  "tag_prefix = ''lmcache.tag.''"

fun request_tags_loop ::
  "(string, config_value) dict \<Rightarrow> (string, string) dict \<Rightarrow> (string, string) dict result" where
  "request_tags_loop [] tags = Inr tags"
| "request_tags_loop ((name, val) # items) tags =
     (if take (length tag_prefix) name \<noteq> tag_prefix then request_tags_loop items tags
      else (case val of
              Config_other \<Rightarrow> Inl ValueError
            | Config_str v \<Rightarrow> request_tags_loop items (AList.update (drop (length tag_prefix) name) v tags)))"

definition get_request_tags :: "(string, config_value) dict option \<Rightarrow> (string, string) dict result" where
  "get_request_tags configs =
     (case request_tags_loop (or_else configs []) [] of
        Inl e \<Rightarrow> Inl e
      | Inr tags \<Rightarrow> (case validate_identity_tags tags of Inl e \<Rightarrow> Inl e | Inr _ \<Rightarrow> Inr (freeze_dict tags)))"

definition group_kv_ranks :: "ipc_key \<Rightarrow> shard_replication_desc \<Rightarrow> int \<Rightarrow> int list result" where
  "group_kv_ranks ipc sd g =
     (case tp_replicas sd g of
        Inl e \<Rightarrow> Inl e
      | Inr tp \<Rightarrow> (case dcp_shards sd g of Inl e \<Rightarrow> Inl e | Inr dcp \<Rightarrow> lookup_kv_ranks ipc tp dcp))"

definition ipc_key_to_object_keys ::
  "ipc_key \<Rightarrow> py_bytes list \<Rightarrow> int list \<Rightarrow> shard_replication_desc \<Rightarrow> object_key list list result" where
  "ipc_key_to_object_keys ipc chunk_hashes object_group_ids sd =
     (case get_request_tags (ik_request_configs ipc) of
        Inl e \<Rightarrow> Inl e
      | Inr tags \<Rightarrow>
          traverse (\<lambda>g. map_sum id concat (traverse (\<lambda>h.
            (case group_kv_ranks ipc sd g of
               Inl e \<Rightarrow> Inl e
             | Inr ranks \<Rightarrow> traverse (\<lambda>r. flat_key h (ik_model_name ipc) r g (ik_cache_salt ipc) tags) ranks)) chunk_hashes))
            object_group_ids)"

record attn_window_desc =
  num_chunks_in_sw :: "int list"
  attn_world_size :: int
  group_kinds :: "string list"

definition valid_group_kinds :: "string list" where
  "valid_group_kinds = [''attention'', ''recurrent'', ''aux'']"

definition make_attn_window_desc :: "attn_window_desc \<Rightarrow> attn_window_desc result" where
  "make_attn_window_desc d =
     (if attn_world_size d < 1 then Inl ValueError
      else if list_ex (\<lambda>w. w = 0 \<or> w < -1) (num_chunks_in_sw d) then Inl ValueError
      else if group_kinds d \<noteq> [] \<and> length (group_kinds d) \<noteq> length (num_chunks_in_sw d) then Inl ValueError
      else if list_ex (\<lambda>k. k \<notin> set valid_group_kinds) (group_kinds d) then Inl ValueError
      else Inr d)"

definition is_full_attention :: "attn_window_desc \<Rightarrow> int \<Rightarrow> bool result" where
  "is_full_attention d g = map_sum id (\<lambda>w. w < 0) (py_index (num_chunks_in_sw d) g)"

record grouped_object_keys =
  gk_keys :: "object_key list"
  gk_object_group_id :: int
  gk_layout_desc :: memory_layout_desc
  gk_sliding_window_size :: int
  gk_num_kv_readers :: int

definition make_grouped :: "grouped_object_keys \<Rightarrow> grouped_object_keys result" where
  "make_grouped g =
     (if gk_sliding_window_size g = 0 \<or> gk_sliding_window_size g < -1 then Inl ValueError
      else if gk_num_kv_readers g < 1 then Inl ValueError
      else Inr g)"

definition grouped_row ::
  "ipc_key \<Rightarrow> py_bytes list \<Rightarrow> (string, string) dict \<Rightarrow> int \<Rightarrow> memory_layout_desc \<Rightarrow> int \<Rightarrow> int \<Rightarrow> int
     \<Rightarrow> grouped_object_keys result" where
  "grouped_row ipc chunk_hashes tags g layout window readers rank =
     (case traverse (\<lambda>h. flat_key h (ik_model_name ipc) rank g (ik_cache_salt ipc) tags) chunk_hashes of
        Inl e \<Rightarrow> Inl e
      | Inr keys \<Rightarrow> make_grouped \<lparr>gk_keys = keys, gk_object_group_id = g, gk_layout_desc = layout,
          gk_sliding_window_size = window, gk_num_kv_readers = readers\<rparr>)"

definition ipc_key_to_grouped_object_keys ::
  "ipc_key \<Rightarrow> py_bytes list \<Rightarrow> int list \<Rightarrow> (int, memory_layout_desc) dict \<Rightarrow> attn_window_desc \<Rightarrow>
     shard_replication_desc \<Rightarrow> grouped_object_keys list result" where
  "ipc_key_to_grouped_object_keys ipc chunk_hashes object_group_ids layouts attn sd =
     (case get_request_tags (ik_request_configs ipc) of
        Inl e \<Rightarrow> Inl e
      | Inr tags \<Rightarrow>
          map_sum id concat (traverse (\<lambda>g.
            (case map_of layouts g of
               None \<Rightarrow> Inl ValueError
             | Some layout \<Rightarrow>
                 if \<not> (0 \<le> g \<and> g < int (length (num_chunks_in_sw attn))) then Inl ValueError
                 else (case (py_index (num_chunks_in_sw attn) g, num_kv_readers sd g) of
                         (Inl e, _) \<Rightarrow> Inl e
                       | (_, Inl e) \<Rightarrow> Inl e
                       | (Inr window, Inr readers) \<Rightarrow>
                           (case group_kv_ranks ipc sd g of
                              Inl e \<Rightarrow> Inl e
                            | Inr ranks \<Rightarrow> traverse (grouped_row ipc chunk_hashes tags g layout window readers) ranks))))
            object_group_ids))"

section \<open>Wire form round trip\<close>

lemma hex_digit_cases:
  "n < 16 \<Longrightarrow> hex_value (hex_digit n) = Some n \<and> \<not> is_ascii_space (hex_digit n)"
proof -
  have "\<forall>n \<in> set [0 ..< 16]. hex_value (hex_digit n) = Some n \<and> \<not> is_ascii_space (hex_digit n)" by code_simp
  then show "n < 16 \<Longrightarrow> hex_value (hex_digit n) = Some n \<and> \<not> is_ascii_space (hex_digit n)" by simp
qed

lemma fromhex_hex: "fromhex (hex bs) = Inr bs"
proof (induction bs)
  case (Cons b bs)
  have "unat b < 256" using unsigned_less[of b, where ?'a = nat] by simp
  then have "unat b div 16 < 16" "unat b mod 16 < 16" by simp_all
  with hex_digit_cases have "hex_value (hex_digit (unat b div 16)) = Some (unat b div 16)"
    "hex_value (hex_digit (unat b mod 16)) = Some (unat b mod 16)" "\<not> is_ascii_space (hex_digit (unat b div 16))" by simp_all
  moreover have "word_of_nat (16 * (unat b div 16) + unat b mod 16) = b" by simp
  ultimately show ?case using Cons by simp
qed simp

lemma key_okD:
  assumes "key_ok k"
  shows "freeze_dict (key_tags k) = key_tags k" and "validate_identity_tags (key_tags k) = Inr ()"
    and "object_key_identity (k\<lparr>key_tags := []\<rparr>) = Inr (k\<lparr>key_tags := []\<rparr>)"
proof -
  from assms have id: "object_key_identity k = Inr k" by (simp add: key_ok_def)
  then have v: "validate_identity_tags (key_tags k) = Inr ()"
    by (auto simp: object_key_identity_def split: if_splits sum.splits)
  then show "validate_identity_tags (key_tags k) = Inr ()" .
  from id v have "k\<lparr>key_tags := freeze_dict (key_tags k)\<rparr> = k"
    by (auto simp: object_key_identity_def split: if_splits)
  then show "freeze_dict (key_tags k) = key_tags k" by (metis object_key.select_convs(6) object_key.surjective object_key.update_convs(6))
  show "object_key_identity (k\<lparr>key_tags := []\<rparr>) = Inr (k\<lparr>key_tags := []\<rparr>)"
    using id by (auto simp: object_key_identity_def validate_identity_tags_def freeze_dict_def split: if_splits)
qed

lemma flat_key_eq:
  "flat_key h m r g s t = object_key_identity \<lparr>chunk_hash = h, kv_rank = r, model_name = m, object_group_id = g, cache_salt = s, key_tags = t\<rparr>"
  by (simp add: flat_key_def make_object_key_def or_else_def)

lemma decode_encode_key:
  assumes "key_ok k"
  shows "decode_key (encode_key k) = Inr (k\<lparr>key_tags := []\<rparr>)"
proof -
  have "decode_key (encode_key k) = object_key_identity (k\<lparr>key_tags := []\<rparr>)"
    by (cases k) (simp add: decode_key_def encode_key_def make_object_key_def or_else_def)
  with key_okD(3)[OF assms] show ?thesis by simp
qed

section \<open>KV ranks\<close>

lemma push_bit_OR_add:
  fixes a b :: int
  assumes "0 \<le> b" "b < 2 ^ n"
  shows "push_bit n a OR b = a * 2 ^ n + b"
proof -
  have "take_bit n b = b" using assms by (simp add: take_bit_int_eq_self)
  then have "push_bit n a AND b = 0"
    by (intro bit_eqI) (metis bit_and_iff bit_push_bit_iff bit_take_bit_iff bit_0_eq bot_apply bot_bool_def not_le)
  then have "push_bit n a OR b = push_bit n a + b" by (rule disjunctive_add_eq_or[symmetric])
  then show ?thesis by (simp add: push_bit_eq_mult)
qed

lemma ComputeKVRank_sum:
  assumes "0 \<le> g" "g < 256" "0 \<le> lw" "lw < 256" "0 \<le> lr" "lr < 256"
  shows "ComputeKVRank w g lw lr = w * 2 ^ 24 + g * 2 ^ 16 + lw * 2 ^ 8 + lr"
proof -
  have 1: "push_bit 8 lw OR lr = lw * 2 ^ 8 + lr" using assms by (intro push_bit_OR_add) simp_all
  have 2: "push_bit 16 g OR (lw * 2 ^ 8 + lr) = g * 2 ^ 16 + (lw * 2 ^ 8 + lr)" using assms by (intro push_bit_OR_add) simp_all
  have 3: "push_bit 24 w OR (g * 2 ^ 16 + (lw * 2 ^ 8 + lr)) = w * 2 ^ 24 + (g * 2 ^ 16 + (lw * 2 ^ 8 + lr))"
    using assms by (intro push_bit_OR_add) simp_all
  show ?thesis by (simp only: ComputeKVRank_def 1 2 3 add.assoc)
qed

text \<open>The worker ids of a lookup and of a worker key, for a layout in which the shards divide the replicas and those the world.\<close>

lemma lookup_ids_range:
  assumes "0 < tp" "0 \<le> ws" "tp dvd ws"
  shows "py_range ws tp = Inr (map (\<lambda>i. int i * tp) [0 ..< nat (ws div tp)])"
proof -
  obtain q where q: "ws = tp * q" using assms(3) by blast
  have "(tp - 1 + tp * q) div tp = q + (tp - 1) div tp" using assms(1) by simp
  then have "(ws + tp - 1) div tp = ws div tp" using assms(1) q by (simp add: algebra_simps div_pos_pos_trivial)
  with assms(1) show ?thesis by (simp add: py_range_def)
qed

lemma split_unique:
  fixes a i n :: int
  assumes "0 < n" "0 \<le> x" "x < n" "0 \<le> y" "y < n" "n * a + x = n * i + y"
  shows "a = i \<and> x = y"
proof -
  have "(n * a + x) div n = a" "(n * i + y) div n = i" using assms(1-5) by simp_all
  with assms(6) show ?thesis by simp
qed

definition shard_worker :: "int \<Rightarrow> int \<Rightarrow> int \<Rightarrow> int" where
  "shard_worker tp dcp w = w - w mod tp + w mod dcp"

lemma shard_worker_readers:
  assumes "0 < tp" "0 < dcp" "dcp dvd tp" "tp dvd ws" "0 \<le> i" "i < ws div tp" "0 \<le> s" "s < dcp"
  shows "{w. 0 \<le> w \<and> w < ws \<and> shard_worker tp dcp w = i * tp + s} = (\<lambda>m. i * tp + s + m * dcp) ` {0 ..< tp div dcp}"
    (is "?L = ?R")
proof -
  obtain q where tp: "tp = dcp * q" using assms(3) by blast
  then have q: "0 < q" "tp div dcp = q" using assms(1,2) by (simp_all add: zero_less_mult_iff)
  obtain n where ws: "ws = tp * n" using assms(4) by blast
  then have n: "i < n" using assms(1,6) by simp
  show ?thesis
  proof (intro set_eqI iffI)
    fix w assume "w \<in> ?L"
    then have w: "0 \<le> w" "w < ws" "w - w mod tp + w mod dcp = i * tp + s" by (simp_all add: shard_worker_def)
    have md: "w mod tp mod dcp = w mod dcp" by (simp add: tp mod_mod_cancel)
    have le: "dcp \<le> tp" using tp q(1) assms(2) by (simp add: mult_le_cancel_left1)
    have b: "0 \<le> w mod dcp" "w mod dcp < tp" "0 \<le> w mod tp" "w mod tp < tp" using assms(1,2) less_le_trans[OF pos_mod_bound le] by simp_all
    have "tp * (w div tp) + w mod dcp = tp * i + s"
      using w(3) minus_mod_eq_mult_div[of w tp] by (simp only: mult.commute)
    from split_unique[OF assms(1) b(1,2) assms(7) less_le_trans[OF assms(8) le] this]
    have "w div tp = i" "w mod dcp = s" by simp_all
    then have "w = i * tp + (dcp * (w mod tp div dcp) + s)"
      using md mult_div_mod_eq[of tp w] mult_div_mod_eq[of dcp "w mod tp"] by (metis mult.commute)
    moreover have "dcp * (w mod tp div dcp) < dcp * q"
      using mult_div_mod_eq[of dcp "w mod tp"] b(4) assms(2) pos_mod_sign[of dcp "w mod tp"] tp by linarith
    then have "w mod tp div dcp < q" using assms(2) by (simp add: mult_less_cancel_left_pos)
    moreover have "0 \<le> w mod tp div dcp" using b(3) assms(2) by (simp add: pos_imp_zdiv_nonneg_iff)
    ultimately show "w \<in> ?R" by (intro image_eqI[of _ _ "w mod tp div dcp"]) (simp_all add: q algebra_simps)
  next
    fix w assume "w \<in> ?R"
    then obtain m where m': "w = i * tp + s + m * dcp" "m \<in> {0 ..< q}" unfolding q(2) by (rule imageE)
    then have m: "w = i * tp + s + m * dcp" "0 \<le> m" "m < q" by simp_all
    have "m * dcp \<le> (q - 1) * dcp" using m(3) assms(2) by (intro mult_right_mono) simp_all
    then have r: "0 \<le> s + m * dcp" "s + m * dcp < tp" using assms(2,7,8) m(2) by (simp_all add: tp algebra_simps)
    have w: "w = tp * i + (s + m * dcp)" using m(1) by (simp add: algebra_simps)
    have 1: "w mod tp = s + m * dcp" unfolding w using r by simp
    have "w = s + dcp * (i * q + m)" using m(1) tp by (simp add: algebra_simps)
    then have 2: "w mod dcp = s" using assms(7,8) by simp
    have 3: "0 \<le> w" unfolding w using assms(1,5) r by simp
    have "tp * i + tp \<le> tp * n" using mult_left_mono[of "i + 1" n tp] n assms(1) by (simp add: algebra_simps)
    then have 4: "w < ws" unfolding w ws using r by linarith
    have "shard_worker tp dcp w = i * tp + s" unfolding shard_worker_def 1 2 using m(1) by linarith
    with 3 4 show "w \<in> ?L" by simp
  qed
qed

lemma shard_ids_facts:
  assumes "0 < tp" "0 < dcp" "dcp dvd tp" "0 \<le> ws" "tp dvd ws"
  defines "ids \<equiv> concat (map (\<lambda>first. map (\<lambda>shard. first + shard) [0 .. dcp - 1]) (map (\<lambda>i. int i * tp) [0 ..< nat (ws div tp)]))"
  shows "distinct ids" and "0 \<le> w \<and> w < ws \<Longrightarrow> shard_worker tp dcp w \<in> set ids"
    and "r \<in> set ids \<Longrightarrow> int (card {w. 0 \<le> w \<and> w < ws \<and> shard_worker tp dcp w = r}) = tp div dcp"
proof -
  have le: "dcp \<le> tp" using assms(1,3) by (rule zdvd_imp_le[rotated])
  let ?idx = "List.product [0 ..< nat (ws div tp)] [0 .. dcp - 1]"
  have ids: "ids = map (\<lambda>(i, s). tp * int i + s) ?idx"
    by (simp add: ids_def product_concat_map map_concat comp_def mult.commute)
  have idx: "(i, s) \<in> set ?idx \<longleftrightarrow> i < nat (ws div tp) \<and> 0 \<le> s \<and> s < dcp" for i s by auto
  have "inj_on (\<lambda>(i, s). tp * int i + s) (set ?idx)"
  proof (rule inj_onI, clarify)
    fix i s i' s' assume "(i, s) \<in> set ?idx" "(i', s') \<in> set ?idx" "tp * int i + s = tp * int i' + s'"
    with split_unique[of tp s s' "int i" "int i'"] assms(1) le show "i = i' \<and> s = s'" unfolding idx by auto
  qed
  then show "distinct ids" unfolding ids by (simp add: distinct_map distinct_product)
  have mem: "tp * i + s \<in> set ids" if "0 \<le> i" "i < ws div tp" "0 \<le> s" "s < dcp" for i s
  proof -
    have "(nat i, s) \<in> set ?idx" unfolding idx using that by simp
    then show ?thesis unfolding ids using that(1) by (auto intro!: image_eqI[of _ _ "(nat i, s)"])
  qed
  show "shard_worker tp dcp w \<in> set ids" if w: "0 \<le> w \<and> w < ws"
  proof -
    have "tp * (w div tp) < tp * (ws div tp)"
      using w mult_div_mod_eq[of tp w] pos_mod_sign[OF assms(1), of w] dvd_mult_div_cancel[OF assms(5)] by linarith
    then have "w div tp < ws div tp" using assms(1) by (simp add: mult_less_cancel_left_pos)
    moreover have "0 \<le> w div tp" using w assms(1) by (simp add: pos_imp_zdiv_nonneg_iff)
    ultimately have "tp * (w div tp) + w mod dcp \<in> set ids" using assms(2) by (intro mem) simp_all
    then show ?thesis using minus_mod_eq_mult_div[of w tp] by (simp add: shard_worker_def)
  qed
  show "int (card {w. 0 \<le> w \<and> w < ws \<and> shard_worker tp dcp w = r}) = tp div dcp" if r: "r \<in> set ids"
  proof -
    obtain i s where i: "(i, s) \<in> set ?idx" "r = int i * tp + s" using r unfolding ids by (auto simp: mult.commute)
    then have "0 \<le> s" "s < dcp" "int i < ws div tp" unfolding idx by auto
    then have "{w. 0 \<le> w \<and> w < ws \<and> shard_worker tp dcp w = r} = (\<lambda>m. r + m * dcp) ` {0 ..< tp div dcp}"
      unfolding i(2) by (intro shard_worker_readers[OF assms(1,2,3,5)]) simp_all
    moreover have "inj_on (\<lambda>m. r + m * dcp) {0 ..< tp div dcp}" using assms(2) by (simp add: inj_on_def)
    moreover have "0 \<le> tp div dcp" using assms(1,2) by (simp add: pos_imp_zdiv_nonneg_iff)
    ultimately show ?thesis by (simp add: card_image)
  qed
qed

section \<open>Properties\<close>

text \<open>
  C25: An object key survives the wire. Every key the constructor can produce encodes to JSON-safe
  form, and decoding that gives the same key back, whatever its hash, names, salt and tags are.
\<close>

theorem object_key_wire_roundtrip:
  assumes "key_ok k"
  shows "\<exists>e. to_encoded_object_key k = Inr e \<and> to_object_key e = Inr k"
proof -
  let ?e = "\<lparr>chunk_hash_hex = hex (chunk_hash k), e_model_name = model_name k, e_kv_rank = kv_rank k,
    e_object_group_id = object_group_id k, e_cache_salt = cache_salt k, e_tags = key_tags k\<rparr>"
  have "to_encoded_object_key k = Inr ?e"
    using key_okD[OF assms] by (simp add: to_encoded_object_key_def make_encoded_def)
  moreover have "to_object_key ?e = Inr k"
    using assms by (cases k) (simp add: to_object_key_def fromhex_hex flat_key_eq key_ok_def)
  ultimately show ?thesis by blast
qed

definition sample_key :: object_key where
  "sample_key = \<lparr>chunk_hash = [0, 255, 171], kv_rank = 16777216, model_name = ''m'', object_group_id = 0,
     cache_salt = ''u1'', key_tags = [(''a'', ''x''), (''lora'', ''7'')]\<rparr>"

lemma sample_key_ok: "key_ok sample_key"
  by code_simp

theorem object_key_wire_roundtrip_witness:
  "\<exists>e. to_encoded_object_key sample_key = Inr e \<and> to_object_key e = Inr sample_key"
  by (rule object_key_wire_roundtrip[OF sample_key_ok])

text \<open>
  C37: The tuple encoding that checkpoints use loses the tags. Decoding an encoded key gives the key
  with its tags dropped, so a key comes back as itself only if it had none, and two keys that
  differ in their tags alone, which are different objects in the cache, become the same key.
\<close>

theorem encode_key_forgets_tags:
  assumes "key_ok k"
  shows "decode_key (encode_key k) = Inr (k\<lparr>key_tags := []\<rparr>) \<and>
    (decode_key (encode_key k) = Inr k \<longleftrightarrow> key_tags k = []) \<and>
    (\<exists>k'. key_ok k' \<and> k' \<noteq> k \<and> encode_key k' = encode_key k)"
proof (intro conjI)
  show 1: "decode_key (encode_key k) = Inr (k\<lparr>key_tags := []\<rparr>)" by (rule decode_encode_key[OF assms])
  show "decode_key (encode_key k) = Inr k \<longleftrightarrow> key_tags k = []"
    unfolding 1 by (cases k) auto
  let ?t = "if key_tags k = [(''t'', ''v'')] then [(''u'', ''v'')] else [(''t'', ''v'')]"
  have "key_ok (k\<lparr>key_tags := ?t\<rparr>)"
    using assms by (auto simp: key_ok_def object_key_identity_def validate_identity_tags_def freeze_dict_def split: if_splits)
  moreover have "k\<lparr>key_tags := ?t\<rparr> \<noteq> k" by (cases k) auto
  ultimately show "\<exists>k'. key_ok k' \<and> k' \<noteq> k \<and> encode_key k' = encode_key k"
    by (intro exI[of _ "k\<lparr>key_tags := ?t\<rparr>"]) (simp add: encode_key_def)
qed

theorem encode_key_forgets_tags_witness:
  "decode_key (encode_key sample_key) = Inr (sample_key\<lparr>key_tags := []\<rparr>) \<and> decode_key (encode_key sample_key) \<noteq> Inr sample_key"
  using encode_key_forgets_tags[OF sample_key_ok] by (simp add: sample_key_def)

text \<open>
  C26: KV ranks identify the parallel setup. With all four numbers below 256, the packed rank
  fits an unsigned 32-bit integer, gives the world size back and different setups get different ranks.
\<close>

theorem kv_rank_identifies:
  assumes "{w, g, lw, lr, w', g', lw', lr'} \<subseteq> {0 ..< 256}"
  shows "0 \<le> ComputeKVRank w g lw lr \<and> ComputeKVRank w g lw lr < 2 ^ 32 \<and>
    WorldSizeFromKVRank (ComputeKVRank w g lw lr) = w \<and>
    (ComputeKVRank w g lw lr = ComputeKVRank w' g' lw' lr' \<longleftrightarrow> w = w' \<and> g = g' \<and> lw = lw' \<and> lr = lr')"
proof -
  have b: "0 \<le> w" "w < 256" "0 \<le> g" "g < 256" "0 \<le> lw" "lw < 256" "0 \<le> lr" "lr < 256"
    "0 \<le> w'" "w' < 256" "0 \<le> g'" "g' < 256" "0 \<le> lw'" "lw' < 256" "0 \<le> lr'" "lr' < 256" using assms by auto
  note eq = ComputeKVRank_sum[OF b(3-8), of w] ComputeKVRank_sum[OF b(11-16), of w']
  have "drop_bit 24 (ComputeKVRank w g lw lr) = w"
    unfolding eq drop_bit_eq_div using b by simp
  moreover have "w AND 255 = w"
    using b(1,2) take_bit_int_eq_self[of w 8] take_bit_eq_mask[of 8 w] by (simp add: mask_eq_exp_minus_1)
  ultimately have "WorldSizeFromKVRank (ComputeKVRank w g lw lr) = w" by (simp add: WorldSizeFromKVRank_def)
  moreover have "ComputeKVRank w g lw lr = ComputeKVRank w' g' lw' lr' \<longleftrightarrow> w = w' \<and> g = g' \<and> lw = lw' \<and> lr = lr'"
  proof -
    have "w = w' \<and> g = g' \<and> lw = lw' \<and> lr = lr'"
      if e: "w * 2 ^ 24 + g * 2 ^ 16 + lw * 2 ^ 8 + lr = w' * 2 ^ 24 + g' * 2 ^ 16 + lw' * 2 ^ 8 + lr'"
    proof -
      have 1: "256 * (w * 65536 + g * 256 + lw) + lr = 256 * (w' * 65536 + g' * 256 + lw') + lr'" using e by simp
      have 2: "256 * (w * 256 + g) + lw = 256 * (w' * 256 + g') + lw'" "lr = lr'"
        using split_unique[OF _ b(7,8,15,16) 1] by simp_all
      have 3: "256 * w + g = 256 * w' + g'" "lw = lw'" using split_unique[OF _ b(5,6,13,14) 2(1)] by simp_all
      with split_unique[OF _ b(3,4,11,12) 3(1)] 2(2) show ?thesis by simp
    qed
    then show ?thesis unfolding eq by blast
  qed
  moreover have "0 \<le> ComputeKVRank w g lw lr" "ComputeKVRank w g lw lr < 2 ^ 32"
    unfolding eq(1) using b(1-8) by simp_all
  ultimately show ?thesis by blast
qed

theorem kv_rank_identifies_witness:
  "WorldSizeFromKVRank (ComputeKVRank 8 5 4 1) = 8 \<and> ComputeKVRank 8 5 4 1 \<noteq> ComputeKVRank 8 5 4 2"
  using kv_rank_identifies[of 8 5 4 1 8 5 4 2] by simp

text \<open>
  C24: Lookups and workers agree on the shards, and the number of read locks is right. In a layout
  where the token shards divide the replicas and the replicas divide the world, a lookup addresses
  every shard once, a worker addresses one of them, and each addressed shard is read by exactly
  \<open>num_kv_readers\<close> of the workers.
\<close>

theorem lookup_matches_readers:
  assumes "0 < tp" "0 < dcp" "dcp dvd tp" "0 \<le> ws" "tp dvd ws"
    and "tp_replicas sd g = Inr tp" "dcp_shards sd g = Inr dcp" "ik_world_size ipc = ws"
  shows "\<exists>ids. lookup_worker_ids (ipc\<lparr>ik_worker_id := None\<rparr>) tp dcp = Inr ids \<and> distinct ids \<and>
    (\<forall>w. 0 \<le> w \<and> w < ws \<longrightarrow> (\<exists>r \<in> set ids. lookup_worker_ids (ipc\<lparr>ik_worker_id := Some w\<rparr>) tp dcp = Inr [r])) \<and>
    (\<forall>r \<in> set ids. num_kv_readers sd g =
       Inr (int (card {w. 0 \<le> w \<and> w < ws \<and> lookup_worker_ids (ipc\<lparr>ik_worker_id := Some w\<rparr>) tp dcp = Inr [r]})))"
proof -
  let ?firsts = "map (\<lambda>i. int i * tp) [0 ..< nat (ws div tp)]"
  let ?ids = "concat (map (\<lambda>first. map (\<lambda>shard. first + shard) [0 .. dcp - 1]) ?firsts)"
  have ids: "lookup_worker_ids (ipc\<lparr>ik_worker_id := None\<rparr>) tp dcp = Inr ?ids"
    using lookup_ids_range[OF assms(1,4,5)] assms(8) by (simp add: lookup_worker_ids_def)
  have worker: "lookup_worker_ids (ipc\<lparr>ik_worker_id := Some w\<rparr>) tp dcp = Inr [shard_worker tp dcp w]" for w
    using assms(1,2) by (simp add: lookup_worker_ids_def shard_worker_def)
  note ids_facts = shard_ids_facts[OF assms(1-5)]
  show ?thesis
  proof (intro exI[of _ ?ids] conjI allI impI ballI ids)
    show "distinct ?ids" by (rule ids_facts(1))
  next
    fix w assume "0 \<le> w \<and> w < ws"
    with ids_facts(2)[of w] show "\<exists>r \<in> set ?ids. lookup_worker_ids (ipc\<lparr>ik_worker_id := Some w\<rparr>) tp dcp = Inr [r]"
      unfolding worker by (intro bexI[of _ "shard_worker tp dcp w"] refl) simp
  next
    fix r assume "r \<in> set ?ids"
    from ids_facts(3)[OF this] show "num_kv_readers sd g =
        Inr (int (card {w. 0 \<le> w \<and> w < ws \<and> lookup_worker_ids (ipc\<lparr>ik_worker_id := Some w\<rparr>) tp dcp = Inr [r]}))"
      unfolding worker using assms(1-3,6,7) zdiv_mono1[OF zdvd_imp_le[OF assms(3,1)] assms(2)] by (simp add: num_kv_readers_def)
  qed
qed

definition sample_ipc :: ipc_key where
  "sample_ipc = \<lparr>ik_model_name = ''m'', ik_world_size = 8, ik_worker_id = None, ik_cache_salt = [], ik_request_configs = None\<rparr>"

theorem lookup_matches_readers_witness:
  "\<exists>ids. lookup_worker_ids (sample_ipc\<lparr>ik_worker_id := None\<rparr>) 8 2 = Inr ids \<and> distinct ids \<and>
     (\<forall>r \<in> set ids. num_kv_readers \<lparr>group_tp_replicas = [8], group_dcp_shards = [2]\<rparr> 0 =
        Inr (int (card {w. 0 \<le> w \<and> w < 8 \<and> lookup_worker_ids (sample_ipc\<lparr>ik_worker_id := Some w\<rparr>) 8 2 = Inr [r]})))"
proof -
  let ?sd = "\<lparr>group_tp_replicas = [8], group_dcp_shards = [2 :: int]\<rparr>"
  have "tp_replicas ?sd 0 = Inr 8" "dcp_shards ?sd 0 = Inr 2" by code_simp+
  from lookup_matches_readers[of 8 2 8 ?sd 0 sample_ipc, OF _ _ _ _ _ this] show ?thesis
    by (auto simp: sample_ipc_def)
qed

end
