(* ===== verification/Python_Floats.thy ===== *)
theory Python_Floats
  imports Prelude "HOL-Library.Log_Nat"
begin

text \<open>
  Python's \<open>float\<close>: IEEE binary64 values as rationals, with the rounding to nearest, ties to even,
  that every arithmetic operation and every conversion of an \<open>int\<close> performs. Infinities and NaN do
  not occur in the code that is modelled here: its floats are configured ratios and watermarks,
  sizes, and their quotients.
\<close>

section \<open>Rounding\<close>

definition round_half_even :: "rat \<Rightarrow> int" where
  "round_half_even x =
     (let n = \<lfloor>x\<rfloor>; d = x - of_int n in
      if d < 1 / 2 then n else if d > 1 / 2 then n + 1 else if even n then n else n + 1)"

text \<open>
  In units of the smallest positive value, \<open>2 ^ -1074\<close>: 53 significant bits are kept, and the
  numbers below \<open>2 ^ 53\<close> units, the subnormal ones among them, are multiples of one unit.
\<close>

definition f64_units :: "rat \<Rightarrow> rat" where
  "f64_units y = (let u = 2 ^ (floorlog 2 (nat \<lfloor>y\<rfloor>) - 53) in of_int (round_half_even (y / u)) * u)"

definition f64 :: "rat \<Rightarrow> rat" where
  "f64 x = (if x < 0 then - (f64_units (- x * 2 ^ 1074) / 2 ^ 1074) else f64_units (x * 2 ^ 1074) / 2 ^ 1074)"

definition float_of_int :: "int \<Rightarrow> rat" where
  "float_of_int n = f64 (of_int n)"

definition float_mul :: "rat \<Rightarrow> rat \<Rightarrow> rat" where
  "float_mul a b = f64 (a * b)"

definition float_add :: "rat \<Rightarrow> rat \<Rightarrow> rat" where
  "float_add a b = f64 (a + b)"

definition float_sub :: "rat \<Rightarrow> rat \<Rightarrow> rat" where
  "float_sub a b = f64 (a - b)"

text \<open>The true division of two integers is rounded once; \<open>int\<close> truncates.\<close>

definition true_div :: "int \<Rightarrow> int \<Rightarrow> rat result" where
  "true_div a b = (if b = 0 then Inl ZeroDivisionError else Inr (f64 (of_int a / of_int b)))"

definition py_int :: "rat \<Rightarrow> int" where
  "py_int x = (if x < 0 then - \<lfloor>- x\<rfloor> else \<lfloor>x\<rfloor>)"

section \<open>Laws\<close>

lemma round_half_even_int [simp]: "round_half_even (of_int n) = n"
  by (simp add: round_half_even_def)

lemma round_half_even_bounds: "\<lfloor>x\<rfloor> \<le> round_half_even x" "round_half_even x \<le> \<lfloor>x\<rfloor> + 1"
  by (simp_all add: round_half_even_def Let_def)

lemma round_half_even_mono: "x \<le> y \<Longrightarrow> round_half_even x \<le> round_half_even y"
proof (cases "\<lfloor>x\<rfloor> = \<lfloor>y\<rfloor>")
  case True
  then show "x \<le> y \<Longrightarrow> ?thesis" by (auto simp: round_half_even_def Let_def)
next
  case False
  assume "x \<le> y"
  with False have "\<lfloor>x\<rfloor> + 1 \<le> \<lfloor>y\<rfloor>" using floor_mono[of x y] by simp
  with round_half_even_bounds(2)[of x] round_half_even_bounds(1)[of y] show ?thesis by linarith
qed

lemma floorlog_two_bounds:
  assumes "0 \<le> (y :: rat)"
  shows "y < 2 ^ floorlog 2 (nat \<lfloor>y\<rfloor>)" and "1 \<le> y \<Longrightarrow> 2 ^ (floorlog 2 (nat \<lfloor>y\<rfloor>) - 1) \<le> y"
proof -
  let ?n = "nat \<lfloor>y\<rfloor>"
  have n: "of_nat ?n \<le> y" "y < of_nat ?n + 1" using assms floor_correct[of y] by simp_all
  have "?n + 1 \<le> 2 ^ floorlog 2 ?n"
    using floorlog_bounds[of ?n 2] by (cases "?n = 0") (auto simp: floorlog_def)
  then have "(of_nat (?n + 1) :: rat) \<le> of_nat (2 ^ floorlog 2 ?n)" by (simp only: of_nat_le_iff)
  with n(2) show "y < 2 ^ floorlog 2 ?n" by simp
  assume "1 \<le> y"
  then have "0 < ?n" by simp
  then have "2 ^ (floorlog 2 ?n - 1) \<le> ?n" using floorlog_bounds[of ?n 2] by simp
  then have "(of_nat (2 ^ (floorlog 2 ?n - 1)) :: rat) \<le> of_nat ?n" by (simp only: of_nat_le_iff)
  from order_trans[OF this n(1)] show "2 ^ (floorlog 2 ?n - 1) \<le> y" by (simp only: of_nat_power of_nat_numeral)
qed

lemma f64_units_exact:
  assumes "0 \<le> m" "m \<le> 2 ^ 53"
  shows "f64_units (of_int m * 2 ^ j) = of_int m * 2 ^ j"
proof -
  let ?y = "of_int m * 2 ^ j :: rat"
  let ?k = "floorlog 2 (nat \<lfloor>?y\<rfloor>)"
  have "\<exists>n. ?y / 2 ^ (?k - 53) = of_int n"
  proof (cases "?k - 53 \<le> j")
    case True
    then have "?y / 2 ^ (?k - 53) = of_int m * 2 ^ (j - (?k - 53))" by (simp add: power_diff)
    then show ?thesis by (intro exI[of _ "m * 2 ^ (j - (?k - 53))"]) simp
  next
    case False
    then have k: "j + 54 \<le> ?k" by simp
    have "0 \<le> ?y" using assms(1) by simp
    have "?k \<noteq> 0" using k by simp
    then have "1 \<le> ?y" using \<open>0 \<le> ?y\<close> by (cases "nat \<lfloor>?y\<rfloor> = 0") (auto simp: floorlog_def)
    with floorlog_two_bounds(2)[OF \<open>0 \<le> ?y\<close>] have "2 ^ (?k - 1) \<le> ?y" by simp
    moreover have "(2 :: rat) ^ (j + 53) \<le> 2 ^ (?k - 1)" using k by (intro power_increasing) simp_all
    moreover have "?y \<le> 2 ^ (j + 53)"
    proof -
      have "(of_int m :: rat) \<le> of_int (2 ^ 53)" using assms(2) by (simp only: of_int_le_iff)
      then have "?y \<le> of_int (2 ^ 53) * 2 ^ j" by (intro mult_right_mono) simp_all
      then show ?thesis by (simp add: power_add mult.commute)
    qed
    ultimately have "?y = 2 ^ (j + 53)" "(2 :: rat) ^ (?k - 1) = 2 ^ (j + 53)" by linarith+
    then have "?k = j + 54" using k power_inject_exp[of "2 :: rat" "?k - 1" "j + 53"] by simp
    with \<open>?y = 2 ^ (j + 53)\<close> have "?y / 2 ^ (?k - 53) = of_int (2 ^ 52)" by (simp add: power_add)
    then show ?thesis by blast
  qed
  then obtain n where n: "?y / 2 ^ (?k - 53) = of_int n" by blast
  then have "?y = of_int n * 2 ^ (?k - 53)" by (simp only: divide_eq_eq) simp
  with n show ?thesis by (simp only: f64_units_def Let_def round_half_even_int)
qed

lemma f64_units_nonneg: "0 \<le> y \<Longrightarrow> 0 \<le> f64_units y"
  using round_half_even_mono[of 0 "y / 2 ^ (floorlog 2 (nat \<lfloor>y\<rfloor>) - 53)"] round_half_even_int[of 0]
  by (simp add: f64_units_def Let_def)

lemma f64_units_mono:
  assumes "0 \<le> x" "x \<le> y"
  shows "f64_units x \<le> f64_units y"
proof -
  define k l where "k = floorlog 2 (nat \<lfloor>x\<rfloor>)" and "l = floorlog 2 (nat \<lfloor>y\<rfloor>)"
  have "k \<le> l" unfolding k_def l_def using floor_mono[OF assms(2)] by (intro floorlog_mono) simp
  show ?thesis
  proof (cases "k - 53 = l - 53")
    case True
    have "round_half_even (x / 2 ^ (l - 53)) \<le> round_half_even (y / 2 ^ (l - 53))"
      by (intro round_half_even_mono divide_right_mono assms(2)) simp
    with True show ?thesis by (simp add: f64_units_def Let_def k_def l_def)
  next
    case False
    then have kl: "k < l" "54 \<le> l" using \<open>k \<le> l\<close> by simp_all
    have y: "0 \<le> y" using assms by simp
    have "l - 1 = 52 + (l - 53)" using kl(2) by simp
    then have top: "(2 :: rat) ^ (l - 1) = of_int (2 ^ 52) * 2 ^ (l - 53)"
      by (simp only: power_add of_int_power of_int_numeral)
    have "x \<le> 2 ^ k" using floorlog_two_bounds(1)[OF assms(1)] by (simp add: k_def)
    moreover have "(2 :: rat) ^ k = of_int (2 ^ (k - (k - 53))) * 2 ^ (k - 53)" by (simp flip: power_add)
    ultimately have "x / 2 ^ (k - 53) \<le> of_int (2 ^ (k - (k - 53)))" by (simp only: pos_divide_le_eq zero_less_power zero_less_numeral)
    from round_half_even_mono[OF this] have "round_half_even (x / 2 ^ (k - 53)) \<le> 2 ^ (k - (k - 53))"
      by (simp only: round_half_even_int)
    then have "f64_units x \<le> of_int (2 ^ (k - (k - 53))) * 2 ^ (k - 53)"
      unfolding f64_units_def Let_def k_def[symmetric] by (intro mult_right_mono) (simp_all only: of_int_le_iff, simp)
    also have "\<dots> = 2 ^ k" by (simp flip: power_add)
    also have "\<dots> \<le> (2 :: rat) ^ (l - 1)" using kl by (intro power_increasing) simp_all
    also have "\<dots> = of_int (2 ^ 52) * 2 ^ (l - 53)" by (rule top)
    also have "\<dots> \<le> f64_units y"
    proof -
      have "1 \<le> y" using kl(2) y by (cases "nat \<lfloor>y\<rfloor> = 0") (auto simp: l_def floorlog_def)
      with floorlog_two_bounds(2)[OF y] have "2 ^ (l - 1) \<le> y" by (simp add: l_def)
      with top have "of_int (2 ^ 52) \<le> y / 2 ^ (l - 53)" by (simp add: pos_le_divide_eq)
      from round_half_even_mono[OF this] have "2 ^ 52 \<le> round_half_even (y / 2 ^ (l - 53))"
        by (simp only: round_half_even_int)
      then show ?thesis
        unfolding f64_units_def Let_def l_def[symmetric] by (intro mult_right_mono) (simp_all only: of_int_le_iff, simp)
    qed
    finally show ?thesis .
  qed
qed

lemma f64_nonneg: "0 \<le> x \<Longrightarrow> 0 \<le> f64 x"
  by (simp add: f64_def f64_units_nonneg)

lemma f64_mono: "0 \<le> x \<Longrightarrow> x \<le> y \<Longrightarrow> f64 x \<le> f64 y"
  by (simp add: f64_def divide_right_mono f64_units_mono)

lemma f64_int:
  assumes "\<bar>n\<bar> \<le> 2 ^ 53"
  shows "f64 (of_int n) = of_int n"
  using f64_units_exact[of n 1074] f64_units_exact[of "- n" 1074] assms by (simp add: f64_def abs_le_iff)

text \<open>A short cut for evaluation; on integers of that size there is nothing to round.\<close>

lemma f64_code [code]:
  "f64 x =
     (if of_int \<lfloor>x\<rfloor> = x \<and> \<bar>\<lfloor>x\<rfloor>\<bar> \<le> 2 ^ 53 then x
      else if x < 0 then - (f64_units (- x * 2 ^ 1074) / 2 ^ 1074) else f64_units (x * 2 ^ 1074) / 2 ^ 1074)"
  using f64_int[of "\<lfloor>x\<rfloor>"] by (auto simp: f64_def)

lemma f64_0 [simp]: "f64 0 = 0"
  using f64_int[of 0] by simp

lemma f64_1 [simp]: "f64 1 = 1"
  using f64_int[of 1] by simp

lemma f64_numeral [simp]: "numeral n \<le> (2 ^ 53 :: int) \<Longrightarrow> f64 (numeral n) = numeral n"
  using f64_int[of "numeral n"] by simp

text \<open>Dyadic fractions of at most 53 bits are represented exactly.\<close>

lemma f64_dyadic:
  assumes "0 \<le> m" "m \<le> 2 ^ 53" "e \<le> 1074"
  shows "f64 (of_int m / 2 ^ e) = of_int m / 2 ^ e"
proof -
  have "e + (1074 - e) = 1074" using assms(3) by simp
  then have "(2 :: rat) ^ 1074 = 2 ^ e * 2 ^ (1074 - e)" by (metis power_add)
  then have eq: "of_int m / 2 ^ e * 2 ^ 1074 = (of_int m * 2 ^ (1074 - e) :: rat)" by (simp only: times_divide_eq_left mult.assoc mult.left_commute[of _ "2 ^ e"]) simp
  have "0 \<le> (of_int m / 2 ^ e :: rat)" using assms(1) by simp
  then have "f64 (of_int m / 2 ^ e) = of_int m / 2 ^ e * 2 ^ 1074 / 2 ^ 1074"
    unfolding f64_def eq f64_units_exact[OF assms(1,2)] by simp
  then show ?thesis by simp
qed

end
