(* ===== verification/Eviction_Policy.thy ===== *)
theory Eviction_Policy
  imports Python_Floats
begin

text \<open>
  Eviction policies: the interface \<open>EvictionPolicy\<close> of \<open>lmcache/v1/distributed/eviction.py\<close> as the
  locale \<open>eviction_policy\<close>, with what every client of a policy can rely on, and the global LRU
  policy of \<open>eviction_policy/lru.py\<close>. The eligibility filter a caller passes may read and change
  the caller's state (the L1 manager's filter looks at the clock), so it threads that state. Every
  method holds the policy's lock, so each is one function.
\<close>

section \<open>Actions and filters\<close>

datatype eviction_destination = DISCARD | L2_CACHE

record 'k eviction_action =
  ea_destination :: eviction_destination
  ea_keys :: "'k list"

type_synonym ('k, 's) key_filter = "('k \<Rightarrow> 's \<Rightarrow> bool \<times> 's) option"

definition passes :: "('k, 's) key_filter \<Rightarrow> 'k \<Rightarrow> 's \<Rightarrow> bool \<times> 's" where
  "passes key_eligible_filter key s = (case key_eligible_filter of None \<Rightarrow> (True, s) | Some g \<Rightarrow> g key s)"

text \<open>A filter that only looks at the key.\<close>

definition fixed_filter :: "('k \<Rightarrow> bool) \<Rightarrow> ('k, 's) key_filter" where
  "fixed_filter P = Some (\<lambda>k s. (P k, s))"

lemma passes_fixed [simp]: "passes (fixed_filter P) k s = (P k, s)"
  by (simp add: passes_def fixed_filter_def)

lemma passes_None [simp]: "passes None k s = (True, s)"
  by (simp add: passes_def)

definition target_count :: "nat \<Rightarrow> rat \<Rightarrow> int" where
  "target_count n expected_ratio =
     (let r = max 0 (min 1 expected_ratio);
          target = py_int (float_mul (float_of_int (int n)) r)
      in if r > 0 \<and> target = 0 \<and> n > 0 then 1 else target)"

fun select_victims :: "('k, 's) key_filter \<Rightarrow> int \<Rightarrow> 'k list \<Rightarrow> 'k list \<Rightarrow> 's \<Rightarrow> 'k list \<times> 's" where
  "select_victims f target [] victims s = (victims, s)"
| "select_victims f target (key # keys) victims s =
     (let (ok, s1) = passes f key s in
      if \<not> ok then select_victims f target keys victims s1
      else if int (length (victims @ [key])) \<ge> target then (victims @ [key], s1)
      else select_victims f target keys (victims @ [key]) s1)"

text \<open>The destination of an action: the first registered one, if there is one.\<close>

definition choose_destination :: "eviction_destination list \<Rightarrow> eviction_destination \<Rightarrow> eviction_destination" where
  "choose_destination destinations default_destination = (if destinations = [] then default_destination else hd destinations)"

definition add_destination :: "eviction_destination \<Rightarrow> eviction_destination list \<Rightarrow> eviction_destination list" where
  "add_destination d destinations = (if d \<in> set destinations then destinations else destinations @ [d])"

lemma target_count_pos: "0 < r \<Longrightarrow> 0 < n \<Longrightarrow> 1 \<le> target_count n r"
proof -
  assume "0 < r" "0 < n"
  let ?r = "max 0 (min 1 r)"
  have "0 \<le> float_mul (float_of_int (int n)) ?r"
    by (simp add: float_mul_def float_of_int_def f64_nonneg)
  then have "0 \<le> py_int (float_mul (float_of_int (int n)) ?r)" by (simp add: py_int_def)
  with \<open>0 < r\<close> \<open>0 < n\<close> show ?thesis by (simp add: target_count_def Let_def)
qed

lemma target_count_nonneg: "0 \<le> target_count n r"
proof -
  have "0 \<le> float_mul (float_of_int (int n)) (max 0 (min 1 r))"
    by (simp add: float_mul_def float_of_int_def f64_nonneg)
  then show ?thesis by (simp add: target_count_def Let_def py_int_def)
qed

lemma target_count_le:
  assumes "int n \<le> 2 ^ 53"
  shows "target_count n r \<le> int n"
proof -
  let ?r = "max 0 (min 1 r)"
  have n: "float_of_int (int n) = of_int (int n)" using assms by (simp only: float_of_int_def f64_int)
  have "f64 (of_int (int n) * ?r) \<le> f64 (of_int (int n))"
    by (intro f64_mono) (simp_all add: mult_left_le)
  also have "\<dots> = of_int (int n)" using assms by (simp only: f64_int)
  finally have "\<lfloor>f64 (of_int (int n) * ?r)\<rfloor> \<le> int n" by (simp add: floor_le_iff)
  moreover have "0 \<le> f64 (of_int (int n) * ?r)" by (simp add: f64_nonneg)
  ultimately show ?thesis by (simp add: target_count_def Let_def py_int_def float_mul_def n)
qed

lemma target_count_all: "int n \<le> 2 ^ 53 \<Longrightarrow> 1 \<le> r \<Longrightarrow> target_count n r = int n"
  using f64_int[of "int n"] by (auto simp: target_count_def Let_def py_int_def float_mul_def float_of_int_def)

section \<open>Selection\<close>

lemma select_victims_fixed:
  "int (length victims) < target \<Longrightarrow>
     select_victims (fixed_filter P) target keys victims s =
       (victims @ take (nat target - length victims) (filter P keys), s)"
proof (induction keys arbitrary: victims)
  case (Cons k keys)
  show ?case
  proof (cases "P k")
    case True
    note P = True
    show ?thesis
    proof (cases "int (length (victims @ [k])) \<ge> target")
      case True
      with Cons.prems have "nat target - length victims = Suc 0" by simp
      with P True show ?thesis by simp
    next
      case False
      with Cons.prems have n: "nat target - length victims = Suc (nat target - length (victims @ [k]))" by simp
      from False Cons.IH[of "victims @ [k]"] P show ?thesis unfolding n by simp
    qed
  next
    case False
    with Cons show ?thesis by simp
  qed
qed simp

lemma select_victims_None: "select_victims None target keys victims s = select_victims (fixed_filter (\<lambda>_. True)) target keys victims s"
  by (induction keys arbitrary: victims s) simp_all

lemma select_victims_sub:
  "distinct (victims @ keys) \<Longrightarrow> select_victims f target keys victims s = (vs, s') \<Longrightarrow>
     distinct vs \<and> set vs \<subseteq> set victims \<union> set keys"
proof (induction keys arbitrary: victims s)
  case (Cons k keys)
  obtain ok s1 where p: "passes f k s = (ok, s1)" by (cases "passes f k s")
  from Cons.prems(1) have d: "distinct (victims @ keys)" "distinct ((victims @ [k]) @ keys)" by auto
  show ?case
  proof (cases "ok \<and> int (length (victims @ [k])) \<ge> target")
    case True
    with Cons.prems p d show ?thesis by auto
  next
    case False
    with Cons.prems(2) p Cons.IH[OF d(1), of s1] Cons.IH[OF d(2), of s1] show ?thesis
      by (cases ok) (auto split: if_splits)
  qed
qed auto

lemma select_victims_state:
  "(\<And>k s. Q s \<Longrightarrow> Q (snd (passes f k s))) \<Longrightarrow> Q s \<Longrightarrow> Q (snd (select_victims f target keys victims s))"
proof (induction keys arbitrary: victims s)
  case (Cons k keys)
  obtain ok s1 where p: "passes f k s = (ok, s1)" by (cases "passes f k s")
  with Cons.prems(1)[OF Cons.prems(2), of k] have "Q s1" by simp
  with Cons p show ?case by simp
qed simp

text \<open>On the states \<open>R\<close> the filter decides like \<open>P\<close> does, whatever it does to the state.\<close>

definition decides :: "('s \<Rightarrow> bool) \<Rightarrow> ('k, 's) key_filter \<Rightarrow> ('k \<Rightarrow> bool) \<Rightarrow> bool" where
  "decides R f P \<longleftrightarrow> (\<forall>k s. R s \<longrightarrow> fst (passes f k s) = P k \<and> R (snd (passes f k s)))"

lemma decidesD: "decides R f P \<Longrightarrow> R s \<Longrightarrow> passes f k s = (P k, snd (passes f k s)) \<and> R (snd (passes f k s))"
  by (simp add: decides_def prod_eq_iff)

lemma select_victims_decides:
  "decides R f P \<Longrightarrow> R s \<Longrightarrow>
     fst (select_victims f target keys victims s) = fst (select_victims (fixed_filter P) target keys victims s0)"
proof (induction keys arbitrary: victims s)
  case (Cons k keys)
  obtain s1 where p: "passes f k s = (P k, s1)" "R s1" using decidesD[OF Cons.prems, of k] by metis
  with Cons show ?case by simp
qed simp

section \<open>The interface\<close>

text \<open>What a policy is told, and the keys it has to remember after being told.\<close>

datatype 'k notification = Reserved "'k list" | Created "'k list" | Touched "'k list" | Removed "'k list"

fun known :: "'k notification \<Rightarrow> 'k set \<Rightarrow> 'k set" where
  "known (Reserved keys) K = K \<union> set keys"
| "known (Created keys) K = K \<union> set keys"
| "known (Touched keys) K = K"
| "known (Removed keys) K = K - set keys"

fun tell ::
  "('k list \<Rightarrow> 'p \<Rightarrow> 'p) \<Rightarrow> ('k list \<Rightarrow> 'p \<Rightarrow> 'p) \<Rightarrow> ('k list \<Rightarrow> 'p \<Rightarrow> 'p) \<Rightarrow> ('k list \<Rightarrow> 'p \<Rightarrow> 'p) \<Rightarrow>
     'k notification \<Rightarrow> 'p \<Rightarrow> 'p" where
  "tell reserved created touched removed (Reserved keys) p = reserved keys p"
| "tell reserved created touched removed (Created keys) p = created keys p"
| "tell reserved created touched removed (Touched keys) p = touched keys p"
| "tell reserved created touched removed (Removed keys) p = removed keys p"

abbreviation action_keys :: "'k eviction_action list \<Rightarrow> 'k list" where
  "action_keys acts \<equiv> concat (map ea_keys acts)"

text \<open>One round of eviction in which every requested removal is confirmed.\<close>

definition evict_round ::
  "('k list \<Rightarrow> 'p \<Rightarrow> 'p) \<Rightarrow> (rat \<Rightarrow> ('k, 's) key_filter \<Rightarrow> 'p \<Rightarrow> 's \<Rightarrow> ('k eviction_action list \<times> 'p) \<times> 's) \<Rightarrow>
     rat \<Rightarrow> ('k \<Rightarrow> bool) \<Rightarrow> 's \<Rightarrow> 'p \<Rightarrow> 'p" where
  "evict_round removed actions r P s p =
     (case actions r (fixed_filter P) p s of ((acts, p'), _) \<Rightarrow> removed (action_keys acts) p')"

text \<open>
  \<open>tracked\<close> are the keys the policy remembers, \<open>pool\<close> those it would choose victims from. Victims are
  distinct keys of the pool that the filter let pass; a positive ratio finds one whenever there is
  one; asking changes neither set, a confirmed removal does.
\<close>

locale eviction_policy =
  fixes pinv :: "'p \<Rightarrow> bool"
    and tracked :: "'p \<Rightarrow> 'k set"
    and pool :: "'p \<Rightarrow> 'k set"
    and reserved :: "'k list \<Rightarrow> 'p \<Rightarrow> 'p"
    and created :: "'k list \<Rightarrow> 'p \<Rightarrow> 'p"
    and touched :: "'k list \<Rightarrow> 'p \<Rightarrow> 'p"
    and removed :: "'k list \<Rightarrow> 'p \<Rightarrow> 'p"
    and actions :: "rat \<Rightarrow> ('k, 's) key_filter \<Rightarrow> 'p \<Rightarrow> 's \<Rightarrow> ('k eviction_action list \<times> 'p) \<times> 's"
  assumes reserved_law: "pinv p \<Longrightarrow> pinv (reserved keys p) \<and> tracked (reserved keys p) = tracked p \<union> set keys"
    and created_law: "pinv p \<Longrightarrow> pinv (created keys p) \<and> tracked (created keys p) = tracked p \<union> set keys"
    and touched_law: "pinv p \<Longrightarrow> pinv (touched keys p) \<and> tracked (touched keys p) = tracked p"
    and removed_law: "pinv p \<Longrightarrow> pinv (removed keys p) \<and> tracked (removed keys p) = tracked p - set keys \<and>
      pool (removed keys p) = pool p - set keys"
    and finite_tracked: "pinv p \<Longrightarrow> finite (tracked p)"
    and pool_tracked: "pinv p \<Longrightarrow> pool p \<subseteq> tracked p"
    and actions_frame: "pinv p \<Longrightarrow> actions r f p s = ((acts, p'), s') \<Longrightarrow>
      pinv p' \<and> tracked p' = tracked p \<and> pool p' = pool p"
    and actions_keys: "pinv p \<Longrightarrow> actions r f p s = ((acts, p'), s') \<Longrightarrow>
      distinct (action_keys acts) \<and> set (action_keys acts) \<subseteq> pool p"
    and actions_state: "(\<And>k s. Q s \<Longrightarrow> Q (snd (passes f k s))) \<Longrightarrow> Q s \<Longrightarrow> Q (snd (actions r f p s))"
    and actions_eligible: "pinv p \<Longrightarrow> actions r (fixed_filter P) p s = ((acts, p'), s') \<Longrightarrow>
      (\<forall>k \<in> set (action_keys acts). P k) \<and> (0 < r \<longrightarrow> (\<exists>k \<in> pool p. P k) \<longrightarrow> action_keys acts \<noteq> [])"
    and actions_decides: "decides R f P \<Longrightarrow> R s \<Longrightarrow> fst (actions r f p s) = fst (actions r (fixed_filter P) p s)"
begin

abbreviation notify :: "'k notification \<Rightarrow> 'p \<Rightarrow> 'p" where
  "notify \<equiv> tell reserved created touched removed"

lemma notify_law: "pinv p \<Longrightarrow> pinv (notify n p) \<and> tracked (notify n p) = known n (tracked p)"
  by (cases n) (simp_all add: reserved_law created_law touched_law removed_law)

lemma notify_all: "pinv p \<Longrightarrow> pinv (fold notify ns p) \<and> tracked (fold notify ns p) = fold known ns (tracked p)"
  by (induction ns arbitrary: p) (simp_all add: notify_law)

abbreviation confirm_round :: "rat \<Rightarrow> ('k \<Rightarrow> bool) \<Rightarrow> 's \<Rightarrow> 'p \<Rightarrow> 'p" where
  "confirm_round \<equiv> evict_round removed actions"

lemma evict_round_law:
  assumes "pinv p" "0 < r"
  shows "pinv (confirm_round r P s p) \<and> tracked p - {k \<in> pool p. P k} \<subseteq> tracked (confirm_round r P s p) \<and>
    tracked (confirm_round r P s p) \<subseteq> tracked p \<and> pool (confirm_round r P s p) = pool p \<inter> tracked (confirm_round r P s p) \<and>
    ((\<exists>k \<in> pool p. P k) \<longrightarrow> card {k \<in> pool (confirm_round r P s p). P k} < card {k \<in> pool p. P k})"
proof -
  obtain acts p' s' where a: "actions r (fixed_filter P) p s = ((acts, p'), s')" by (metis prod.exhaust)
  let ?V = "set (action_keys acts)"
  note frame = actions_frame[OF assms(1) a] and keys = actions_keys[OF assms(1) a] and elig = actions_eligible[OF assms(1) a]
  have q: "confirm_round r P s p = removed (action_keys acts) p'" by (simp add: evict_round_def a)
  have t: "pinv (confirm_round r P s p)" "tracked (confirm_round r P s p) = tracked p - ?V" "pool (confirm_round r P s p) = pool p - ?V"
    using removed_law[of p' "action_keys acts"] frame by (simp_all add: q)
  have fin: "finite {k \<in> pool p. P k}"
    using finite_tracked[OF assms(1)] pool_tracked[OF assms(1)] by (auto intro: finite_subset)
  have "card {k \<in> pool p - ?V. P k} < card {k \<in> pool p. P k}" if "\<exists>k \<in> pool p. P k"
  proof -
    from elig that assms(2) have "action_keys acts \<noteq> []" by blast
    then obtain v where "v \<in> ?V" by (metis list.set_sel(1))
    with keys elig have "v \<in> {k \<in> pool p. P k} - {k \<in> pool p - ?V. P k}" by blast
    then show ?thesis by (intro psubset_card_mono[OF fin]) blast
  qed
  with t keys elig pool_tracked[OF assms(1)] show ?thesis by auto
qed

text \<open>Repeated rounds remove every eligible key of the pool and nothing else.\<close>

lemma evict_rounds_drain:
  assumes "pinv p" "0 < r"
  shows "\<exists>n \<le> card {k \<in> pool p. P k}. let q = (confirm_round r P s ^^ n) p in
    pinv q \<and> tracked q = tracked p - {k \<in> pool p. P k}"
  using assms(1)
proof (induction "card {k \<in> pool p. P k}" arbitrary: p rule: less_induct)
  case (less p)
  show ?case
  proof (cases "\<exists>k \<in> pool p. P k")
    case False
    then have "{k \<in> pool p. P k} = {}" by blast
    then show ?thesis using less.prems by (intro exI[of _ 0]) auto
  next
    case True
    let ?p = "confirm_round r P s p"
    note round = evict_round_law[OF less.prems assms(2), of P s]
    from round True have c: "card {k \<in> pool ?p. P k} < card {k \<in> pool p. P k}" and i: "pinv ?p" by blast+
    from less.hyps[OF c i] obtain n where n: "n \<le> card {k \<in> pool ?p. P k}"
      "pinv ((confirm_round r P s ^^ n) ?p)" "tracked ((confirm_round r P s ^^ n) ?p) = tracked ?p - {k \<in> pool ?p. P k}"
      unfolding Let_def by blast
    have "tracked ?p - {k \<in> pool ?p. P k} = tracked p - {k \<in> pool p. P k}" using round by blast
    with n c show ?thesis
      by (intro exI[of _ "Suc n"]) (simp add: funpow_Suc_right del: funpow.simps)
  qed
qed

end

section \<open>LRU\<close>

record 'k lru_policy =
  lru_order :: "'k list"
  lru_destinations :: "eviction_destination list"
  lru_default_destination :: eviction_destination

definition lru_init :: "eviction_destination \<Rightarrow> 'k lru_policy" where
  "lru_init d = \<lparr>lru_order = [], lru_destinations = [], lru_default_destination = d\<rparr>"

definition lru_register :: "eviction_destination \<Rightarrow> 'k lru_policy \<Rightarrow> 'k lru_policy" where
  "lru_register d p = p\<lparr>lru_destinations := add_destination d (lru_destinations p)\<rparr>"

definition lru_created :: "'k list \<Rightarrow> 'k lru_policy \<Rightarrow> 'k lru_policy" where
  "lru_created keys p =
     p\<lparr>lru_order := fold (\<lambda>key order. if key \<in> set order then od_move_to_end key order else od_set key order)
       (rev keys) (lru_order p)\<rparr>"

definition lru_touched :: "'k list \<Rightarrow> 'k lru_policy \<Rightarrow> 'k lru_policy" where
  "lru_touched keys p =
     p\<lparr>lru_order := fold (\<lambda>key order. if key \<in> set order then od_move_to_end key order else order)
       (rev keys) (lru_order p)\<rparr>"

definition lru_removed :: "'k list \<Rightarrow> 'k lru_policy \<Rightarrow> 'k lru_policy" where
  "lru_removed keys p =
     p\<lparr>lru_order := fold (\<lambda>key order. if key \<in> set order then od_del key order else order) keys (lru_order p)\<rparr>"

definition lru_actions ::
  "rat \<Rightarrow> ('k, 's) key_filter \<Rightarrow> 'k lru_policy \<Rightarrow> 's \<Rightarrow> ('k eviction_action list \<times> 'k lru_policy) \<times> 's" where
  "lru_actions expected_ratio f p s =
     (let target = target_count (length (lru_order p)) expected_ratio in
      if lru_order p = [] \<or> target = 0 then (([], p), s)
      else let (victims, s1) = select_victims f target (lru_order p) [] s in
        if victims = [] then (([], p), s1)
        else (([\<lparr>ea_destination = choose_destination (lru_destinations p) (lru_default_destination p),
                 ea_keys = victims\<rparr>], p), s1))"

definition lru_num_tracked_keys :: "'k lru_policy \<Rightarrow> nat" where
  "lru_num_tracked_keys p = length (lru_order p)"

fun candidates_loop :: "int \<Rightarrow> 'k list \<Rightarrow> 'k list \<Rightarrow> 'k list" where
  "candidates_loop limit [] candidates = candidates"
| "candidates_loop limit (key # keys) candidates =
     (if int (length (candidates @ [key])) \<ge> limit then candidates @ [key]
      else candidates_loop limit keys (candidates @ [key]))"

definition lru_candidates :: "int \<Rightarrow> 'k lru_policy \<Rightarrow> 'k list" where
  "lru_candidates limit p = candidates_loop limit (lru_order p) []"

lemma set_fold_od_created:
  "set (fold (\<lambda>key order. if key \<in> set order then od_move_to_end key order else od_set key order) keys xs) = set xs \<union> set keys"
  by (induction keys arbitrary: xs) auto

lemma distinct_fold_od_created:
  "distinct xs \<Longrightarrow>
     distinct (fold (\<lambda>key order. if key \<in> set order then od_move_to_end key order else od_set key order) keys xs)"
  by (induction keys arbitrary: xs) auto

lemma fold_od_touched:
  "distinct xs \<Longrightarrow>
     distinct (fold (\<lambda>key order. if key \<in> set order then od_move_to_end key order else order) keys xs) \<and>
     set (fold (\<lambda>key order. if key \<in> set order then od_move_to_end key order else order) keys xs) = set xs"
proof (induction keys arbitrary: xs)
  case (Cons k keys)
  show ?case
  proof (cases "k \<in> set xs")
    case True
    with Cons.IH[of "od_move_to_end k xs"] Cons.prems show ?thesis by (simp add: insert_absorb)
  next
    case False
    with Cons show ?thesis by simp
  qed
qed simp

lemma fold_od_removed:
  "fold (\<lambda>key order. if key \<in> set order then od_del key order else order) keys xs = filter (\<lambda>x. x \<notin> set keys) xs"
proof (induction keys arbitrary: xs)
  case (Cons k keys)
  have "filter (\<lambda>x. x \<notin> set keys) (od_del k xs) = filter (\<lambda>x. x \<notin> set (k # keys)) xs"
    by (auto simp: od_del_def intro: filter_cong)
  with Cons od_del_absent[of k xs] show ?case by (cases "k \<in> set xs") simp_all
qed simp

text \<open>The order is the tracked keys by their last use: the one used longest ago comes first.\<close>

lemma od_use: "distinct xs \<Longrightarrow> (if k \<in> set xs then od_move_to_end k xs else od_set k xs) = remdups (xs @ [k])"
proof (induction xs)
  case (Cons x xs)
  then show ?case
    by (cases "x = k") (auto simp: od_move_to_end_def od_set_def od_del_def od_del_absent distinct_remdups_id filter_id_conv)
qed (simp add: od_set_def)

lemma fold_od_use:
  "distinct xs \<Longrightarrow>
     fold (\<lambda>key order. if key \<in> set order then od_move_to_end key order else od_set key order) keys xs = remdups (xs @ keys)"
proof (induction keys arbitrary: xs)
  case (Cons k keys)
  have "remdups (remdups ys @ keys) = remdups (ys @ keys)" for ys by (induction ys) auto
  from this[of "xs @ [k]"] have "remdups (remdups (xs @ [k]) @ keys) = remdups (xs @ k # keys)" by simp
  with Cons od_use[OF Cons.prems, of k] show ?case by simp
qed (simp add: distinct_remdups_id)

lemma fold_od_touch:
  "distinct xs \<Longrightarrow>
     fold (\<lambda>key order. if key \<in> set order then od_move_to_end key order else order) keys xs =
     remdups (xs @ filter (\<lambda>k. k \<in> set xs) keys)"
proof -
  have "fold (\<lambda>key order. if key \<in> set order then od_move_to_end key order else order) keys xs =
      fold (\<lambda>key order. if key \<in> set order then od_move_to_end key order else od_set key order)
        (filter (\<lambda>k. k \<in> S) keys) xs" if "set xs = S" for S
    using that
  proof (induction keys arbitrary: xs)
    case (Cons k keys)
    then show ?case by (cases "k \<in> S") (auto simp: insert_absorb)
  qed simp
  then show "distinct xs \<Longrightarrow> ?thesis" by (simp add: fold_od_use)
qed

lemma lru_created_law:
  "distinct (lru_order p) \<Longrightarrow>
     distinct (lru_order (lru_created keys p)) \<and> set (lru_order (lru_created keys p)) = set (lru_order p) \<union> set keys"
  by (simp add: lru_created_def set_fold_od_created distinct_fold_od_created)

lemma lru_touched_law:
  "distinct (lru_order p) \<Longrightarrow>
     distinct (lru_order (lru_touched keys p)) \<and> set (lru_order (lru_touched keys p)) = set (lru_order p)"
  using fold_od_touched[of "lru_order p" "rev keys"] by (simp add: lru_touched_def)

lemma lru_removed_law:
  "distinct (lru_order p) \<Longrightarrow>
     distinct (lru_order (lru_removed keys p)) \<and> set (lru_order (lru_removed keys p)) = set (lru_order p) - set keys"
  by (auto simp: lru_removed_def fold_od_removed)

lemma lru_actions_frame: "lru_actions r f p s = ((acts, p'), s') \<Longrightarrow> p' = p"
  by (auto simp: lru_actions_def Let_def split: if_splits prod.splits)

lemma lru_actions_keys:
  assumes "distinct (lru_order p)" "lru_actions r f p s = ((acts, p'), s')"
  shows "distinct (action_keys acts) \<and> set (action_keys acts) \<subseteq> set (lru_order p)"
proof -
  let ?t = "target_count (length (lru_order p)) r"
  obtain vs s1 where sel: "select_victims f ?t (lru_order p) [] s = (vs, s1)" by (cases "select_victims f ?t (lru_order p) [] s")
  from select_victims_sub[OF _ this] assms(1) have "distinct vs \<and> set vs \<subseteq> set (lru_order p)" by simp
  with assms(2) sel show ?thesis by (auto simp: lru_actions_def Let_def split: if_splits)
qed

lemma lru_actions_state:
  assumes "\<And>k s. Q s \<Longrightarrow> Q (snd (passes f k s))" "Q s"
  shows "Q (snd (lru_actions r f p s))"
  using select_victims_state[of Q f, OF assms] assms(2) by (auto simp: lru_actions_def Let_def case_prod_beta)

text \<open>For a filter on keys the victims are the eligible keys used longest ago, as many as asked for.\<close>

lemma lru_actions_fixed:
  "action_keys (fst (fst (lru_actions r (fixed_filter P) p s))) =
     take (nat (target_count (length (lru_order p)) r)) (filter P (lru_order p))"
proof -
  let ?t = "target_count (length (lru_order p)) r"
  have "select_victims (fixed_filter P) ?t (lru_order p) [] s = (take (nat ?t) (filter P (lru_order p)), s)" if "?t \<noteq> 0"
    using select_victims_fixed[of "[]" ?t P "lru_order p" s] that target_count_nonneg[of "length (lru_order p)" r] by simp
  then show ?thesis by (auto simp: lru_actions_def Let_def)
qed

lemma lru_actions_decides:
  "decides R f P \<Longrightarrow> R s \<Longrightarrow> fst (lru_actions r f p s) = fst (lru_actions r (fixed_filter P) p s0)"
  using select_victims_decides[of R f P s "target_count (length (lru_order p)) r" "lru_order p" "[]" s0]
  by (simp add: lru_actions_def Let_def case_prod_beta)

interpretation lru: eviction_policy "\<lambda>p. distinct (lru_order p)" "\<lambda>p. set (lru_order p)" "\<lambda>p. set (lru_order p)"
  lru_created lru_created lru_touched lru_removed lru_actions
proof (unfold_locales, goal_cases)
  case (8 Q f s r p)
  then show ?case by (rule lru_actions_state)
next
  case (9 p r P s acts p' s')
  then have "action_keys acts = take (nat (target_count (length (lru_order p)) r)) (filter P (lru_order p))"
    using lru_actions_fixed[of r P p s] by simp
  with target_count_pos[of r "length (lru_order p)"] show ?case
    by (cases "lru_order p = []") (auto simp: filter_empty_conv dest: in_set_takeD)
next
  case (10 R f P s r p)
  then show ?case by (rule lru_actions_decides)
next
  case (1 p keys)
  then show ?case by (rule lru_created_law)
next
  case (2 p keys)
  then show ?case by (rule lru_touched_law)
next
  case (3 p keys)
  then show ?case by (simp add: lru_removed_law)
next
  case (6 p r f s acts p' s')
  then show ?case using lru_actions_frame by fastforce
next
  case (7 p r f s acts p' s')
  then show ?case by (rule lru_actions_keys)
qed simp_all

text \<open>The reference for LRU: the tracked keys in the order of their last use.\<close>

fun last_use :: "'k notification \<Rightarrow> 'k list \<Rightarrow> 'k list" where
  "last_use (Reserved keys) order = remdups (order @ rev keys)"
| "last_use (Created keys) order = remdups (order @ rev keys)"
| "last_use (Touched keys) order = remdups (order @ rev (filter (\<lambda>k. k \<in> set order) keys))"
| "last_use (Removed keys) order = filter (\<lambda>k. k \<notin> set keys) order"

definition lru_notify :: "'k notification \<Rightarrow> 'k lru_policy \<Rightarrow> 'k lru_policy" where
  "lru_notify = tell lru_created lru_created lru_touched lru_removed"

lemma lru_notify_order: "distinct (lru_order p) \<Longrightarrow> lru_order (lru_notify n p) = last_use n (lru_order p)"
  by (cases n) (simp_all add: lru_notify_def lru_created_def lru_touched_def lru_removed_def fold_od_use fold_od_touch
      fold_od_removed rev_filter)

lemma lru_notify_orders:
  "distinct (lru_order p) \<Longrightarrow> lru_order (fold lru_notify ns p) = fold last_use ns (lru_order p)"
proof (induction ns arbitrary: p)
  case (Cons n ns)
  have "distinct (lru_order (lru_notify n p))" using lru.notify_law[OF Cons.prems] by (simp add: lru_notify_def)
  with Cons lru_notify_order[OF Cons.prems] show ?case by simp
qed simp

text \<open>
  C15: LRU evicts what was used longest ago. Whatever notifications a fresh policy got, it tracks
  exactly the keys that were reserved or created and not removed since, and for a filter on keys it
  returns the eligible ones in the order of their last use, the keys of one call counted last to
  first, as many as the ratio asks for.
\<close>

theorem lru_evicts_least_recent:
  fixes ns :: "'k notification list"
  shows "let p = fold lru_notify ns (lru_init d) in
    set (lru_order p) = fold known ns {} \<and>
    action_keys (fst (fst (lru_actions r (fixed_filter P) p s))) =
      take (nat (target_count (card (fold known ns ({} :: 'k set))) r)) (filter P (fold last_use ns []))"
proof -
  let ?p = "fold lru_notify ns (lru_init d)"
  have "distinct (lru_order (lru_init d :: 'k lru_policy))" by (simp add: lru_init_def)
  note law = lru.notify_all[OF this, of ns] lru_notify_orders[OF this, of ns]
  have "length (lru_order ?p) = card (fold known ns ({} :: 'k set))"
    using law(1) distinct_card[of "lru_order ?p"] by (simp add: lru_notify_def lru_init_def)
  with law show ?thesis unfolding lru_actions_fixed Let_def by (simp add: lru_notify_def lru_init_def)
qed

text \<open>Asked for at most no candidate, \<open>get_eviction_candidates\<close> still returns one.\<close>

lemma lru_candidates_zero: "lru_order p = key # keys \<Longrightarrow> limit \<le> 0 \<Longrightarrow> lru_candidates limit p = [key]"
  by (simp add: lru_candidates_def)

end
