(* ===== verification/ARC_Policy.thy ===== *)
theory ARC_Policy
  imports Eviction_Policy
begin

text \<open>
  The adaptive replacement policy of \<open>lmcache/v1/distributed/eviction_policy/arc.py\<close>: the resident
  lists \<open>T1\<close> and \<open>T2\<close>, the ghost lists \<open>B1\<close> and \<open>B2\<close>, the adaptive target size of \<open>T1\<close>, and the
  choice of victims with two iterators that are consumed once.
\<close>

section \<open>State\<close>

record 'k arc_policy =
  arc_t1 :: "'k list"
  arc_t2 :: "'k list"
  arc_b1 :: "'k list"
  arc_b2 :: "'k list"
  arc_pending_admissions :: "'k set"
  arc_pending_evictions :: "'k set"
  arc_target_t1_size :: rat
  arc_capacity :: nat
  arc_destinations :: "eviction_destination list"
  arc_default_destination :: eviction_destination

definition arc_init :: "eviction_destination \<Rightarrow> 'k arc_policy" where
  "arc_init d = \<lparr>arc_t1 = [], arc_t2 = [], arc_b1 = [], arc_b2 = [], arc_pending_admissions = {},
     arc_pending_evictions = {}, arc_target_t1_size = 0, arc_capacity = 0, arc_destinations = [],
     arc_default_destination = d\<rparr>"

definition arc_register :: "eviction_destination \<Rightarrow> 'k arc_policy \<Rightarrow> 'k arc_policy" where
  "arc_register d p = p\<lparr>arc_destinations := add_destination d (arc_destinations p)\<rparr>"

definition resident_size :: "'k arc_policy \<Rightarrow> nat" where
  "resident_size p = length (arc_t1 p) + length (arc_t2 p)"

definition tracked_size :: "'k arc_policy \<Rightarrow> nat" where
  "tracked_size p = resident_size p + length (arc_b1 p) + length (arc_b2 p)"

section \<open>Helpers\<close>

text \<open>The first list holds the key that was hit, so it is not empty.\<close>

definition adaptation_delta :: "'k list \<Rightarrow> 'k list \<Rightarrow> rat" where
  "adaptation_delta hit_list other_list = max 1 (f64 (of_nat (length other_list) / of_nat (length hit_list)))"

definition grow_target :: "'k arc_policy \<Rightarrow> rat" where
  "grow_target p = min (of_nat (arc_capacity p))
     (float_add (arc_target_t1_size p) (adaptation_delta (arc_b1 p) (arc_b2 p)))"

definition shrink_target :: "'k arc_policy \<Rightarrow> rat" where
  "shrink_target p = max 0 (float_sub (arc_target_t1_size p) (adaptation_delta (arc_b2 p) (arc_b1 p)))"

definition remove_key :: "'k \<Rightarrow> 'k arc_policy \<Rightarrow> 'k arc_policy" where
  "remove_key key p = p\<lparr>arc_t1 := od_del key (arc_t1 p), arc_t2 := od_del key (arc_t2 p),
     arc_b1 := od_del key (arc_b1 p), arc_b2 := od_del key (arc_b2 p)\<rparr>"

definition retire :: "'k \<Rightarrow> 'k arc_policy \<Rightarrow> 'k arc_policy" where
  "retire key p =
     (if key \<in> set (arc_t1 p) then p\<lparr>arc_t1 := od_del key (arc_t1 p), arc_b1 := od_set key (arc_b1 p)\<rparr>
      else if key \<in> set (arc_t2 p) then p\<lparr>arc_t2 := od_del key (arc_t2 p), arc_b2 := od_set key (arc_b2 p)\<rparr>
      else p)"

fun trim_b1 :: "nat \<Rightarrow> nat \<Rightarrow> 'k list \<Rightarrow> 'k list" where
  "trim_b1 t1_len capacity [] = []"
| "trim_b1 t1_len capacity (k # b1) =
     (if t1_len + length (k # b1) > capacity then trim_b1 t1_len capacity b1 else k # b1)"

fun trim_tracked :: "nat \<Rightarrow> nat \<Rightarrow> 'k list \<Rightarrow> 'k list \<Rightarrow> 'k list \<times> 'k list" where
  "trim_tracked resident capacity b1 (k # b2) =
     (if resident + length b1 + length (k # b2) > 2 * capacity then trim_tracked resident capacity b1 b2 else (b1, k # b2))"
| "trim_tracked resident capacity (k # b1) [] =
     (if resident + length (k # b1) > 2 * capacity then trim_tracked resident capacity b1 [] else (k # b1, []))"
| "trim_tracked resident capacity [] [] = ([], [])"

definition trim_ghost_lists :: "'k arc_policy \<Rightarrow> 'k arc_policy" where
  "trim_ghost_lists p =
     (if arc_capacity p = 0 then p
      else let b1 = trim_b1 (length (arc_t1 p)) (arc_capacity p) (arc_b1 p);
               (b1', b2') = trim_tracked (resident_size p) (arc_capacity p) b1 (arc_b2 p)
           in p\<lparr>arc_b1 := b1', arc_b2 := b2'\<rparr>)"

section \<open>Notifications\<close>

definition update_capacity :: "'k arc_policy \<Rightarrow> 'k arc_policy" where
  "update_capacity p = p\<lparr>arc_capacity := max (arc_capacity p) (resident_size p)\<rparr>"

definition arc_create_key :: "'k \<Rightarrow> 'k arc_policy \<Rightarrow> 'k arc_policy" where
  "arc_create_key key p0 =
     (let p = p0\<lparr>arc_pending_evictions := arc_pending_evictions p0 - {key}\<rparr> in
      if key \<in> arc_pending_admissions p
      then p\<lparr>arc_pending_admissions := arc_pending_admissions p - {key}\<rparr>
      else trim_ghost_lists (update_capacity
        (if key \<in> set (arc_t1 p)
         then p\<lparr>arc_t1 := od_del key (arc_t1 p), arc_t2 := od_set key (arc_t2 p)\<rparr>
         else if key \<in> set (arc_t2 p) then p\<lparr>arc_t2 := od_move_to_end key (arc_t2 p)\<rparr>
         else if key \<in> set (arc_b1 p)
         then p\<lparr>arc_target_t1_size := grow_target p, arc_b1 := od_del key (arc_b1 p), arc_t2 := od_set key (arc_t2 p)\<rparr>
         else if key \<in> set (arc_b2 p)
         then p\<lparr>arc_target_t1_size := shrink_target p, arc_b2 := od_del key (arc_b2 p), arc_t2 := od_set key (arc_t2 p)\<rparr>
         else let q = remove_key key p in q\<lparr>arc_t1 := od_set key (arc_t1 q)\<rparr>)))"

definition arc_created :: "'k list \<Rightarrow> 'k arc_policy \<Rightarrow> 'k arc_policy" where
  "arc_created keys p = fold arc_create_key (rev keys) p"

definition arc_reserve_key :: "'k \<Rightarrow> 'k arc_policy \<Rightarrow> 'k arc_policy" where
  "arc_reserve_key key p0 =
     (let p = p0\<lparr>arc_pending_evictions := arc_pending_evictions p0 - {key},
                 arc_pending_admissions := insert key (arc_pending_admissions p0)\<rparr>;
          p1 = (if key \<in> set (arc_b1 p) then p\<lparr>arc_target_t1_size := grow_target p\<rparr>
                else if key \<in> set (arc_b2 p) then p\<lparr>arc_target_t1_size := shrink_target p\<rparr>
                else p);
          p2 = remove_key key p1
      in trim_ghost_lists (update_capacity (p2\<lparr>arc_t1 := od_set key (arc_t1 p2)\<rparr>)))"

definition arc_reserved :: "'k list \<Rightarrow> 'k arc_policy \<Rightarrow> 'k arc_policy" where
  "arc_reserved keys p = fold arc_reserve_key (rev keys) p"

definition arc_touch_key :: "'k \<Rightarrow> 'k arc_policy \<Rightarrow> 'k arc_policy" where
  "arc_touch_key key p =
     (if key \<in> set (arc_t1 p)
      then p\<lparr>arc_t1 := od_del key (arc_t1 p), arc_t2 := od_set key (arc_t2 p)\<rparr>
      else if key \<in> set (arc_t2 p) then p\<lparr>arc_t2 := od_move_to_end key (arc_t2 p)\<rparr>
      else p)"

definition arc_touched :: "'k list \<Rightarrow> 'k arc_policy \<Rightarrow> 'k arc_policy" where
  "arc_touched keys p = fold arc_touch_key (rev keys) p"

definition arc_remove_one :: "'k \<Rightarrow> 'k arc_policy \<Rightarrow> 'k arc_policy" where
  "arc_remove_one key p =
     (let q = (if key \<in> arc_pending_evictions p then retire key p else remove_key key p)
      in q\<lparr>arc_pending_admissions := arc_pending_admissions q - {key},
           arc_pending_evictions := arc_pending_evictions q - {key}\<rparr>)"

definition arc_removed :: "'k list \<Rightarrow> 'k arc_policy \<Rightarrow> 'k arc_policy" where
  "arc_removed keys p = (if keys = [] then p else trim_ghost_lists (fold arc_remove_one keys p))"

section \<open>Victims\<close>

text \<open>An iterator is the list of entries it has left.\<close>

fun next_eligible ::
  "('k, 's) key_filter \<Rightarrow> 'k set \<Rightarrow> 'k list \<Rightarrow> 's \<Rightarrow> ('k option \<times> 'k list) \<times> 's" where
  "next_eligible f selected [] s = ((None, []), s)"
| "next_eligible f selected (key # entries) s =
     (if key \<in> selected then next_eligible f selected entries s
      else let (ok, s1) = passes f key s in
        if \<not> ok then next_eligible f selected entries s1 else ((Some key, entries), s1))"

text \<open>One pass of the loop body: the candidate, both iterators and the virtual size of \<open>T1\<close>.\<close>

definition next_candidate ::
  "('k, 's) key_filter \<Rightarrow> int \<Rightarrow> 'k set \<Rightarrow> 'k list \<Rightarrow> 'k list \<Rightarrow> int \<Rightarrow> 's
     \<Rightarrow> ('k option \<times> 'k list \<times> 'k list \<times> int) \<times> 's" where
  "next_candidate f target selected t1_iter t2_iter virtual s =
     (let ((c1, i1), s1) = (if virtual \<ge> target then next_eligible f selected t1_iter s else ((None, t1_iter), s)) in
      if c1 \<noteq> None then ((c1, i1, t2_iter, virtual - 1), s1)
      else let ((c2, i2), s2) = next_eligible f selected t2_iter s1 in
        if c2 \<noteq> None then ((c2, i1, i2, virtual), s2)
        else let ((c3, i3), s3) = next_eligible f selected i1 s2 in
          ((c3, i3, i2, if c3 \<noteq> None then virtual - 1 else virtual), s3))"

lemma next_eligible_length:
  "next_eligible f selected xs s = ((c, ys), s') \<Longrightarrow> length ys \<le> length xs \<and> (c \<noteq> None \<longrightarrow> length ys < length xs)"
  by (induction xs arbitrary: s) (fastforce split: if_splits prod.splits)+

lemma next_candidate_length:
  assumes "next_candidate f target selected xs ys v s = ((Some k, xs', ys', v'), s')"
  shows "length xs' + length ys' < length xs + length ys"
proof -
  obtain c1 i1 s1 where 1: "(if v \<ge> target then next_eligible f selected xs s else ((None, xs), s)) = ((c1, i1), s1)"
    by (metis surj_pair)
  obtain c2 i2 s2 where 2: "next_eligible f selected ys s1 = ((c2, i2), s2)" by (metis surj_pair)
  obtain c3 i3 s3 where 3: "next_eligible f selected i1 s2 = ((c3, i3), s3)" by (metis surj_pair)
  have "length i1 \<le> length xs \<and> (c1 \<noteq> None \<longrightarrow> length i1 < length xs)"
    using 1 next_eligible_length[of f selected xs s] by (auto split: if_splits)
  with assms 1 2 3 next_eligible_length[OF 2] next_eligible_length[OF 3] show ?thesis
    by (auto simp: next_candidate_def split: if_splits)
qed

function arc_victims ::
  "('k, 's) key_filter \<Rightarrow> int \<Rightarrow> int \<Rightarrow> 'k set \<Rightarrow> 'k list \<Rightarrow> 'k list \<Rightarrow> 'k list \<Rightarrow> int \<Rightarrow> 's \<Rightarrow> 'k list \<times> 's" where
  "arc_victims f target_n target selected victims t1_iter t2_iter virtual s =
     (if int (length victims) < target_n
      then (case next_candidate f target selected t1_iter t2_iter virtual s of
              ((None, _), s1) \<Rightarrow> (victims, s1)
            | ((Some key, i1, i2, v), s1) \<Rightarrow>
                arc_victims f target_n target (insert key selected) (victims @ [key]) i1 i2 v s1)
      else (victims, s))"
  by pat_completeness auto
termination
  by (relation "measure (\<lambda>(_, _, _, _, _, xs, ys, _, _). length xs + length ys)")
    (auto dest: next_candidate_length[OF sym])

declare arc_victims.simps [simp del]

definition arc_actions ::
  "rat \<Rightarrow> ('k, 's) key_filter \<Rightarrow> 'k arc_policy \<Rightarrow> 's \<Rightarrow> ('k eviction_action list \<times> 'k arc_policy) \<times> 's" where
  "arc_actions expected_ratio f p s =
     (let resident = resident_size p; target_n = target_count resident expected_ratio in
      if resident = 0 \<or> target_n = 0 then (([], p), s)
      else let q = p\<lparr>arc_capacity := max (arc_capacity p) resident\<rparr>;
               q1 = trim_ghost_lists (q\<lparr>arc_target_t1_size := min (arc_target_t1_size q) (of_nat (arc_capacity q))\<rparr>);
               (victims, s1) = arc_victims f target_n (py_int (arc_target_t1_size q1)) {} [] (arc_t1 q1) (arc_t2 q1)
                 (int (length (arc_t1 q1))) s
           in if victims = [] then (([], q1), s1)
              else (([\<lparr>ea_destination = choose_destination (arc_destinations q1) (arc_default_destination q1),
                       ea_keys = victims\<rparr>],
                     q1\<lparr>arc_pending_evictions := arc_pending_evictions q1 \<union> set victims\<rparr>), s1))"

definition arc_num_tracked_keys :: "'k arc_policy \<Rightarrow> nat" where
  "arc_num_tracked_keys p = resident_size p"

section \<open>Invariant\<close>

definition arc_resident :: "'k arc_policy \<Rightarrow> 'k set" where
  "arc_resident p = set (arc_t1 p) \<union> set (arc_t2 p)"

text \<open>
  No key is in two lists, what is pending is resident, and the target is a size \<open>T1\<close> can have. The
  upper bound of the target needs a capacity that a float represents exactly.
\<close>

definition arc_lists_ok :: "'k arc_policy \<Rightarrow> bool" where
  "arc_lists_ok p \<longleftrightarrow> distinct (arc_t1 p @ arc_t2 p @ arc_b1 p @ arc_b2 p) \<and>
     arc_pending_admissions p \<subseteq> arc_resident p \<and> arc_pending_evictions p \<subseteq> arc_resident p"

definition arc_target_ok :: "'k arc_policy \<Rightarrow> bool" where
  "arc_target_ok p \<longleftrightarrow> 0 \<le> arc_target_t1_size p \<and>
     (int (arc_capacity p) \<le> 2 ^ 53 \<longrightarrow> arc_target_t1_size p \<le> of_nat (arc_capacity p))"

definition arc_bounds :: "'k arc_policy \<Rightarrow> bool" where
  "arc_bounds p \<longleftrightarrow> resident_size p \<le> arc_capacity p \<and> length (arc_t1 p) + length (arc_b1 p) \<le> arc_capacity p \<and>
     tracked_size p \<le> 2 * arc_capacity p"

definition arc_inv :: "'k arc_policy \<Rightarrow> bool" where
  "arc_inv p \<longleftrightarrow> arc_lists_ok p \<and> arc_target_ok p \<and> arc_bounds p"

lemmas arc_inv_defs = arc_inv_def arc_lists_ok_def arc_target_ok_def arc_bounds_def arc_resident_def
  resident_size_def tracked_size_def

lemma trim_b1_drop: "\<exists>n. trim_b1 t c b1 = drop n b1"
proof (induction b1)
  case (Cons k b1)
  then obtain n where n: "trim_b1 t c b1 = drop n b1" ..
  show ?case
  proof (cases "t + length (k # b1) > c")
    case True
    with n show ?thesis by (intro exI[of _ "Suc n"]) simp
  next
    case False
    then show ?thesis by (intro exI[of _ 0]) simp
  qed
qed simp

lemma trim_b1_bound: "t \<le> c \<Longrightarrow> t + length (trim_b1 t c b1) \<le> c"
  by (induction b1) auto

lemma trim_tracked_drop:
  "\<exists>m n. trim_tracked r c b1 b2 = (drop m b1, drop n b2)"
proof (induction r c b1 b2 rule: trim_tracked.induct)
  case (1 r c b1 k b2)
  show ?case
  proof (cases "r + length b1 + length (k # b2) > 2 * c")
    case True
    with 1 obtain m n where "trim_tracked r c b1 b2 = (drop m b1, drop n b2)" by blast
    with True show ?thesis by (intro exI[of _ m] exI[of _ "Suc n"]) simp
  next
    case False
    then show ?thesis by (intro exI[of _ 0]) simp
  qed
next
  case (2 r c k b1)
  show ?case
  proof (cases "r + length (k # b1) > 2 * c")
    case True
    with 2 obtain m where "trim_tracked r c b1 [] = (drop m b1, [])" by auto
    with True show ?thesis by (intro exI[of _ "Suc m"] exI[of _ 0]) simp
  next
    case False
    then show ?thesis by (intro exI[of _ 0]) simp
  qed
qed simp

lemma trim_tracked_bound:
  "r \<le> 2 * c \<Longrightarrow> trim_tracked r c b1 b2 = (b1', b2') \<Longrightarrow> r + length b1' + length b2' \<le> 2 * c"
  by (induction r c b1 b2 rule: trim_tracked.induct) (auto split: if_splits)

lemma trim_ghost_lists_eq:
  obtains m n where "trim_ghost_lists p = p\<lparr>arc_b1 := drop m (arc_b1 p), arc_b2 := drop n (arc_b2 p)\<rparr>"
proof (cases "arc_capacity p = 0")
  case True
  then show ?thesis using that[of 0 0] by (simp add: trim_ghost_lists_def)
next
  case False
  obtain i where i: "trim_b1 (length (arc_t1 p)) (arc_capacity p) (arc_b1 p) = drop i (arc_b1 p)" using trim_b1_drop by blast
  obtain j n where "trim_tracked (resident_size p) (arc_capacity p) (drop i (arc_b1 p)) (arc_b2 p) =
      (drop j (drop i (arc_b1 p)), drop n (arc_b2 p))" using trim_tracked_drop by blast
  with False i that[of n "j + i"] show ?thesis by (simp add: trim_ghost_lists_def)
qed

lemma trim_frame [simp]:
  "arc_t1 (trim_ghost_lists p) = arc_t1 p" "arc_t2 (trim_ghost_lists p) = arc_t2 p"
  "arc_capacity (trim_ghost_lists p) = arc_capacity p" "arc_target_t1_size (trim_ghost_lists p) = arc_target_t1_size p"
  "arc_resident (trim_ghost_lists p) = arc_resident p"
  by (simp_all add: trim_ghost_lists_def Let_def arc_resident_def split: prod.splits)

lemma trim_lists_ok: "arc_lists_ok p \<Longrightarrow> arc_lists_ok (trim_ghost_lists p)"
proof -
  obtain m n where t: "trim_ghost_lists p = p\<lparr>arc_b1 := drop m (arc_b1 p), arc_b2 := drop n (arc_b2 p)\<rparr>"
    by (rule trim_ghost_lists_eq)
  show "arc_lists_ok p \<Longrightarrow> ?thesis"
    unfolding t by (auto simp: arc_lists_ok_def arc_resident_def dest: in_set_dropD)
qed

text \<open>Trimming establishes the bounds as soon as the capacity covers the residents.\<close>

lemma trim_bounds:
  assumes "resident_size p \<le> arc_capacity p" "arc_capacity p = 0 \<longrightarrow> arc_b1 p = [] \<and> arc_b2 p = []"
  shows "arc_bounds (trim_ghost_lists p)"
proof (cases "arc_capacity p = 0")
  case True
  with assms show ?thesis by (simp add: trim_ghost_lists_def arc_bounds_def resident_size_def tracked_size_def)
next
  case False
  let ?t1 = "length (arc_t1 p)" and ?c = "arc_capacity p"
  obtain b1' b2' where b: "trim_tracked (resident_size p) ?c (trim_b1 ?t1 ?c (arc_b1 p)) (arc_b2 p) = (b1', b2')"
    by (cases "trim_tracked (resident_size p) ?c (trim_b1 ?t1 ?c (arc_b1 p)) (arc_b2 p)")
  have "resident_size p + length b1' + length b2' \<le> 2 * ?c" using trim_tracked_bound[OF _ b] assms(1) by simp
  moreover have "length b1' \<le> length (trim_b1 ?t1 ?c (arc_b1 p))"
    using trim_tracked_drop[of "resident_size p" ?c "trim_b1 ?t1 ?c (arc_b1 p)" "arc_b2 p"] b by auto
  moreover have "?t1 + length (trim_b1 ?t1 ?c (arc_b1 p)) \<le> ?c"
    using assms(1) by (intro trim_b1_bound) (simp add: resident_size_def)
  ultimately show ?thesis
    using False assms(1) b by (simp add: trim_ghost_lists_def arc_bounds_def resident_size_def tracked_size_def)
qed

lemma arc_bounds_ghosts: "arc_bounds p \<Longrightarrow> arc_capacity p = 0 \<longrightarrow> arc_b1 p = [] \<and> arc_b2 p = []"
  by (auto simp: arc_bounds_def tracked_size_def)

lemma trim_inv: "arc_inv p \<Longrightarrow> arc_inv (trim_ghost_lists p)"
  using trim_bounds[of p] arc_bounds_ghosts[of p] trim_lists_ok[of p]
  by (simp add: arc_inv_def arc_target_ok_def arc_bounds_def)

text \<open>After a key has been placed: the capacity follows the residents and the ghosts are trimmed.\<close>

lemma settle_inv:
  assumes "arc_lists_ok q" "arc_target_ok q" "arc_capacity q = 0 \<longrightarrow> arc_b1 q = [] \<and> arc_b2 q = []"
  shows "arc_inv (trim_ghost_lists (update_capacity q)) \<and> arc_resident (trim_ghost_lists (update_capacity q)) = arc_resident q"
proof -
  let ?q = "update_capacity q"
  have "arc_lists_ok ?q" "arc_target_ok ?q"
    using assms(1,2) by (auto simp: update_capacity_def arc_lists_ok_def arc_target_ok_def arc_resident_def)
  moreover have "arc_bounds (trim_ghost_lists ?q)"
    using assms(3) by (intro trim_bounds) (auto simp: update_capacity_def resident_size_def)
  ultimately show ?thesis using trim_lists_ok[of ?q] by (simp add: arc_inv_def arc_target_ok_def) (simp add: arc_resident_def update_capacity_def)
qed

lemma adaptation_delta_pos: "1 \<le> adaptation_delta hit other"
  by (simp add: adaptation_delta_def)

lemma grow_target_ok: "arc_target_ok p \<Longrightarrow> 0 \<le> grow_target p \<and> grow_target p \<le> of_nat (arc_capacity p)"
  using adaptation_delta_pos[of "arc_b1 p" "arc_b2 p"]
  by (auto simp: grow_target_def float_add_def arc_target_ok_def intro!: f64_nonneg)

lemma f64_nonpos: "x \<le> 0 \<Longrightarrow> f64 x \<le> 0"
proof (cases "x = 0")
  case False
  then show "x \<le> 0 \<Longrightarrow> ?thesis" by (simp add: f64_def f64_units_nonneg)
qed simp

lemma shrink_target_ok:
  assumes "arc_target_ok p"
  shows "0 \<le> shrink_target p \<and> (int (arc_capacity p) \<le> 2 ^ 53 \<longrightarrow> shrink_target p \<le> of_nat (arc_capacity p))"
proof (intro conjI impI)
  show "0 \<le> shrink_target p" by (simp add: shrink_target_def)
  assume c: "int (arc_capacity p) \<le> 2 ^ 53"
  let ?d = "arc_target_t1_size p - adaptation_delta (arc_b2 p) (arc_b1 p)"
  have le: "?d \<le> of_int (int (arc_capacity p))"
    using assms c adaptation_delta_pos[of "arc_b2 p" "arc_b1 p"] by (simp add: arc_target_ok_def)
  have "f64 ?d \<le> of_int (int (arc_capacity p))"
  proof (cases "0 \<le> ?d")
    case True
    from f64_mono[OF this le] c show ?thesis using f64_int[of "int (arc_capacity p)"] by simp
  next
    case False
    then have "f64 ?d \<le> 0" by (intro f64_nonpos) simp
    then show ?thesis by (rule order_trans) simp
  qed
  then show "shrink_target p \<le> of_nat (arc_capacity p)" by (simp add: shrink_target_def float_sub_def)
qed

lemma arc_create_key_law:
  assumes "arc_inv p0"
  shows "arc_inv (arc_create_key key p0) \<and> arc_resident (arc_create_key key p0) = insert key (arc_resident p0)"
proof -
  define p where "p = p0\<lparr>arc_pending_evictions := arc_pending_evictions p0 - {key}\<rparr>"
  have r: "arc_resident p = arc_resident p0" by (simp add: p_def arc_resident_def)
  have lists: "arc_lists_ok p" and tgt: "arc_target_ok p" and bnd: "arc_bounds p"
    using assms by (auto simp: p_def arc_inv_defs)
  note zero = arc_bounds_ghosts[OF bnd] and grow = grow_target_ok[OF tgt] and shrink = shrink_target_ok[OF tgt]
  show ?thesis
  proof (cases "key \<in> arc_pending_admissions p")
    case True
    then have "arc_create_key key p0 = p\<lparr>arc_pending_admissions := arc_pending_admissions p - {key}\<rparr>"
      by (simp add: arc_create_key_def p_def)
    moreover have "key \<in> arc_resident p" using True lists by (auto simp: arc_lists_ok_def)
    ultimately show ?thesis using lists tgt bnd r by (auto simp: arc_inv_defs)
  next
    case False
    define q where "q = (if key \<in> set (arc_t1 p)
         then p\<lparr>arc_t1 := od_del key (arc_t1 p), arc_t2 := od_set key (arc_t2 p)\<rparr>
         else if key \<in> set (arc_t2 p) then p\<lparr>arc_t2 := od_move_to_end key (arc_t2 p)\<rparr>
         else if key \<in> set (arc_b1 p)
         then p\<lparr>arc_target_t1_size := grow_target p, arc_b1 := od_del key (arc_b1 p), arc_t2 := od_set key (arc_t2 p)\<rparr>
         else if key \<in> set (arc_b2 p)
         then p\<lparr>arc_target_t1_size := shrink_target p, arc_b2 := od_del key (arc_b2 p), arc_t2 := od_set key (arc_t2 p)\<rparr>
         else let q = remove_key key p in q\<lparr>arc_t1 := od_set key (arc_t1 q)\<rparr>)"
    have "arc_create_key key p0 = trim_ghost_lists (update_capacity q)"
      using False unfolding arc_create_key_def p_def[symmetric] q_def Let_def by (rule if_not_P)
    moreover have "arc_lists_ok q"
      using lists unfolding q_def by (auto simp: arc_lists_ok_def arc_resident_def remove_key_def)
    moreover have "arc_target_ok q"
      using tgt grow shrink unfolding q_def by (auto simp: arc_target_ok_def remove_key_def)
    moreover have "arc_capacity q = 0 \<longrightarrow> arc_b1 q = [] \<and> arc_b2 q = []"
      using zero unfolding q_def by (auto simp: remove_key_def od_del_def)
    moreover have "arc_resident q = insert key (arc_resident p)"
      unfolding q_def by (auto simp: arc_resident_def remove_key_def)
    ultimately show ?thesis using settle_inv[of q] r by simp
  qed
qed

lemma arc_reserve_key_law:
  assumes "arc_inv p0"
  shows "arc_inv (arc_reserve_key key p0) \<and> arc_resident (arc_reserve_key key p0) = insert key (arc_resident p0)"
proof -
  define p where "p = p0\<lparr>arc_pending_evictions := arc_pending_evictions p0 - {key},
                 arc_pending_admissions := insert key (arc_pending_admissions p0)\<rparr>"
  define p1 where "p1 = (if key \<in> set (arc_b1 p) then p\<lparr>arc_target_t1_size := grow_target p\<rparr>
                else if key \<in> set (arc_b2 p) then p\<lparr>arc_target_t1_size := shrink_target p\<rparr> else p)"
  define q where "q = (remove_key key p1)\<lparr>arc_t1 := od_set key (arc_t1 (remove_key key p1))\<rparr>"
  have tgt: "arc_target_ok p" and bnd: "arc_bounds p"
    using assms by (auto simp: p_def arc_inv_defs)
  note zero = arc_bounds_ghosts[OF bnd] and grow = grow_target_ok[OF tgt] and shrink = shrink_target_ok[OF tgt]
  have "arc_reserve_key key p0 = trim_ghost_lists (update_capacity q)"
    by (simp add: arc_reserve_key_def Let_def p_def p1_def q_def)
  moreover have "arc_lists_ok q"
    using assms unfolding q_def p1_def p_def by (auto simp: arc_inv_def arc_lists_ok_def arc_resident_def remove_key_def)
  moreover have "arc_target_ok q"
    using tgt grow shrink unfolding q_def p1_def by (auto simp: arc_target_ok_def remove_key_def)
  moreover have "arc_capacity q = 0 \<longrightarrow> arc_b1 q = [] \<and> arc_b2 q = []"
    using zero unfolding q_def p1_def by (auto simp: remove_key_def od_del_def)
  moreover have "arc_resident q = insert key (arc_resident p0)"
    unfolding q_def p1_def p_def by (auto simp: arc_resident_def remove_key_def)
  ultimately show ?thesis using settle_inv[of q] by simp
qed

lemma length_od_set_new: "k \<notin> set xs \<Longrightarrow> length (od_set k xs) = Suc (length xs)"
  by (simp add: od_set_def)

lemma length_od_move: "distinct xs \<Longrightarrow> k \<in> set xs \<Longrightarrow> length (od_move_to_end k xs) = length xs"
  using length_od_del[of xs k] length_pos_if_in_set[of k xs] by (simp add: od_move_to_end_def)

lemma length_od_del_Suc: "distinct xs \<Longrightarrow> k \<in> set xs \<Longrightarrow> length xs = Suc (length (od_del k xs))"
  using length_od_del[of xs k] length_pos_if_in_set[of k xs] by simp

lemma arc_touch_key_law:
  assumes "arc_inv p"
  shows "arc_inv (arc_touch_key key p) \<and> arc_resident (arc_touch_key key p) = arc_resident p"
proof -
  have d: "distinct (arc_t1 p)" "distinct (arc_t2 p)" "set (arc_t1 p) \<inter> set (arc_t2 p) = {}" and bnd: "arc_bounds p"
    using assms by (auto simp: arc_inv_def arc_lists_ok_def)
  have "arc_lists_ok (arc_touch_key key p)" "arc_target_ok (arc_touch_key key p)"
    using assms by (auto simp: arc_touch_key_def arc_inv_def arc_lists_ok_def arc_target_ok_def arc_resident_def)
  moreover have "arc_bounds (arc_touch_key key p)"
  proof (cases "key \<in> set (arc_t1 p)")
    case True
    with d have "key \<notin> set (arc_t2 p)" by blast
    with True bnd length_od_del_Suc[OF d(1) True] show ?thesis
      by (simp add: arc_touch_key_def arc_bounds_def resident_size_def tracked_size_def length_od_set_new)
  next
    case False
    with bnd length_od_move[OF d(2), of key] show ?thesis
      by (simp add: arc_touch_key_def arc_bounds_def resident_size_def tracked_size_def)
  qed
  moreover have "arc_resident (arc_touch_key key p) = arc_resident p"
    by (auto simp: arc_touch_key_def arc_resident_def)
  ultimately show ?thesis by (simp add: arc_inv_def)
qed

lemma arc_remove_one_law:
  assumes "arc_inv p"
  shows "arc_inv (arc_remove_one key p) \<and> arc_resident (arc_remove_one key p) = arc_resident p - {key}"
proof -
  have d: "distinct (arc_t1 p)" "distinct (arc_t2 p)" "set (arc_t1 p) \<inter> set (arc_t2 p) = {}"
    "set (arc_t1 p) \<inter> set (arc_b1 p) = {}" "set (arc_t2 p) \<inter> set (arc_b2 p) = {}"
    and pend: "arc_pending_evictions p \<subseteq> arc_resident p" and bnd: "arc_bounds p"
    using assms by (auto simp: arc_inv_def arc_lists_ok_def)
  have "arc_lists_ok (arc_remove_one key p) \<and> arc_target_ok (arc_remove_one key p) \<and>
      arc_resident (arc_remove_one key p) = arc_resident p - {key}"
    using assms by (auto simp: arc_remove_one_def Let_def retire_def remove_key_def arc_inv_def arc_lists_ok_def
        arc_target_ok_def arc_resident_def)
  moreover have "arc_bounds (arc_remove_one key p)"
  proof (cases "key \<in> arc_pending_evictions p")
    case False
    with bnd length_od_del_le[of key "arc_t1 p"] length_od_del_le[of key "arc_t2 p"] length_od_del_le[of key "arc_b1 p"]
      length_od_del_le[of key "arc_b2 p"]
    show ?thesis by (simp add: arc_remove_one_def Let_def remove_key_def arc_bounds_def resident_size_def tracked_size_def)
  next
    case True
    with pend consider "key \<in> set (arc_t1 p)" | "key \<notin> set (arc_t1 p)" "key \<in> set (arc_t2 p)"
      by (auto simp: arc_resident_def)
    then show ?thesis
    proof cases
      case 1
      with d have "key \<notin> set (arc_b1 p)" by blast
      with 1 True bnd length_od_del_Suc[OF d(1) 1] show ?thesis
        by (simp add: arc_remove_one_def Let_def retire_def arc_bounds_def resident_size_def tracked_size_def length_od_set_new)
    next
      case 2
      with d have "key \<notin> set (arc_b2 p)" by blast
      with 2 True bnd length_od_del_Suc[OF d(2) 2(2)] show ?thesis
        by (simp add: arc_remove_one_def Let_def retire_def arc_bounds_def resident_size_def tracked_size_def length_od_set_new)
    qed
  qed
  ultimately show ?thesis by (simp add: arc_inv_def)
qed

lemma arc_fold_add:
  assumes "\<And>k p. arc_inv p \<Longrightarrow> arc_inv (g k p) \<and> arc_resident (g k p) = insert k (arc_resident p)"
  shows "arc_inv p \<Longrightarrow> arc_inv (fold g keys p) \<and> arc_resident (fold g keys p) = arc_resident p \<union> set keys"
  by (induction keys arbitrary: p) (simp_all add: assms)

lemma arc_created_law: "arc_inv p \<Longrightarrow> arc_inv (arc_created keys p) \<and> arc_resident (arc_created keys p) = arc_resident p \<union> set keys"
  using arc_fold_add[of arc_create_key p "rev keys"] by (simp add: arc_created_def arc_create_key_law)

lemma arc_reserved_law: "arc_inv p \<Longrightarrow> arc_inv (arc_reserved keys p) \<and> arc_resident (arc_reserved keys p) = arc_resident p \<union> set keys"
  using arc_fold_add[of arc_reserve_key p "rev keys"] by (simp add: arc_reserved_def arc_reserve_key_law)

lemma arc_touched_law: "arc_inv p \<Longrightarrow> arc_inv (arc_touched keys p) \<and> arc_resident (arc_touched keys p) = arc_resident p"
proof -
  have "arc_inv p \<Longrightarrow> arc_inv (fold arc_touch_key ks p) \<and> arc_resident (fold arc_touch_key ks p) = arc_resident p" for ks
    by (induction ks arbitrary: p) (simp_all add: arc_touch_key_law)
  then show "arc_inv p \<Longrightarrow> ?thesis" by (simp add: arc_touched_def)
qed

lemma arc_removed_law:
  assumes "arc_inv p"
  shows "arc_inv (arc_removed keys p) \<and> arc_resident (arc_removed keys p) = arc_resident p - set keys"
proof -
  have "arc_inv (fold arc_remove_one keys p) \<and> arc_resident (fold arc_remove_one keys p) = arc_resident p - set keys"
    using assms by (induction keys arbitrary: p) (auto simp: arc_remove_one_law)
  then show ?thesis using trim_inv[of "fold arc_remove_one keys p"] assms by (auto simp: arc_removed_def)
qed

section \<open>Choice of victims\<close>

text \<open>
  The reference: \<open>as\<close> and \<open>bs\<close> are the eligible keys of \<open>T1\<close> and \<open>T2\<close>. The next victim comes from
  \<open>T1\<close> while its size, counted down with every victim it gives, is at least the target, or when \<open>T2\<close>
  has nothing left.
\<close>

fun arc_choose :: "nat \<Rightarrow> int \<Rightarrow> int \<Rightarrow> 'k list \<Rightarrow> 'k list \<Rightarrow> 'k list" where
  "arc_choose 0 target virtual as bs = []"
| "arc_choose (Suc n) target virtual [] bs = take (Suc n) bs"
| "arc_choose (Suc n) target virtual (a # as) [] = a # arc_choose n target (virtual - 1) as []"
| "arc_choose (Suc n) target virtual (a # as) (b # bs) =
     (if virtual \<ge> target then a # arc_choose n target (virtual - 1) as (b # bs)
      else b # arc_choose n target virtual (a # as) bs)"

lemma length_arc_choose: "length (arc_choose n target v as bs) = min n (length as + length bs)"
  by (induction n target v as bs rule: arc_choose.induct) auto

lemma set_arc_choose: "set (arc_choose n target v as bs) \<subseteq> set as \<union> set bs"
  by (induction n target v as bs rule: arc_choose.induct) (auto dest: in_set_takeD)

lemma next_eligible_fixed:
  "selected \<inter> set xs = {} \<Longrightarrow>
     (case filter P xs of
        [] \<Rightarrow> next_eligible (fixed_filter P) selected xs s = ((None, []), s)
      | a # as \<Rightarrow> \<exists>rest. next_eligible (fixed_filter P) selected xs s = ((Some a, rest), s) \<and> filter P rest = as \<and>
          set (a # rest) \<subseteq> set xs \<and> (distinct xs \<longrightarrow> distinct (a # rest)))"
proof (induction xs)
  case (Cons x xs)
  show ?case
  proof (cases "P x")
    case True
    with Cons.prems show ?thesis by auto
  next
    case False
    with Cons show ?thesis by (auto split: list.splits)
  qed
qed simp

text \<open>One pass of the loop, for a filter on keys.\<close>

lemma next_candidate_fixed:
  assumes "selected \<inter> (set xs \<union> set ys) = {}" "distinct (xs @ ys)"
  shows "\<exists>c xs' ys' v'. next_candidate (fixed_filter P) target selected xs ys v s = ((c, xs', ys', v'), s) \<and>
    (case c of
       None \<Rightarrow> filter P xs = [] \<and> filter P ys = []
     | Some k \<Rightarrow> insert k selected \<inter> (set xs' \<union> set ys') = {} \<and> distinct (xs' @ ys') \<and>
         (\<forall>n. arc_choose (Suc n) target v (filter P xs) (filter P ys) =
                k # arc_choose n target v' (filter P xs') (filter P ys')))"
proof -
  have disj: "selected \<inter> set xs = {}" "selected \<inter> set ys = {}" and d: "distinct xs" "distinct ys" "set xs \<inter> set ys = {}"
    using assms by auto
  note X = next_eligible_fixed[OF disj(1), of P s] and Y = next_eligible_fixed[OF disj(2), of P s]
  show ?thesis
  proof (cases "filter P xs")
    case Nil
    with X have x: "next_eligible (fixed_filter P) selected xs s = ((None, []), s)" by simp
    show ?thesis
    proof (cases "filter P ys")
      case Nil
      with Y x \<open>filter P xs = []\<close> show ?thesis by (auto simp: next_candidate_def)
    next
      case (Cons b bs)
      with Y obtain ys' where y: "next_eligible (fixed_filter P) selected ys s = ((Some b, ys'), s)"
        "filter P ys' = bs" "set (b # ys') \<subseteq> set ys" "distinct (b # ys')" using d by auto
      have "arc_choose (Suc n) target v [] (b # bs) = b # arc_choose n target v [] bs" for n by (cases n) simp_all
      with x y Nil Cons assms show ?thesis by (auto simp: next_candidate_def)
    qed
  next
    case (Cons a as)
    with X obtain xs' where x: "next_eligible (fixed_filter P) selected xs s = ((Some a, xs'), s)"
      "filter P xs' = as" "set (a # xs') \<subseteq> set xs" "distinct (a # xs')" using d by auto
    show ?thesis
    proof (cases "filter P ys")
      case Nil
      with Y have "next_eligible (fixed_filter P) selected ys s = ((None, []), s)" by simp
      with x Nil Cons assms show ?thesis by (auto simp: next_candidate_def)
    next
      case (Cons b bs)
      with Y obtain ys' where y: "next_eligible (fixed_filter P) selected ys s = ((Some b, ys'), s)"
        "filter P ys' = bs" "set (b # ys') \<subseteq> set ys" "distinct (b # ys')" using d by auto
      with x Cons \<open>filter P xs = a # as\<close> assms show ?thesis by (cases "v \<ge> target") (auto simp: next_candidate_def)
    qed
  qed
qed

lemma arc_victims_fixed:
  "selected \<inter> (set xs \<union> set ys) = {} \<Longrightarrow> distinct (xs @ ys) \<Longrightarrow>
     arc_victims (fixed_filter P) target_n target selected victims xs ys v s =
       (victims @ arc_choose (nat target_n - length victims) target v (filter P xs) (filter P ys), s)"
proof (induction "nat target_n - length victims" arbitrary: selected victims xs ys v)
  case 0
  then have "\<not> int (length victims) < target_n" by simp
  with 0 show ?case by (subst arc_victims.simps) simp
next
  case (Suc n)
  then have lt: "int (length victims) < target_n" and n: "n = nat target_n - length (victims @ [k])" for k by simp_all
  obtain c xs' ys' v' where c: "next_candidate (fixed_filter P) target selected xs ys v s = ((c, xs', ys', v'), s)"
    "case c of None \<Rightarrow> filter P xs = [] \<and> filter P ys = []
     | Some k \<Rightarrow> insert k selected \<inter> (set xs' \<union> set ys') = {} \<and> distinct (xs' @ ys') \<and>
         (\<forall>n. arc_choose (Suc n) target v (filter P xs) (filter P ys) =
                k # arc_choose n target v' (filter P xs') (filter P ys'))"
    using next_candidate_fixed[OF Suc.prems, of P target v s] by (elim exE conjE)
  show ?case
  proof (cases c)
    case None
    with c lt Suc.hyps(2)[symmetric] show ?thesis by (subst arc_victims.simps) simp
  next
    case (Some k)
    with c(2) have k: "insert k selected \<inter> (set xs' \<union> set ys') = {}" "distinct (xs' @ ys')"
      "arc_choose (Suc n) target v (filter P xs) (filter P ys) = k # arc_choose n target v' (filter P xs') (filter P ys')"
      by simp_all
    have "arc_victims (fixed_filter P) target_n target selected victims xs ys v s =
        arc_victims (fixed_filter P) target_n target (insert k selected) (victims @ [k]) xs' ys' v' s"
      using lt c(1) Some by (subst arc_victims.simps) simp
    also have "\<dots> = ((victims @ [k]) @ arc_choose n target v' (filter P xs') (filter P ys'), s)"
      using Suc.hyps(1)[OF n k(1,2)] n[of k] by simp
    finally show ?thesis using k(3) Suc.hyps(2) by simp
  qed
qed

text \<open>Any filter, also one that changes its state: victims are distinct residents.\<close>

lemma next_eligible_sub:
  "next_eligible f selected xs s = ((c, ys), s') \<Longrightarrow>
     set ys \<subseteq> set xs \<and> (\<forall>k. c = Some k \<longrightarrow> k \<in> set xs \<and> k \<notin> selected)"
proof (induction xs arbitrary: s)
  case (Cons x xs)
  obtain ok s1 where p: "passes f x s = (ok, s1)" by (cases "passes f x s")
  with Cons.prems Cons.IH[of s] Cons.IH[of s1] show ?case by (auto split: if_splits)
qed auto

lemma next_candidate_sub:
  assumes "next_candidate f target selected xs ys v s = ((c, xs', ys', v'), s')"
  shows "set xs' \<subseteq> set xs \<and> set ys' \<subseteq> set ys \<and> (\<forall>k. c = Some k \<longrightarrow> k \<in> set xs \<union> set ys \<and> k \<notin> selected)"
proof -
  obtain c1 i1 s1 where 1: "(if v \<ge> target then next_eligible f selected xs s else ((None, xs), s)) = ((c1, i1), s1)"
    by (metis surj_pair)
  obtain c2 i2 s2 where 2: "next_eligible f selected ys s1 = ((c2, i2), s2)" by (metis surj_pair)
  obtain c3 i3 s3 where 3: "next_eligible f selected i1 s2 = ((c3, i3), s3)" by (metis surj_pair)
  have "set i1 \<subseteq> set xs \<and> (\<forall>k. c1 = Some k \<longrightarrow> k \<in> set xs \<and> k \<notin> selected)"
    using 1 next_eligible_sub[of f selected xs s] by (auto split: if_splits)
  with assms 1 2 3 next_eligible_sub[OF 2] next_eligible_sub[OF 3] show ?thesis
    by (auto simp: next_candidate_def split: if_splits)
qed

lemma arc_victims_sub:
  "distinct victims \<Longrightarrow> set victims = selected \<Longrightarrow>
     arc_victims f target_n target selected victims xs ys v s = (vs, s') \<Longrightarrow>
     distinct vs \<and> set vs \<subseteq> selected \<union> set xs \<union> set ys"
proof (induction f target_n target selected victims xs ys v s rule: arc_victims.induct)
  case (1 f target_n target selected victims xs ys v s)
  obtain c xs' ys' v' s1 where c: "next_candidate f target selected xs ys v s = ((c, xs', ys', v'), s1)" by (metis surj_pair)
  note sub = next_candidate_sub[OF this]
  show ?case
  proof (cases "int (length victims) < target_n \<and> c \<noteq> None")
    case True
    then obtain k where k: "c = Some k" by blast
    have "arc_victims f target_n target (insert k selected) (victims @ [k]) xs' ys' v' s1 = (vs, s')"
      using "1.prems"(3) True c k by (subst (asm) arc_victims.simps) simp
    with "1.IH"[OF _ c[symmetric] refl k refl refl] "1.prems"(1,2) True k sub
    have "distinct vs \<and> set vs \<subseteq> insert k selected \<union> set xs' \<union> set ys'" by auto
    with sub k show ?thesis by auto
  next
    case False
    with "1.prems"(3) c have "vs = victims" by (subst (asm) arc_victims.simps) (auto split: option.splits if_splits)
    with "1.prems"(1,2) show ?thesis by auto
  qed
qed

lemma next_eligible_state:
  "(\<And>k s. Q s \<Longrightarrow> Q (snd (passes f k s))) \<Longrightarrow> Q s \<Longrightarrow> Q (snd (next_eligible f selected xs s))"
proof (induction xs arbitrary: s)
  case (Cons x xs)
  obtain ok s1 where p: "passes f x s = (ok, s1)" by (cases "passes f x s")
  with Cons.prems(1)[OF Cons.prems(2), of x] have "Q s1" by simp
  with Cons p show ?case by simp
qed simp

lemma next_candidate_state:
  assumes "\<And>k s. Q s \<Longrightarrow> Q (snd (passes f k s))" "Q s"
  shows "Q (snd (next_candidate f target selected xs ys v s))"
proof -
  note st = next_eligible_state[of Q f, OF assms(1)]
  show ?thesis using assms(2) by (auto simp: next_candidate_def Let_def case_prod_beta intro!: st)
qed

lemma arc_victims_state:
  "(\<And>k s. Q s \<Longrightarrow> Q (snd (passes f k s))) \<Longrightarrow> Q s \<Longrightarrow>
     Q (snd (arc_victims f target_n target selected victims xs ys v s))"
proof (induction f target_n target selected victims xs ys v s rule: arc_victims.induct)
  case (1 f target_n target selected victims xs ys v s)
  obtain c xs' ys' v' s1 where c: "next_candidate f target selected xs ys v s = ((c, xs', ys', v'), s1)" by (metis surj_pair)
  from next_candidate_state[of Q f, OF "1.prems"] c have "Q s1" by (metis snd_conv)
  with "1.IH"[OF _ c[symmetric] refl _ refl refl] "1.prems" c show ?case
    by (subst arc_victims.simps) (auto split: option.splits)
qed

lemma next_eligible_decides:
  "decides R f P \<Longrightarrow> R s \<Longrightarrow>
     fst (next_eligible f selected xs s) = fst (next_eligible (fixed_filter P) selected xs s0) \<and> R (snd (next_eligible f selected xs s))"
proof (induction xs arbitrary: s)
  case (Cons x xs)
  obtain s1 where p: "passes f x s = (P x, s1)" "R s1" using decidesD[OF Cons.prems, of x] by metis
  with Cons show ?case by simp
qed simp

lemma next_candidate_decides:
  assumes "decides R f P" "R s"
  shows "fst (next_candidate f target selected xs ys v s) = fst (next_candidate (fixed_filter P) target selected xs ys v s0) \<and>
    R (snd (next_candidate f target selected xs ys v s))"
proof -
  note ne = next_eligible_decides[OF assms(1)]
  obtain c1 i1 s1 where 1: "(if v \<ge> target then next_eligible f selected xs s else ((None, xs), s)) = ((c1, i1), s1)"
    by (metis surj_pair)
  have first: "fst (if v \<ge> target then next_eligible f selected xs s else ((None, xs), s)) =
      fst (if v \<ge> target then next_eligible (fixed_filter P) selected xs s0 else ((None, xs), s0))"
    using ne[OF assms(2), of selected xs s0] by simp
  obtain s1' where one: "(if v \<ge> target then next_eligible (fixed_filter P) selected xs s0 else ((None, xs), s0)) = ((c1, i1), s1')"
    using first unfolding 1 fst_conv eq_fst_iff by blast
  have R1: "R s1" using ne[OF assms(2), of selected xs s0] assms(2) 1 by (auto split: if_splits)
  obtain c2 i2 s2 where 2: "next_eligible f selected ys s1 = ((c2, i2), s2)" by (metis surj_pair)
  obtain s2' where two: "next_eligible (fixed_filter P) selected ys s1' = ((c2, i2), s2')"
    using ne[OF R1, of selected ys s1', unfolded 2 fst_conv, THEN conjunct1] unfolding eq_fst_iff by blast
  have R2: "R s2" using ne[OF R1, of selected ys s1'] 2 by simp
  show ?thesis
    unfolding next_candidate_def 1 one Let_def prod.case 2 two using R1 R2 ne[OF R2, of selected i1 s2']
    by (auto simp: case_prod_beta)
qed

lemma arc_victims_decides:
  "decides R f P \<Longrightarrow> R s \<Longrightarrow>
     fst (arc_victims f target_n target selected victims xs ys v s) =
     fst (arc_victims (fixed_filter P) target_n target selected victims xs ys v s0)"
proof (induction f target_n target selected victims xs ys v s arbitrary: s0 rule: arc_victims.induct)
  case (1 f target_n target selected victims xs ys v s)
  obtain c xs' ys' v' s1 where c: "next_candidate f target selected xs ys v s = ((c, xs', ys', v'), s1)" by (metis surj_pair)
  obtain s1' where c': "next_candidate (fixed_filter P) target selected xs ys v s0 = ((c, xs', ys', v'), s1')"
    using next_candidate_decides[OF "1.prems", of target selected xs ys v s0, unfolded c fst_conv, THEN conjunct1]
    unfolding eq_fst_iff by blast
  have "R s1" using next_candidate_decides[OF "1.prems", of target selected xs ys v s0] c by simp
  with "1.IH"[OF _ c[symmetric] refl _ refl refl] "1.prems"(1) show ?case
    by (subst (1 2) arc_victims.simps) (auto simp: c c' split: option.splits)
qed

lemma arc_inv_pending:
  "arc_inv q \<Longrightarrow> V \<subseteq> arc_resident q \<Longrightarrow>
     arc_inv (q\<lparr>arc_pending_evictions := arc_pending_evictions q \<union> V\<rparr>) \<and>
     arc_resident (q\<lparr>arc_pending_evictions := arc_pending_evictions q \<union> V\<rparr>) = arc_resident q"
  by (auto simp: arc_inv_defs)

lemma arc_actions_eq:
  assumes "arc_inv p" "arc_actions r f p s = ((acts, p'), s')"
  obtains vs where "action_keys acts = vs" "p' = p \<and> vs = [] \<or> arc_inv p' \<and> arc_resident p' = arc_resident p"
    "target_count (resident_size p) r = 0 \<or> resident_size p = 0 \<Longrightarrow> vs = [] \<and> p' = p \<and> s' = s"
    "\<not> (target_count (resident_size p) r = 0 \<or> resident_size p = 0) \<Longrightarrow>
      arc_victims f (target_count (resident_size p) r) (py_int (min (arc_target_t1_size p) (of_nat (arc_capacity p)))) {} []
        (arc_t1 p) (arc_t2 p) (int (length (arc_t1 p))) s = (vs, s')"
proof (cases "target_count (resident_size p) r = 0 \<or> resident_size p = 0")
  case True
  with assms(2) have "acts = [] \<and> p' = p \<and> s' = s" by (auto simp: arc_actions_def Let_def)
  with True that[of "[]"] show ?thesis by simp
next
  case False
  let ?n = "target_count (resident_size p) r"
  define q where "q = trim_ghost_lists (p\<lparr>arc_capacity := max (arc_capacity p) (resident_size p),
    arc_target_t1_size := min (arc_target_t1_size p) (of_nat (max (arc_capacity p) (resident_size p)))\<rparr>)"
  have cap: "max (arc_capacity p) (resident_size p) = arc_capacity p"
    using assms(1) by (simp add: arc_inv_def arc_bounds_def)
  have q: "arc_t1 q = arc_t1 p" "arc_t2 q = arc_t2 p" "arc_target_t1_size q = min (arc_target_t1_size p) (of_nat (arc_capacity p))"
    "arc_resident q = arc_resident p"
    unfolding q_def cap by (simp_all add: arc_resident_def)
  have "arc_inv q"
    unfolding q_def cap using assms(1) by (intro trim_inv) (auto simp: arc_inv_defs)
  obtain vs s1 where v: "arc_victims f ?n (py_int (arc_target_t1_size q)) {} [] (arc_t1 q) (arc_t2 q) (int (length (arc_t1 q))) s = (vs, s1)"
    by (metis surj_pair)
  have sub: "set vs \<subseteq> arc_resident q" using arc_victims_sub[OF _ _ v] by (simp add: arc_resident_def)
  have act: "action_keys acts = vs \<and> s' = s1 \<and> (p' = q \<or> p' = q\<lparr>arc_pending_evictions := arc_pending_evictions q \<union> set vs\<rparr>)"
  proof -
    have "q = trim_ghost_lists ((p\<lparr>arc_capacity := max (arc_capacity p) (resident_size p)\<rparr>)
        \<lparr>arc_target_t1_size := min (arc_target_t1_size (p\<lparr>arc_capacity := max (arc_capacity p) (resident_size p)\<rparr>))
           (of_nat (arc_capacity (p\<lparr>arc_capacity := max (arc_capacity p) (resident_size p)\<rparr>)))\<rparr>)"
      by (simp add: q_def)
    from assms(2)[unfolded arc_actions_def Let_def, folded this, unfolded v prod.case] False
    show ?thesis by (cases "vs = []") auto
  qed
  then have "arc_inv p' \<and> arc_resident p' = arc_resident p"
    using \<open>arc_inv q\<close> arc_inv_pending[OF \<open>arc_inv q\<close> sub] q(4) by (elim conjE disjE) simp_all
  with act v q False that[of vs] show ?thesis by simp
qed

lemma arc_actions_frame:
  assumes "arc_inv p" "arc_actions r f p s = ((acts, p'), s')"
  shows "arc_inv p' \<and> arc_resident p' = arc_resident p"
  by (rule arc_actions_eq[OF assms]) (use assms(1) in auto)

lemma arc_actions_keys:
  assumes "arc_inv p" "arc_actions r f p s = ((acts, p'), s')"
  shows "distinct (action_keys acts) \<and> set (action_keys acts) \<subseteq> arc_resident p"
proof (rule arc_actions_eq[OF assms])
  fix vs
  assume a: "action_keys acts = vs"
    "target_count (resident_size p) r = 0 \<or> resident_size p = 0 \<Longrightarrow> vs = [] \<and> p' = p \<and> s' = s"
    "\<not> (target_count (resident_size p) r = 0 \<or> resident_size p = 0) \<Longrightarrow>
      arc_victims f (target_count (resident_size p) r) (py_int (min (arc_target_t1_size p) (of_nat (arc_capacity p)))) {} []
        (arc_t1 p) (arc_t2 p) (int (length (arc_t1 p))) s = (vs, s')"
  show ?thesis
    using a(2) arc_victims_sub[OF _ _ a(3)] unfolding a(1) by (cases "target_count (resident_size p) r = 0 \<or> resident_size p = 0") (auto simp: arc_resident_def)
qed

lemma arc_actions_state:
  assumes "\<And>k s. Q s \<Longrightarrow> Q (snd (passes f k s))" "Q s"
  shows "Q (snd (arc_actions r f p s))"
  using arc_victims_state[of Q f, OF assms] assms(2) by (auto simp: arc_actions_def Let_def case_prod_beta)

text \<open>For a filter on keys the two iterators make exactly the choice of the reference.\<close>

lemma arc_actions_fixed:
  assumes "arc_inv p"
  shows "action_keys (fst (fst (arc_actions r (fixed_filter P) p s))) =
    arc_choose (nat (target_count (resident_size p) r)) (py_int (min (arc_target_t1_size p) (of_nat (arc_capacity p))))
      (int (length (arc_t1 p))) (filter P (arc_t1 p)) (filter P (arc_t2 p))"
proof -
  obtain acts p' s' where a: "arc_actions r (fixed_filter P) p s = ((acts, p'), s')" by (metis surj_pair)
  show ?thesis
  proof (rule arc_actions_eq[OF assms a])
    fix vs
    assume v: "action_keys acts = vs"
      "target_count (resident_size p) r = 0 \<or> resident_size p = 0 \<Longrightarrow> vs = [] \<and> p' = p \<and> s' = s"
      "\<not> (target_count (resident_size p) r = 0 \<or> resident_size p = 0) \<Longrightarrow>
        arc_victims (fixed_filter P) (target_count (resident_size p) r)
          (py_int (min (arc_target_t1_size p) (of_nat (arc_capacity p)))) {} []
          (arc_t1 p) (arc_t2 p) (int (length (arc_t1 p))) s = (vs, s')"
    show ?thesis
    proof (cases "target_count (resident_size p) r = 0 \<or> resident_size p = 0")
      case True
      then have "arc_choose (nat (target_count (resident_size p) r)) t v (filter P (arc_t1 p)) (filter P (arc_t2 p)) = []" for t v
        using length_arc_choose[of "nat (target_count (resident_size p) r)" t v "filter P (arc_t1 p)" "filter P (arc_t2 p)"]
        by (auto simp: resident_size_def)
      with v(1,2) True a show ?thesis by simp
    next
      case False
      have "distinct (arc_t1 p @ arc_t2 p)" using assms by (auto simp: arc_inv_def arc_lists_ok_def)
      from arc_victims_fixed[OF _ this, of "{}" P "target_count (resident_size p) r"
          "py_int (min (arc_target_t1_size p) (of_nat (arc_capacity p)))" "[]" "int (length (arc_t1 p))" s]
      show ?thesis unfolding a v(3)[OF False] fst_conv v(1) by simp
    qed
  qed
qed

lemma arc_actions_decides:
  assumes "decides R f P" "R s"
  shows "fst (arc_actions r f p s) = fst (arc_actions r (fixed_filter P) p s0)"
  by (simp add: arc_actions_def Let_def case_prod_beta arc_victims_decides[OF assms, of _ _ _ _ _ _ _ s0])

interpretation arc: eviction_policy arc_inv arc_resident arc_resident arc_reserved arc_created arc_touched arc_removed arc_actions
proof (unfold_locales, goal_cases)
  case (1 p keys)
  then show ?case by (rule arc_reserved_law)
next
  case (2 p keys)
  then show ?case by (rule arc_created_law)
next
  case (3 p keys)
  then show ?case by (rule arc_touched_law)
next
  case (4 p keys)
  then show ?case by (simp add: arc_removed_law)
next
  case (7 p r f s acts p' s')
  then show ?case by (simp add: arc_actions_frame)
next
  case (8 p r f s acts p' s')
  then show ?case by (rule arc_actions_keys)
next
  case (9 Q f s r p)
  then show ?case by (rule arc_actions_state)
next
  case (11 R f P s r p)
  then show ?case by (rule arc_actions_decides)
next
  case (10 p r P s acts p' s')
  let ?c = "arc_choose (nat (target_count (resident_size p) r)) (py_int (min (arc_target_t1_size p) (of_nat (arc_capacity p))))
      (int (length (arc_t1 p))) (filter P (arc_t1 p)) (filter P (arc_t2 p))"
  have k: "action_keys acts = ?c" using arc_actions_fixed[OF 10(1), of r P s] 10(2) by simp
  have "?c \<noteq> []" if "0 < r" "x \<in> arc_resident p" "P x" for x
  proof -
    have "0 < length (filter P (arc_t1 p)) + length (filter P (arc_t2 p))"
      using that by (auto simp: arc_resident_def filter_empty_conv)
    moreover have "0 < resident_size p" using that by (auto simp: arc_resident_def resident_size_def)
    ultimately have "0 < length ?c" using target_count_pos[OF that(1), of "resident_size p"] unfolding length_arc_choose by simp
    then show ?thesis by auto
  qed
  moreover have "set ?c \<subseteq> set (filter P (arc_t1 p)) \<union> set (filter P (arc_t2 p))" by (rule set_arc_choose)
  then have "\<forall>k \<in> set ?c. P k" by auto
  ultimately show ?case unfolding k by blast
qed (simp_all add: arc_resident_def)

section \<open>Properties\<close>

lemma card_arc_resident: "arc_inv p \<Longrightarrow> card (arc_resident p) = resident_size p"
  using distinct_card[of "arc_t1 p @ arc_t2 p"] by (auto simp: arc_inv_def arc_lists_ok_def arc_resident_def resident_size_def)

lemma arc_create_key_capacity:
  assumes "arc_inv p"
  shows "arc_capacity (arc_create_key k p) = max (arc_capacity p) (card (insert k (arc_resident p)))"
proof -
  note law = arc_create_key_law[OF assms, of k]
  have "resident_size p \<le> arc_capacity p" using assms by (simp add: arc_inv_def arc_bounds_def)
  then have "arc_capacity (arc_create_key k p) = max (arc_capacity p) (resident_size (arc_create_key k p))"
    by (simp add: arc_create_key_def Let_def update_capacity_def resident_size_def remove_key_def max_def)
  also have "resident_size (arc_create_key k p) = card (insert k (arc_resident p))"
    using card_arc_resident[of "arc_create_key k p"] law by simp
  finally show ?thesis .
qed

lemma arc_reserve_key_capacity:
  assumes "arc_inv p"
  shows "arc_capacity (arc_reserve_key k p) = max (arc_capacity p) (card (insert k (arc_resident p)))"
proof -
  note law = arc_reserve_key_law[OF assms, of k]
  have "arc_capacity (arc_reserve_key k p) = max (arc_capacity p) (resident_size (arc_reserve_key k p))"
    by (simp add: arc_reserve_key_def Let_def update_capacity_def resident_size_def remove_key_def)
  also have "resident_size (arc_reserve_key k p) = card (insert k (arc_resident p))"
    using card_arc_resident[of "arc_reserve_key k p"] law by simp
  finally show ?thesis .
qed

text \<open>Adding a list of keys only lets the resident set grow, so its last size is the largest.\<close>

lemma arc_fold_capacity:
  assumes law: "\<And>k p. arc_inv p \<Longrightarrow> arc_inv (g k p) \<and> arc_resident (g k p) = insert k (arc_resident p)"
    and cap: "\<And>k p. arc_inv p \<Longrightarrow> arc_capacity (g k p) = max (arc_capacity p) (card (insert k (arc_resident p)))"
  shows "arc_inv p \<Longrightarrow> arc_capacity (fold g keys p) = max (arc_capacity p) (card (arc_resident p \<union> set keys))"
proof (induction keys arbitrary: p)
  case Nil
  then show ?case using card_arc_resident[of p] by (simp add: arc_inv_def arc_bounds_def)
next
  case (Cons k keys)
  have fin: "finite (arc_resident p \<union> set (k # keys))" by (simp add: arc_resident_def)
  have "card (insert k (arc_resident p)) \<le> card (arc_resident p \<union> set (k # keys))"
    by (rule card_mono[OF fin]) auto
  with Cons.IH[of "g k p"] law[OF Cons.prems, of k] cap[OF Cons.prems, of k] show ?case by simp
qed

datatype 'k policy_call = Tell "'k notification" | Ask rat "'k \<Rightarrow> bool"

fun arc_call :: "'k policy_call \<Rightarrow> 'k arc_policy \<Rightarrow> 'k arc_policy" where
  "arc_call (Tell n) p = tell arc_reserved arc_created arc_touched arc_removed n p"
| "arc_call (Ask r P) p = snd (fst (arc_actions r (fixed_filter P) p ()))"

text \<open>The keys to remember and the largest number of them so far.\<close>

fun known_peak :: "'k policy_call \<Rightarrow> 'k set \<times> nat \<Rightarrow> 'k set \<times> nat" where
  "known_peak (Tell n) (K, peak) = (known n K, max peak (card (known n K)))"
| "known_peak (Ask r P) (K, peak) = (K, peak)"

lemma arc_call_step:
  assumes "arc_inv p"
  shows "arc_inv (arc_call c p) \<and> known_peak c (arc_resident p, arc_capacity p) = (arc_resident (arc_call c p), arc_capacity (arc_call c p))"
proof (cases c)
  case (Tell n)
  have fin: "finite (arc_resident p)" by (simp add: arc_resident_def)
  have size: "card (arc_resident p) \<le> arc_capacity p"
    using assms card_arc_resident[OF assms] by (simp add: arc_inv_def arc_bounds_def)
  have touch: "arc_capacity (fold arc_touch_key ks q) = arc_capacity q" for ks and q :: "'a arc_policy"
    by (induction ks arbitrary: q) (simp_all add: arc_touch_key_def)
  have one: "arc_capacity (arc_remove_one k q) = arc_capacity q" for k and q :: "'a arc_policy"
    by (simp add: arc_remove_one_def Let_def retire_def remove_key_def)
  have rem: "arc_capacity (fold arc_remove_one ks q) = arc_capacity q" for ks and q :: "'a arc_policy"
    by (induction ks arbitrary: q) (simp_all add: one)
  have "arc_capacity (arc_call c p) = max (arc_capacity p) (card (known n (arc_resident p)))"
  proof (cases n)
    case (Reserved keys)
    with Tell arc_fold_capacity[OF arc_reserve_key_law arc_reserve_key_capacity assms, of "rev keys"] show ?thesis by (simp add: arc_reserved_def)
  next
    case (Created keys)
    with Tell arc_fold_capacity[OF arc_create_key_law arc_create_key_capacity assms, of "rev keys"] show ?thesis by (simp add: arc_created_def)
  next
    case (Touched keys)
    with Tell size touch[of "rev keys" p] show ?thesis by (simp add: arc_touched_def)
  next
    case (Removed keys)
    have "card (arc_resident p - set keys) \<le> card (arc_resident p)" by (rule card_mono[OF fin]) auto
    with Removed Tell size rem[of keys p] show ?thesis by (simp add: arc_removed_def)
  qed
  with Tell arc.notify_law[OF assms, of n] show ?thesis by simp
next
  case (Ask r P)
  obtain acts p' s' where a: "arc_actions r (fixed_filter P) p () = ((acts, p'), s')" by (metis surj_pair)
  have "arc_capacity p' = arc_capacity p"
    using a assms unfolding arc_actions_def Let_def
    by (auto simp: arc_inv_def arc_bounds_def max_def split: if_splits prod.splits)
  with Ask a arc_actions_frame[OF assms a] show ?thesis by simp
qed

lemma arc_call_run:
  "arc_inv p \<Longrightarrow> arc_inv (fold arc_call calls p) \<and>
     fold known_peak calls (arc_resident p, arc_capacity p) = (arc_resident (fold arc_call calls p), arc_capacity (fold arc_call calls p))"
proof (induction calls arbitrary: p)
  case (Cons c calls)
  from arc_call_step[OF Cons.prems, of c] Cons.IH[of "arc_call c p"] show ?case by simp
qed simp

lemma arc_init_inv: "arc_inv (arc_init d)"
  by (simp add: arc_init_def arc_inv_defs)

text \<open>
  C12: ARC stays within its size. After any sequence of notifications and eviction requests the
  resident keys are exactly those reserved or created and not removed since, the capacity is the
  largest number of them so far, no key is in two of the four lists, \<open>T1\<close> with its ghosts holds at
  most one capacity and all four lists at most two, what is pending is resident, and the target size
  of \<open>T1\<close> lies between zero and the capacity.
\<close>

theorem arc_run_bounds:
  fixes calls :: "'k policy_call list"
  shows "let p = fold arc_call calls (arc_init d); (K, peak) = fold known_peak calls ({}, 0) in
    arc_resident p = K \<and> arc_capacity p = peak \<and> distinct (arc_t1 p @ arc_t2 p @ arc_b1 p @ arc_b2 p) \<and>
    length (arc_t1 p @ arc_t2 p) \<le> peak \<and> length (arc_t1 p @ arc_b1 p) \<le> peak \<and>
    length (arc_t1 p @ arc_t2 p @ arc_b1 p @ arc_b2 p) \<le> 2 * peak \<and>
    arc_pending_admissions p \<union> arc_pending_evictions p \<subseteq> K \<and>
    0 \<le> arc_target_t1_size p \<and> (int peak \<le> 2 ^ 53 \<longrightarrow> arc_target_t1_size p \<le> of_nat peak)"
proof -
  let ?p = "fold arc_call calls (arc_init d)"
  have start: "arc_resident (arc_init d) = ({} :: 'k set)" "arc_capacity (arc_init d :: 'k arc_policy) = 0"
    by (simp_all add: arc_init_def arc_resident_def)
  have "arc_inv ?p" and peak: "fold known_peak calls ({}, 0) = (arc_resident ?p, arc_capacity ?p)"
    using arc_call_run[OF arc_init_inv[of d], of calls] unfolding start by (rule conjunct1, rule conjunct2)
  then have "arc_lists_ok ?p" "arc_target_ok ?p" "arc_bounds ?p" by (simp_all add: arc_inv_def)
  then show ?thesis unfolding peak Let_def prod.case
    by (simp only: arc_lists_ok_def arc_target_ok_def arc_bounds_def resident_size_def tracked_size_def length_append) simp
qed

definition arc_sample :: "nat policy_call list" where
  "arc_sample = [Tell (Reserved [1, 2, 3]), Tell (Created [1, 2, 3]), Tell (Touched [2]), Ask (1 / 3) (\<lambda>_. True),
     Tell (Removed [3]), Tell (Created [3])]"

lemma arc_sample_run: "fold known_peak arc_sample ({}, 0) = ({1, 2, 3}, 3)"
  by code_simp

theorem arc_run_bounds_witness:
  "let p = fold arc_call arc_sample (arc_init DISCARD) in
     arc_resident p = {1, 2, 3} \<and> arc_capacity p = 3 \<and> arc_target_t1_size p \<le> 3"
  using arc_run_bounds[of arc_sample DISCARD] unfolding arc_sample_run by (simp add: Let_def)

text \<open>
  C13: ARC's two iterators make the choice they are meant to make. For a filter on keys, the victims
  are those of the reference that merges the eligible keys of \<open>T1\<close> and \<open>T2\<close>, oldest first, by the
  adaptive target: no eligible key is skipped, none is chosen twice, and there are as many as asked
  for or else all eligible ones.
\<close>

theorem arc_victims_reference:
  "let p = fold arc_call calls (arc_init d); n = nat (target_count (length (arc_t1 p @ arc_t2 p)) r);
       vs = action_keys (fst (fst (arc_actions r (fixed_filter P) p s))) in
    vs = arc_choose n (py_int (min (arc_target_t1_size p) (of_nat (arc_capacity p)))) (int (length (arc_t1 p)))
      (filter P (arc_t1 p)) (filter P (arc_t2 p)) \<and>
    distinct vs \<and> length vs = min n (card {k \<in> arc_resident p. P k})"
proof -
  let ?p = "fold arc_call calls (arc_init d)"
  have inv: "arc_inv ?p" using arc_call_run[OF arc_init_inv] by blast
  then have d: "distinct (filter P (arc_t1 ?p) @ filter P (arc_t2 ?p))" by (auto simp: arc_inv_def arc_lists_ok_def)
  have "{k \<in> arc_resident ?p. P k} = set (filter P (arc_t1 ?p) @ filter P (arc_t2 ?p))" by (auto simp: arc_resident_def)
  then have "length (filter P (arc_t1 ?p)) + length (filter P (arc_t2 ?p)) = card {k \<in> arc_resident ?p. P k}"
    using distinct_card[OF d] by simp
  moreover obtain acts p' s' where a: "arc_actions r (fixed_filter P) ?p s = ((acts, p'), s')" by (metis surj_pair)
  moreover from arc_actions_keys[OF inv a] have "distinct (action_keys acts)" by simp
  ultimately show ?thesis
    using arc_actions_fixed[OF inv, of r P s] by (simp add: Let_def length_arc_choose resident_size_def)
qed

end
