(* ===== verification/Isolated_LRU.thy ===== *)
theory Isolated_LRU
  imports Eviction_Policy Object_Keys
begin

text \<open>
  The per-salt LRU policy of \<open>lmcache/v1/distributed/eviction_policy/isolated_lru.py\<close>: one ordered
  key set per cache salt, eviction from one of them at a time, and the capture and restore of the
  orders in a checkpoint.
\<close>

section \<open>Policy\<close>

record iso_policy =
  iso_orders :: "(string, object_key list) dict"
  iso_destinations :: "eviction_destination list"
  iso_default_destination :: eviction_destination

definition iso_init :: "eviction_destination \<Rightarrow> iso_policy" where
  "iso_init d = \<lparr>iso_orders = [], iso_destinations = [], iso_default_destination = d\<rparr>"

definition iso_register :: "eviction_destination \<Rightarrow> iso_policy \<Rightarrow> iso_policy" where
  "iso_register d p = p\<lparr>iso_destinations := add_destination d (iso_destinations p)\<rparr>"

definition iso_create_key :: "object_key \<Rightarrow> iso_policy \<Rightarrow> iso_policy" where
  "iso_create_key key p =
     (let order = (case map_of (iso_orders p) (cache_salt key) of None \<Rightarrow> [] | Some order \<Rightarrow> order)
      in p\<lparr>iso_orders := AList.update (cache_salt key)
             (if key \<in> set order then od_move_to_end key order else od_set key order) (iso_orders p)\<rparr>)"

definition iso_created :: "object_key list \<Rightarrow> iso_policy \<Rightarrow> iso_policy" where
  "iso_created keys p = fold iso_create_key (rev keys) p"

definition iso_touch_key :: "object_key \<Rightarrow> iso_policy \<Rightarrow> iso_policy" where
  "iso_touch_key key p =
     (case map_of (iso_orders p) (cache_salt key) of
        None \<Rightarrow> p
      | Some order \<Rightarrow>
          if key \<in> set order
          then p\<lparr>iso_orders := AList.update (cache_salt key) (od_move_to_end key order) (iso_orders p)\<rparr>
          else p)"

definition iso_touched :: "object_key list \<Rightarrow> iso_policy \<Rightarrow> iso_policy" where
  "iso_touched keys p = fold iso_touch_key (rev keys) p"

definition iso_remove_key :: "object_key \<Rightarrow> iso_policy \<Rightarrow> iso_policy" where
  "iso_remove_key key p =
     (case map_of (iso_orders p) (cache_salt key) of
        None \<Rightarrow> p
      | Some order \<Rightarrow>
          let order' = od_del key order in
          p\<lparr>iso_orders := (if order' = [] then AList.delete (cache_salt key) (iso_orders p)
                          else AList.update (cache_salt key) order' (iso_orders p))\<rparr>)"

definition iso_removed :: "object_key list \<Rightarrow> iso_policy \<Rightarrow> iso_policy" where
  "iso_removed keys p = fold iso_remove_key keys p"

definition iso_salt_actions ::
  "string \<Rightarrow> rat \<Rightarrow> (object_key, 's) key_filter \<Rightarrow> iso_policy \<Rightarrow> 's
     \<Rightarrow> (object_key eviction_action list \<times> iso_policy) \<times> 's" where
  "iso_salt_actions salt expected_ratio f p s =
     (let pool = (case map_of (iso_orders p) salt of None \<Rightarrow> [] | Some order \<Rightarrow> order);
          target = target_count (length pool) expected_ratio
      in if pool = [] \<or> target = 0 then (([], p), s)
         else let (victims, s1) = select_victims f target pool [] s in
           if victims = [] then (([], p), s1)
           else (([\<lparr>ea_destination = choose_destination (iso_destinations p) (iso_default_destination p),
                    ea_keys = victims\<rparr>], p), s1))"

definition iso_actions ::
  "rat \<Rightarrow> (object_key, 's) key_filter \<Rightarrow> string option \<Rightarrow> iso_policy \<Rightarrow> 's
     \<Rightarrow> ((object_key eviction_action list \<times> iso_policy) \<times> 's) result" where
  "iso_actions expected_ratio f salt p s =
     (case salt of None \<Rightarrow> Inl ValueError | Some cs \<Rightarrow> Inr (iso_salt_actions cs expected_ratio f p s))"

definition iso_num_tracked_keys :: "string option \<Rightarrow> iso_policy \<Rightarrow> nat" where
  "iso_num_tracked_keys salt p =
     (case salt of
        Some cs \<Rightarrow> (case map_of (iso_orders p) cs of None \<Rightarrow> 0 | Some order \<Rightarrow> length order)
      | None \<Rightarrow> sum_list (map length (dict_values (iso_orders p))))"

definition iso_tracked_salts :: "iso_policy \<Rightarrow> string list" where
  "iso_tracked_salts p = dict_keys (iso_orders p)"

section \<open>Checkpoint\<close>

definition iso_capture :: "iso_policy \<Rightarrow> (string, encoded_key list) dict" where
  "iso_capture p = map (\<lambda>(salt, order). (salt, map encode_key order)) (iso_orders p)"

text \<open>\<open>OrderedDict\<close> built from a sequence of keys: a repeated key keeps its first position.\<close>

definition od_of_list :: "'k list \<Rightarrow> 'k list" where
  "od_of_list keys = fold od_set keys []"

definition iso_restore :: "(string, encoded_key list) dict \<Rightarrow> iso_policy \<Rightarrow> iso_policy result" where
  "iso_restore buckets p =
     (case traverse (\<lambda>(salt, ordered).
             (case traverse decode_key ordered of Inl e \<Rightarrow> Inl e | Inr keys \<Rightarrow> Inr (salt, od_of_list keys))) buckets of
        Inl e \<Rightarrow> Inl e
      | Inr orders \<Rightarrow> Inr (p\<lparr>iso_orders := orders\<rparr>))"

section \<open>Buckets\<close>

definition bucket :: "iso_policy \<Rightarrow> string \<Rightarrow> object_key list" where
  "bucket p salt = (case map_of (iso_orders p) salt of None \<Rightarrow> [] | Some order \<Rightarrow> order)"

text \<open>A table with distinct orders of keys of their own salt, none of them empty.\<close>

definition iso_inv :: "iso_policy \<Rightarrow> bool" where
  "iso_inv p \<longleftrightarrow> dict_ok (iso_orders p) \<and>
     (\<forall>salt order. map_of (iso_orders p) salt = Some order \<longrightarrow>
        distinct order \<and> order \<noteq> [] \<and> (\<forall>k \<in> set order. cache_salt k = salt))"

definition iso_tracked :: "iso_policy \<Rightarrow> object_key set" where
  "iso_tracked p = {k. k \<in> set (bucket p (cache_salt k))}"

lemma bucket_create:
  "bucket (iso_create_key k p) salt =
     (if salt = cache_salt k
      then (if k \<in> set (bucket p salt) then od_move_to_end k (bucket p salt) else od_set k (bucket p salt))
      else bucket p salt)"
  by (cases "map_of (iso_orders p) (cache_salt k)") (simp_all add: bucket_def iso_create_key_def)

lemma bucket_touch:
  "bucket (iso_touch_key k p) salt =
     (if salt = cache_salt k \<and> k \<in> set (bucket p salt) then od_move_to_end k (bucket p salt) else bucket p salt)"
  by (auto simp: bucket_def iso_touch_key_def split: option.splits)

lemma bucket_remove:
  "bucket (iso_remove_key k p) salt = (if salt = cache_salt k then od_del k (bucket p salt) else bucket p salt)"
  by (auto simp: bucket_def iso_remove_key_def Let_def od_del_def split: option.splits)

lemma iso_inv_update:
  "iso_inv p \<Longrightarrow> distinct order \<Longrightarrow> order \<noteq> [] \<Longrightarrow> \<forall>k \<in> set order. cache_salt k = salt \<Longrightarrow>
     iso_inv (p\<lparr>iso_orders := AList.update salt order (iso_orders p)\<rparr>)"
  by (simp add: iso_inv_def)

lemma bucket_inv: "iso_inv p \<Longrightarrow> distinct (bucket p salt) \<and> (\<forall>k \<in> set (bucket p salt). cache_salt k = salt)"
  by (auto simp: iso_inv_def bucket_def split: option.splits)

lemma od_use_ok:
  "distinct b \<Longrightarrow> \<forall>x \<in> set b. P x \<Longrightarrow> P k \<Longrightarrow>
     distinct (if k \<in> set b then od_move_to_end k b else od_set k b) \<and>
     (if k \<in> set b then od_move_to_end k b else od_set k b) \<noteq> [] \<and>
     (\<forall>x \<in> set (if k \<in> set b then od_move_to_end k b else od_set k b). P x)"
  by (auto simp: od_move_to_end_def od_set_def)

lemma iso_create_inv:
  assumes "iso_inv p"
  shows "iso_inv (iso_create_key k p)"
proof -
  let ?b = "bucket p (cache_salt k)"
  let ?o = "if k \<in> set ?b then od_move_to_end k ?b else od_set k ?b"
  have "iso_create_key k p = p\<lparr>iso_orders := AList.update (cache_salt k) ?o (iso_orders p)\<rparr>"
    by (simp only: iso_create_key_def Let_def bucket_def)
  moreover note bucket_inv[OF assms, of "cache_salt k"]
  then have "distinct ?o \<and> ?o \<noteq> [] \<and> (\<forall>x \<in> set ?o. cache_salt x = cache_salt k)"
    by (elim conjE) (rule od_use_ok[where P = "\<lambda>x. cache_salt x = cache_salt k"], assumption+, rule refl)
  then have "iso_inv (p\<lparr>iso_orders := AList.update (cache_salt k) ?o (iso_orders p)\<rparr>)"
    by (elim conjE) (rule iso_inv_update[OF assms])
  ultimately show ?thesis by (simp only:)
qed

lemma iso_touch_inv: "iso_inv p \<Longrightarrow> iso_inv (iso_touch_key k p)"
proof -
  assume i: "iso_inv p"
  show ?thesis
  proof (cases "map_of (iso_orders p) (cache_salt k)")
    case (Some order)
    with bucket_inv[OF i, of "cache_salt k"] have "distinct order" "\<forall>x \<in> set order. cache_salt x = cache_salt k"
      by (simp_all add: bucket_def)
    then have "iso_inv (p\<lparr>iso_orders := AList.update (cache_salt k) (od_move_to_end k order) (iso_orders p)\<rparr>)"
      by (intro iso_inv_update i) (auto simp: od_move_to_end_def)
    with Some i show ?thesis by (simp add: iso_touch_key_def)
  qed (simp add: iso_touch_key_def i)
qed

lemma iso_remove_inv: "iso_inv p \<Longrightarrow> iso_inv (iso_remove_key k p)"
proof -
  assume i: "iso_inv p"
  show ?thesis
  proof (cases "map_of (iso_orders p) (cache_salt k)")
    case (Some order)
    with bucket_inv[OF i, of "cache_salt k"] have "distinct order" "\<forall>x \<in> set order. cache_salt x = cache_salt k"
      by (simp_all add: bucket_def)
    then have "od_del k order \<noteq> [] \<Longrightarrow> iso_inv (p\<lparr>iso_orders := AList.update (cache_salt k) (od_del k order) (iso_orders p)\<rparr>)"
      by (intro iso_inv_update i) auto
    moreover have "iso_inv (p\<lparr>iso_orders := AList.delete (cache_salt k) (iso_orders p)\<rparr>)"
      using i by (auto simp: iso_inv_def)
    ultimately show ?thesis using Some by (simp add: iso_remove_key_def Let_def)
  qed (simp add: iso_remove_key_def i)
qed


lemma iso_fold_inv:
  "iso_inv p \<Longrightarrow> iso_inv (fold iso_create_key keys p)" "iso_inv p \<Longrightarrow> iso_inv (fold iso_touch_key keys p)"
  "iso_inv p \<Longrightarrow> iso_inv (fold iso_remove_key keys p)"
  by (induction keys arbitrary: p) (simp_all add: iso_create_inv iso_touch_inv iso_remove_inv)

text \<open>Each bucket sees the keys of its own salt only, and treats them as the LRU policy does.\<close>

lemma bucket_folds:
  "bucket (fold iso_create_key keys p) salt =
     fold (\<lambda>key order. if key \<in> set order then od_move_to_end key order else od_set key order)
       (filter (\<lambda>k. cache_salt k = salt) keys) (bucket p salt)"
  "bucket (fold iso_touch_key keys p) salt =
     fold (\<lambda>key order. if key \<in> set order then od_move_to_end key order else order)
       (filter (\<lambda>k. cache_salt k = salt) keys) (bucket p salt)"
  "bucket (fold iso_remove_key keys p) salt =
     fold (\<lambda>key order. if key \<in> set order then od_del key order else order)
       (filter (\<lambda>k. cache_salt k = salt) keys) (bucket p salt)"
  by (induction keys arbitrary: p) (simp_all add: bucket_create bucket_touch bucket_remove od_del_absent)

definition iso_notify :: "object_key notification \<Rightarrow> iso_policy \<Rightarrow> iso_policy" where
  "iso_notify = tell iso_created iso_created iso_touched iso_removed"

fun for_salt :: "string \<Rightarrow> object_key notification \<Rightarrow> object_key notification" where
  "for_salt salt (Reserved keys) = Reserved (filter (\<lambda>k. cache_salt k = salt) keys)"
| "for_salt salt (Created keys) = Created (filter (\<lambda>k. cache_salt k = salt) keys)"
| "for_salt salt (Touched keys) = Touched (filter (\<lambda>k. cache_salt k = salt) keys)"
| "for_salt salt (Removed keys) = Removed (filter (\<lambda>k. cache_salt k = salt) keys)"

lemma bucket_notify:
  "bucket p salt = lru_order q \<Longrightarrow> bucket (iso_notify n p) salt = lru_order (lru_notify (for_salt salt n) q)"
  by (cases n) (simp_all add: iso_notify_def lru_notify_def iso_created_def iso_touched_def iso_removed_def
      lru_created_def lru_touched_def lru_removed_def bucket_folds rev_filter)

lemma bucket_notify_all:
  "bucket p salt = lru_order q \<Longrightarrow>
     bucket (fold iso_notify ns p) salt = lru_order (fold lru_notify (map (for_salt salt) ns) q)"
  by (induction ns arbitrary: p q) (simp_all add: bucket_notify)

lemma iso_salt_actions_lru:
  assumes "bucket p salt = lru_order q" "iso_destinations p = lru_destinations q"
    "iso_default_destination p = lru_default_destination q"
  shows "iso_salt_actions salt r f p s = (case lru_actions r f q s of ((acts, _), s') \<Rightarrow> ((acts, p), s'))"
  unfolding iso_salt_actions_def lru_actions_def bucket_def[symmetric] assms Let_def
  by (auto split: prod.splits)

section \<open>The interface\<close>

definition bucket_lru :: "iso_policy \<Rightarrow> string \<Rightarrow> object_key lru_policy" where
  "bucket_lru p salt = \<lparr>lru_order = bucket p salt, lru_destinations = iso_destinations p,
     lru_default_destination = iso_default_destination p\<rparr>"

lemma iso_salt_actions_eq:
  "iso_salt_actions salt r f p s = (case lru_actions r f (bucket_lru p salt) s of ((acts, _), s') \<Rightarrow> ((acts, p), s'))"
  by (rule iso_salt_actions_lru) (simp_all add: bucket_lru_def)

lemma iso_salt_actionsD:
  assumes "iso_salt_actions salt r f p s = ((acts, p'), s')"
  obtains q' where "lru_actions r f (bucket_lru p salt) s = ((acts, q'), s')" "p' = p"
  using assms unfolding iso_salt_actions_eq by (auto split: prod.splits)

lemma finite_iso_tracked: "finite (iso_tracked p)"
proof (rule finite_subset)
  show "iso_tracked p \<subseteq> (\<Union>order \<in> set (dict_values (iso_orders p)). set order)"
  proof
    fix k assume "k \<in> iso_tracked p"
    then obtain order where "map_of (iso_orders p) (cache_salt k) = Some order" "k \<in> set order"
      by (cases "map_of (iso_orders p) (cache_salt k)") (simp_all add: iso_tracked_def bucket_def)
    then show "k \<in> (\<Union>order \<in> set (dict_values (iso_orders p)). set order)" by (force dest: map_of_SomeD)
  qed
qed simp

interpretation iso: eviction_policy iso_inv iso_tracked "\<lambda>p. set (bucket p salt)" iso_created iso_created iso_touched
  iso_removed "iso_salt_actions salt" for salt
proof (unfold_locales, goal_cases)
  case (1 p keys)
  then show ?case using iso_fold_inv(1)[of p "rev keys"]
    by (auto simp: iso_created_def iso_tracked_def bucket_folds set_fold_od_created)
next
  case (2 p keys)
  have "set (fold (\<lambda>key order. if key \<in> set order then od_move_to_end key order else order) ks (bucket p s)) =
      set (bucket p s)" for ks s
    using fold_od_touched[of "bucket p s" ks] bucket_inv[OF 2, of s] by blast
  with 2 show ?case using iso_fold_inv(2)[of p "rev keys"] by (simp add: iso_touched_def iso_tracked_def bucket_folds)
next
  case (3 p keys)
  then show ?case using iso_fold_inv(3)[of p keys] bucket_inv[OF 3, of salt]
    by (auto simp: iso_removed_def iso_tracked_def bucket_folds fold_od_removed)
next
  case (4 p)
  show ?case by (rule finite_iso_tracked)
next
  case (5 p)
  then show ?case using bucket_inv[OF 5, of salt] by (auto simp: iso_tracked_def)
next
  case (6 p r f s acts p' s')
  from 6(2) have "p' = p" by (rule iso_salt_actionsD)
  with 6(1) show ?case by simp
next
  case (7 p r f s acts p' s')
  from 7(2) obtain q' where "lru_actions r f (bucket_lru p salt) s = ((acts, q'), s')" by (rule iso_salt_actionsD)
  from lru_actions_keys[OF _ this] bucket_inv[OF 7(1), of salt] show ?case by (simp add: bucket_lru_def)
next
  case (8 Q f s r p)
  from lru_actions_state[of Q f s r "bucket_lru p salt", OF 8] show ?case
    unfolding iso_salt_actions_eq by (simp add: case_prod_beta)
next
  case (10 R f P s r p)
  from lru_actions_decides[OF this, of r "bucket_lru p salt" s] show ?case
    unfolding iso_salt_actions_eq by (auto simp: case_prod_beta prod_eq_iff)
next
  case (9 p r P s acts p' s')
  from 9(2) obtain q' where a: "lru_actions r (fixed_filter P) (bucket_lru p salt) s = ((acts, q'), s')" by (rule iso_salt_actionsD)
  have "distinct (lru_order (bucket_lru p salt))" using bucket_inv[OF 9(1), of salt] by (simp add: bucket_lru_def)
  from lru.actions_eligible[OF this a] show ?case by (simp add: bucket_lru_def)
qed

section \<open>Properties\<close>

text \<open>
  C20: Salts do not share an LRU list. After any notifications, the order of every salt is the order
  an LRU policy would have that is told only about the keys of that salt, and eviction for a salt
  returns what that policy returns: what other salts do has no influence. Without a salt the policy
  refuses.
\<close>

theorem iso_refines_lru_per_salt:
  "let p = fold iso_notify ns (iso_init d); q = fold lru_notify (map (for_salt salt) ns) (lru_init d) in
    bucket p salt = lru_order q \<and>
    iso_actions r f (Some salt) p s = Inr (case lru_actions r f q s of ((acts, _), s') \<Rightarrow> ((acts, p), s')) \<and>
    iso_actions r f None p s = Inl ValueError"
proof -
  let ?p = "fold iso_notify ns (iso_init d)" and ?q = "fold lru_notify (map (for_salt salt) ns) (lru_init d)"
  have b: "bucket ?p salt = lru_order ?q"
    by (rule bucket_notify_all) (simp add: bucket_def iso_init_def lru_init_def)
  have keep: "iso_destinations (fold iso_notify ns p) = iso_destinations p \<and>
      iso_default_destination (fold iso_notify ns p) = iso_default_destination p" for p
  proof (induction ns arbitrary: p)
    case (Cons n ns)
    have step: "iso_destinations (g k p) = iso_destinations p \<and> iso_default_destination (g k p) = iso_default_destination p"
      if "g \<in> {iso_create_key, iso_touch_key, iso_remove_key}" for g k p
      using that by (auto simp: iso_create_key_def iso_touch_key_def iso_remove_key_def Let_def split: option.splits)
    have "iso_destinations (fold g ks p) = iso_destinations p \<and> iso_default_destination (fold g ks p) = iso_default_destination p"
      if "g \<in> {iso_create_key, iso_touch_key, iso_remove_key}" for g ks p
      by (induction ks arbitrary: p) (simp_all add: step[OF that])
    with Cons show ?case by (cases n) (simp_all add: iso_notify_def iso_created_def iso_touched_def iso_removed_def)
  qed simp
  have keep_lru: "lru_destinations (fold lru_notify ms q) = lru_destinations q \<and>
      lru_default_destination (fold lru_notify ms q) = lru_default_destination q" for ms and q :: "object_key lru_policy"
  proof (induction ms arbitrary: q)
    case (Cons m ms)
    then show ?case by (cases m) (simp_all add: lru_notify_def lru_created_def lru_touched_def lru_removed_def)
  qed simp
  from iso_salt_actions_lru[OF b, of r f s] b keep[of "iso_init d"] keep_lru[of "map (for_salt salt) ns" "lru_init d"]
  show ?thesis by (simp add: Let_def iso_actions_def iso_init_def lru_init_def)
qed


lemma fold_od_set_distinct: "distinct (ys @ xs) \<Longrightarrow> fold od_set xs ys = ys @ xs"
  by (induction xs arbitrary: ys) (auto simp: od_set_def)

lemma set_fold_od_set: "set (fold od_set xs ys) = set ys \<union> set xs"
  by (induction xs arbitrary: ys) auto

lemma iso_restore_eq:
  assumes "iso_inv p" "\<forall>k \<in> iso_tracked p. key_ok k"
  shows "iso_restore (iso_capture p) q =
    Inr (q\<lparr>iso_orders := map (\<lambda>(salt, order). (salt, od_of_list (map (\<lambda>k. k\<lparr>key_tags := []\<rparr>) order))) (iso_orders p)\<rparr>)"
proof -
  let ?untag = "\<lambda>k :: object_key. k\<lparr>key_tags := []\<rparr>"
  have keys: "traverse decode_key (map encode_key order) = Inr (map ?untag order)" if "(salt, order) \<in> set (iso_orders p)" for salt order
  proof -
    have "map_of (iso_orders p) salt = Some order" using that assms(1) by (simp add: iso_inv_def)
    with assms bucket_inv[OF assms(1), of salt] have "\<forall>k \<in> set order. key_ok k" by (auto simp: iso_tracked_def bucket_def)
    then have "traverse (\<lambda>k. decode_key (encode_key k)) order = Inr (map ?untag order)"
      by (intro traverse_Inr) (simp add: decode_encode_key)
    moreover have "traverse f (map g xs) = traverse (\<lambda>x. f (g x)) xs" for f :: "encoded_key \<Rightarrow> object_key result" and g and xs :: "object_key list"
      by (induction xs) (simp_all split: sum.split)
    ultimately show ?thesis by simp
  qed
  let ?step = "\<lambda>(salt, ordered). case traverse decode_key ordered of Inl e \<Rightarrow> Inl e | Inr keys \<Rightarrow> Inr (salt, od_of_list keys)"
  have "traverse ?step (map (\<lambda>(salt, order). (salt, map encode_key order)) orders) =
      Inr (map (\<lambda>(salt, order). (salt, od_of_list (map ?untag order))) orders)" if "set orders \<subseteq> set (iso_orders p)" for orders
    using that by (induction orders) (auto simp: keys)
  then show ?thesis by (simp add: iso_restore_def iso_capture_def)
qed

text \<open>
  C35: A checkpoint keeps the eviction order of untagged keys only. Restoring what was captured never
  raises, and it gives the orders back exactly when no tracked key carries tags: the encoding of a
  key drops them.
\<close>

theorem iso_capture_restore:
  assumes "iso_inv p" "\<forall>k \<in> iso_tracked p. key_ok k"
  shows "\<exists>p'. iso_restore (iso_capture p) q = Inr p' \<and>
    (iso_orders p' = iso_orders p \<longleftrightarrow> (\<forall>k \<in> iso_tracked p. key_tags k = []))"
proof -
  let ?untag = "\<lambda>k :: object_key. k\<lparr>key_tags := []\<rparr>"
  let ?f = "\<lambda>(salt, order). (salt, od_of_list (map ?untag order))"
  have entry: "k \<in> iso_tracked p \<longleftrightarrow> (\<exists>order. (cache_salt k, order) \<in> set (iso_orders p) \<and> k \<in> set order)" for k
    using assms(1) by (cases "map_of (iso_orders p) (cache_salt k)")
      (auto simp: iso_tracked_def bucket_def iso_inv_def dest: map_of_SomeD)
  have "(\<forall>k \<in> iso_tracked p. key_tags k = [])" if e: "map ?f (iso_orders p) = iso_orders p"
  proof
    fix k assume "k \<in> iso_tracked p"
    then obtain order where o: "(cache_salt k, order) \<in> set (iso_orders p)" "k \<in> set order" using entry by blast
    from map_eq_conv[of ?f "iso_orders p" id] e o(1) have "od_of_list (map ?untag order) = order" by fastforce
    with o(2) have "k \<in> ?untag ` set order" using set_fold_od_set[of "map ?untag order" "[]"] by (simp add: od_of_list_def)
    then show "key_tags k = []" by auto
  qed
  moreover have "map ?f (iso_orders p) = iso_orders p" if t: "\<forall>k \<in> iso_tracked p. key_tags k = []"
  proof (rule map_idI)
    fix x assume x: "x \<in> set (iso_orders p)"
    obtain salt order where o: "x = (salt, order)" by (cases x)
    with x have "map_of (iso_orders p) salt = Some order" using assms(1) by (simp add: iso_inv_def)
    then have b: "bucket p salt = order" by (simp add: bucket_def)
    have "\<forall>k \<in> set order. ?untag k = k"
    proof
      fix k assume k: "k \<in> set order"
      with b bucket_inv[OF assms(1), of salt] have "k \<in> iso_tracked p" by (auto simp: iso_tracked_def)
      with t have "key_tags k = []" by blast
      then show "?untag k = k" by (cases k) simp
    qed
    then have "map ?untag order = order" by (simp add: map_idI)
    moreover have "distinct order" using b bucket_inv[OF assms(1), of salt] by simp
    ultimately show "?f x = x" using fold_od_set_distinct[of "[]" order] o by (simp add: od_of_list_def)
  qed
  ultimately show ?thesis unfolding iso_restore_eq[OF assms] by auto
qed


definition iso_sample :: iso_policy where
  "iso_sample = fold iso_notify [Created [sample_key, sample_key\<lparr>kv_rank := 7\<rparr>]] (iso_init DISCARD)"

lemma iso_init_inv: "iso_inv (iso_init d)" "iso_tracked (iso_init d) = {}"
  by (simp_all add: iso_init_def iso_inv_def iso_tracked_def bucket_def)

theorem iso_capture_restore_witness:
  "\<exists>p'. iso_restore (iso_capture iso_sample) (iso_init DISCARD) = Inr p' \<and> iso_orders p' \<noteq> iso_orders iso_sample"
proof -
  note run = iso.notify_all[OF iso_init_inv(1)[of DISCARD], of "[Created [sample_key, sample_key\<lparr>kv_rank := 7\<rparr>]]",
      folded iso_notify_def, folded iso_sample_def, unfolded iso_init_inv(2)]
  have "key_ok sample_key" "key_ok (sample_key\<lparr>kv_rank := 7\<rparr>)" "key_tags sample_key \<noteq> []" by code_simp+
  with iso_capture_restore[of iso_sample "iso_init DISCARD"] run show ?thesis by auto
qed

end
