(* ===== verification/Eviction_Policies.thy ===== *)
theory Eviction_Policies
  imports ARC_Policy Isolated_LRU L1_Manager
begin

text \<open>
  The choice of an eviction policy (\<open>eviction_policy/factory.py\<close>, with the no-op policy of
  \<open>eviction_policy/noop.py\<close>), the dispatch of the interface's methods to it, and the two bridges of
  \<open>lmcache/v1/distributed/eviction.py\<close> that turn L1 manager and L2 adapter callbacks into
  notifications.
\<close>

section \<open>Policies\<close>

datatype policy =
    LRU_policy "object_key lru_policy"
  | ARC_policy "object_key arc_policy"
  | Isolated_policy iso_policy
  | NoOp_policy

definition CreateEvictionPolicy :: "string \<Rightarrow> policy result" where
  "CreateEvictionPolicy name =
     (if name = ''LRU'' then Inr (LRU_policy (lru_init DISCARD))
      else if name = ''ARC'' then Inr (ARC_policy (arc_init DISCARD))
      else if name = ''IsolatedLRU'' then Inr (Isolated_policy (iso_init DISCARD))
      else if name = ''noop'' then Inr NoOp_policy
      else Inl ValueError)"

fun support_isolation :: "policy \<Rightarrow> bool" where
  "support_isolation (Isolated_policy _) = True"
| "support_isolation _ = False"

fun policy_register :: "eviction_destination \<Rightarrow> policy \<Rightarrow> policy" where
  "policy_register d (LRU_policy p) = LRU_policy (lru_register d p)"
| "policy_register d (ARC_policy p) = ARC_policy (arc_register d p)"
| "policy_register d (Isolated_policy p) = Isolated_policy (iso_register d p)"
| "policy_register d NoOp_policy = NoOp_policy"

fun policy_created :: "object_key list \<Rightarrow> policy \<Rightarrow> policy" where
  "policy_created keys (LRU_policy p) = LRU_policy (lru_created keys p)"
| "policy_created keys (ARC_policy p) = ARC_policy (arc_created keys p)"
| "policy_created keys (Isolated_policy p) = Isolated_policy (iso_created keys p)"
| "policy_created keys NoOp_policy = NoOp_policy"

text \<open>Only ARC tells a reservation from a creation.\<close>

fun policy_reserved :: "object_key list \<Rightarrow> policy \<Rightarrow> policy" where
  "policy_reserved keys (ARC_policy p) = ARC_policy (arc_reserved keys p)"
| "policy_reserved keys p = policy_created keys p"

fun policy_touched :: "object_key list \<Rightarrow> policy \<Rightarrow> policy" where
  "policy_touched keys (LRU_policy p) = LRU_policy (lru_touched keys p)"
| "policy_touched keys (ARC_policy p) = ARC_policy (arc_touched keys p)"
| "policy_touched keys (Isolated_policy p) = Isolated_policy (iso_touched keys p)"
| "policy_touched keys NoOp_policy = NoOp_policy"

fun policy_removed :: "object_key list \<Rightarrow> policy \<Rightarrow> policy" where
  "policy_removed keys (LRU_policy p) = LRU_policy (lru_removed keys p)"
| "policy_removed keys (ARC_policy p) = ARC_policy (arc_removed keys p)"
| "policy_removed keys (Isolated_policy p) = Isolated_policy (iso_removed keys p)"
| "policy_removed keys NoOp_policy = NoOp_policy"

fun get_eviction_actions ::
  "rat \<Rightarrow> (object_key, 's) key_filter \<Rightarrow> string option \<Rightarrow> policy \<Rightarrow> 's
     \<Rightarrow> ((object_key eviction_action list \<times> policy) \<times> 's) result" where
  "get_eviction_actions r f salt (LRU_policy p) s =
     Inr (case lru_actions r f p s of ((acts, q), s') \<Rightarrow> ((acts, LRU_policy q), s'))"
| "get_eviction_actions r f salt (ARC_policy p) s =
     Inr (case arc_actions r f p s of ((acts, q), s') \<Rightarrow> ((acts, ARC_policy q), s'))"
| "get_eviction_actions r f salt (Isolated_policy p) s =
     (case iso_actions r f salt p s of
        Inl e \<Rightarrow> Inl e
      | Inr ((acts, q), s') \<Rightarrow> Inr ((acts, Isolated_policy q), s'))"
| "get_eviction_actions r f salt NoOp_policy s = Inr (([], NoOp_policy), s)"

definition policy_notify :: "object_key notification \<Rightarrow> policy \<Rightarrow> policy" where
  "policy_notify = tell policy_reserved policy_created policy_touched policy_removed"

section \<open>Bridges\<close>

fun l1_notification :: "'k l1_output \<Rightarrow> 'k notification option" where
  "l1_notification (On_reserved_write keys) = Some (Reserved keys)"
| "l1_notification (On_write_finished keys) = Some (Created keys)"
| "l1_notification (On_deleted_by_manager keys) = Some (Removed keys)"
| "l1_notification (On_finish_write_and_reserve_read keys) = Some (Created keys)"
| "l1_notification (On_accessed keys) = Some (Touched keys)"
| "l1_notification _ = None"

definition l1_notifications :: "'k l1_output list \<Rightarrow> 'k notification list" where
  "l1_notifications outs = List.map_filter l1_notification outs"

datatype l2_output =
    On_l2_keys_stored "object_key list" "int list"
  | On_l2_keys_accessed "object_key list"
  | On_l2_keys_deleted "object_key list"

fun l2_notification :: "l2_output \<Rightarrow> object_key notification" where
  "l2_notification (On_l2_keys_stored keys sizes) = Created keys"
| "l2_notification (On_l2_keys_accessed keys) = Touched keys"
| "l2_notification (On_l2_keys_deleted keys) = Removed keys"

section \<open>What every policy keeps\<close>

fun policy_inv :: "policy \<Rightarrow> bool" where
  "policy_inv (LRU_policy p) = distinct (lru_order p)"
| "policy_inv (ARC_policy p) = arc_inv p"
| "policy_inv (Isolated_policy p) = iso_inv p"
| "policy_inv NoOp_policy = True"

fun policy_tracked :: "policy \<Rightarrow> object_key set" where
  "policy_tracked (LRU_policy p) = set (lru_order p)"
| "policy_tracked (ARC_policy p) = arc_resident p"
| "policy_tracked (Isolated_policy p) = iso_tracked p"
| "policy_tracked NoOp_policy = {}"

text \<open>The keys a request with this salt chooses from.\<close>

definition policy_pool :: "string option \<Rightarrow> policy \<Rightarrow> object_key set" where
  "policy_pool salt p = {k \<in> policy_tracked p. support_isolation p \<longrightarrow> salt = Some (cache_salt k)}"

lemma policy_pool_simps [simp]:
  "policy_pool salt (LRU_policy l) = set (lru_order l)" "policy_pool salt (ARC_policy a) = arc_resident a"
  "iso_inv i \<Longrightarrow> policy_pool (Some cs) (Isolated_policy i) = set (bucket i cs)" "policy_pool salt NoOp_policy = {}"
  using bucket_inv[of i cs] by (auto simp: policy_pool_def iso_tracked_def)

lemma policy_notify_law:
  assumes "policy_inv p"
  shows "policy_inv (policy_notify n p) \<and> (policy_notify n p = NoOp_policy \<longleftrightarrow> p = NoOp_policy) \<and>
    support_isolation (policy_notify n p) = support_isolation p \<and>
    policy_tracked (policy_notify n p) = (if p = NoOp_policy then {} else known n (policy_tracked p))"
proof (cases p)
  case (LRU_policy l)
  with assms lru.notify_law[of l n] show ?thesis by (cases n) (simp_all add: policy_notify_def)
next
  case (ARC_policy a)
  with assms arc.notify_law[of a n] show ?thesis by (cases n) (simp_all add: policy_notify_def)
next
  case (Isolated_policy i)
  with assms iso.notify_law[of i n] show ?thesis by (cases n) (simp_all add: policy_notify_def)
next
  case NoOp_policy
  then show ?thesis by (cases n) (simp_all add: policy_notify_def)
qed

lemma policy_notify_all:
  "policy_inv p \<Longrightarrow> policy_inv (fold policy_notify ns p) \<and> (fold policy_notify ns p = NoOp_policy \<longleftrightarrow> p = NoOp_policy) \<and>
    support_isolation (fold policy_notify ns p) = support_isolation p \<and>
    policy_tracked (fold policy_notify ns p) = (if p = NoOp_policy then {} else fold known ns (policy_tracked p))"
proof (induction ns arbitrary: p)
  case (Cons n ns)
  from Cons.IH[of "policy_notify n p"] policy_notify_law[OF Cons.prems, of n] show ?case by auto
qed (cases p; simp)

lemma created_policy_inv: "CreateEvictionPolicy name = Inr p \<Longrightarrow> policy_inv p \<and> policy_tracked p = {}"
  using arc_init_inv iso_init_inv
  by (auto simp: CreateEvictionPolicy_def lru_init_def arc_init_def arc_resident_def split: if_splits)

text \<open>A request with a salt, or of a policy that needs none, succeeds; what it returns is in the pool.\<close>

lemma get_eviction_actions_law:
  assumes "policy_inv p" "support_isolation p \<longrightarrow> salt \<noteq> None"
  obtains acts q s' where "get_eviction_actions r f salt p s = Inr ((acts, q), s')"
    "policy_inv q" "policy_tracked q = policy_tracked p" "support_isolation q = support_isolation p"
    "q = NoOp_policy \<longleftrightarrow> p = NoOp_policy"
    "distinct (action_keys acts)" "set (action_keys acts) \<subseteq> policy_pool salt p"
proof (cases p)
  case (LRU_policy l)
  obtain acts q s' where a: "lru_actions r f l s = ((acts, q), s')" by (metis surj_pair)
  with LRU_policy assms lru.actions_frame[OF _ a] lru.actions_keys[OF _ a] that[of acts "LRU_policy q" s'] show ?thesis by simp
next
  case (ARC_policy x)
  obtain acts q s' where a: "arc_actions r f x s = ((acts, q), s')" by (metis surj_pair)
  with ARC_policy assms arc.actions_frame[OF _ a] arc.actions_keys[OF _ a] that[of acts "ARC_policy q" s'] show ?thesis by simp
next
  case (Isolated_policy i)
  with assms obtain cs where cs: "salt = Some cs" by auto
  obtain acts q s' where a: "iso_salt_actions cs r f i s = ((acts, q), s')" by (metis surj_pair)
  with Isolated_policy assms cs iso.actions_frame[OF _ a] iso.actions_keys[OF _ a] that[of acts "Isolated_policy q" s'] show ?thesis
    by (simp add: iso_actions_def)
next
  case NoOp_policy
  with that[of "[]" NoOp_policy s] show ?thesis by simp
qed

lemma get_eviction_actions_state:
  assumes "\<And>k s. Q s \<Longrightarrow> Q (snd (passes f k s))" "Q s" "get_eviction_actions r f salt p s = Inr ((acts, q), s')"
  shows "Q s'"
proof (cases p)
  case (LRU_policy l)
  with assms(3) lru_actions_state[of Q f s r l, OF assms(1,2)] show ?thesis by (auto split: prod.splits)
next
  case (ARC_policy x)
  with assms(3) arc_actions_state[of Q f s r x, OF assms(1,2)] show ?thesis by (auto split: prod.splits)
next
  case (Isolated_policy i)
  with assms(3) obtain cs where "iso_salt_actions cs r f i s = ((acts, case q of Isolated_policy j \<Rightarrow> j), s')"
    by (auto simp: iso_actions_def split: option.splits prod.splits sum.splits)
  with iso.actions_state[of Q f s cs r i, OF assms(1,2)] show ?thesis by simp
next
  case NoOp_policy
  with assms show ?thesis by simp
qed

section \<open>Draining\<close>

text \<open>Rounds of eviction whose removals are all confirmed; the filter looks at keys only.\<close>

fun policy_rounds ::
  "nat \<Rightarrow> rat \<Rightarrow> (object_key \<Rightarrow> bool) \<Rightarrow> string option \<Rightarrow> policy \<Rightarrow> policy result" where
  "policy_rounds 0 r P salt p = Inr p"
| "policy_rounds (Suc n) r P salt p =
     (case get_eviction_actions r (fixed_filter P) salt p () of
        Inl e \<Rightarrow> Inl e
      | Inr ((acts, q), _) \<Rightarrow> policy_rounds n r P salt (policy_removed (action_keys acts) q))"

lemma policy_rounds_eq:
  "policy_rounds n r P salt (LRU_policy l) = Inr (LRU_policy ((evict_round lru_removed lru_actions r P () ^^ n) l))"
  "policy_rounds n r P salt (ARC_policy a) = Inr (ARC_policy ((evict_round arc_removed arc_actions r P () ^^ n) a))"
  "policy_rounds n r P (Some cs) (Isolated_policy i) =
     Inr (Isolated_policy ((evict_round iso_removed (iso_salt_actions cs) r P () ^^ n) i))"
  by (induction n arbitrary: l a i)
    (simp_all add: evict_round_def iso_actions_def funpow_Suc_right case_prod_beta del: funpow.simps)

text \<open>
  C7: Eviction reaches everything that may go. Whatever a tracking policy has been told, asking it
  again and again with a positive ratio, and confirming what it returns, removes after at most as
  many rounds as there are keys every tracked key that the filter allows (of the given salt, for the
  per-salt policy), and never touches another key.
\<close>

theorem eviction_drains:
  assumes "CreateEvictionPolicy name = Inr p0" "p0 \<noteq> NoOp_policy" "0 < r" "support_isolation p0 \<longrightarrow> salt \<noteq> None"
  shows "\<exists>n q. n \<le> card (fold known ns {}) \<and> policy_rounds n r P salt (fold policy_notify ns p0) = Inr q \<and>
    policy_tracked q = {k \<in> fold known ns {}. \<not> (P k \<and> (support_isolation p0 \<longrightarrow> salt = Some (cache_salt k)))}"
proof -
  let ?p = "fold policy_notify ns p0" and ?K = "fold known ns {} :: object_key set"
  note law = policy_notify_all[of p0 ns] created_policy_inv[OF assms(1)]
  have inv: "policy_inv ?p" and t: "policy_tracked ?p = ?K" and noop: "?p \<noteq> NoOp_policy"
    and iso: "support_isolation ?p = support_isolation p0" using law assms(2) by simp_all
  have fin: "finite ?K"
    unfolding t[symmetric] using inv by (cases ?p) (simp_all add: arc.finite_tracked finite_iso_tracked)
  have pool: "policy_pool salt ?p = {k \<in> ?K. support_isolation p0 \<longrightarrow> salt = Some (cache_salt k)}"
    by (simp add: policy_pool_def t iso)
  have "\<exists>n q. n \<le> card {k \<in> policy_pool salt ?p. P k} \<and> policy_rounds n r P salt ?p = Inr q \<and>
      policy_tracked q = policy_tracked ?p - {k \<in> policy_pool salt ?p. P k}"
  proof (cases ?p)
    case (LRU_policy l)
    with inv lru.evict_rounds_drain[of l r P "()", OF _ assms(3)] show ?thesis
      by (auto simp: policy_rounds_eq Let_def)
  next
    case (ARC_policy a)
    with inv arc.evict_rounds_drain[of a r P "()", OF _ assms(3)] show ?thesis
      by (auto simp: policy_rounds_eq Let_def)
  next
    case (Isolated_policy i)
    with iso assms(4) obtain cs where "salt = Some cs" by auto
    with Isolated_policy inv iso.evict_rounds_drain[where p = i and r = r and P = P and salt = cs and s = "()", OF _ assms(3)] show ?thesis
      by (auto simp: policy_rounds_eq Let_def)
  qed (use noop in simp)
  then obtain n q where n: "n \<le> card {k \<in> policy_pool salt ?p. P k}" and q: "policy_rounds n r P salt ?p = Inr q"
      "policy_tracked q = ?K - {k \<in> policy_pool salt ?p. P k}" unfolding t by blast
  have "card {k \<in> policy_pool salt ?p. P k} \<le> card ?K" by (rule card_mono[OF fin]) (auto simp: pool)
  with n q show ?thesis by (intro exI[of _ n] exI[of _ q]) (auto simp: pool)
qed

theorem eviction_drains_witness:
  "\<exists>n q. n \<le> 2 \<and>
     policy_rounds n (1 / 10) (\<lambda>k. kv_rank k = 7) (Some (cache_salt sample_key))
       (fold policy_notify [Created [sample_key, sample_key\<lparr>kv_rank := 7\<rparr>]] (Isolated_policy (iso_init DISCARD))) = Inr q \<and>
     policy_tracked q = {sample_key}"
proof -
  have c: "CreateEvictionPolicy ''IsolatedLRU'' = Inr (Isolated_policy (iso_init DISCARD))" by code_simp
  let ?P = "\<lambda>k. kv_rank k = 7" and ?ns = "[Created [sample_key, sample_key\<lparr>kv_rank := 7\<rparr>]]"
  have K: "fold known ?ns {} = {sample_key, sample_key\<lparr>kv_rank := 7\<rparr>}" by simp
  have P: "kv_rank sample_key \<noteq> 7" by code_simp
  obtain n q where n: "n \<le> card {sample_key, sample_key\<lparr>kv_rank := 7\<rparr>}"
      "policy_rounds n (1 / 10) ?P (Some (cache_salt sample_key)) (fold policy_notify ?ns (Isolated_policy (iso_init DISCARD))) = Inr q"
      "policy_tracked q = {k \<in> {sample_key, sample_key\<lparr>kv_rank := 7\<rparr>}. \<not> (?P k \<and> Some (cache_salt sample_key) = Some (cache_salt k))}"
    using eviction_drains[OF c, of "1 / 10" "Some (cache_salt sample_key)" ?ns ?P, unfolded K] by auto
  have "card {sample_key, sample_key\<lparr>kv_rank := 7\<rparr>} \<le> 2" by (simp add: card_insert_if)
  with n(1) have "n \<le> 2" by (rule order_trans)
  moreover have "policy_tracked q = {sample_key}" unfolding n(3) using P by auto
  ultimately show ?thesis using n(2) by blast
qed

end
