(* ===== verification/L1_Tracking.thy ===== *)
theory L1_Tracking
  imports L1_Protection Eviction_Policies
begin

text \<open>
  What the L1 manager tells its eviction policy: every permanent resident object is a key the policy
  has been told to track and not told to forget, at any time between calls. The policy's knowledge is
  read off the trace of listener callbacks.
\<close>

section \<open>Steps that change neither the resident table nor the trace\<close>

definition still :: "('k, 'm) l1_manager \<Rightarrow> ('k, 'm) l1_manager \<Rightarrow> bool" where
  "still st st' \<longleftrightarrow> l1_objects st' = l1_objects st \<and> l1_trace st' = l1_trace st"

lemma still_refl [simp]: "still st st"
  by (simp add: still_def)

lemma still_trans: "still st st1 \<Longrightarrow> still st1 st2 \<Longrightarrow> still st st2"
  by (simp add: still_def)

lemma still_update [simp]: "still st0 (st\<lparr>l1_mem := m\<rparr>) = still st0 st" "still (st\<lparr>l1_mem := m\<rparr>) st' = still st st'"
  by (simp_all add: still_def)

lemma clock_still [simp]:
  "still st (snd (check_lock lk st))" "still st (snd (tick st))" "still st (set_staging key tag e st)"
  "still st (put_staging ops key tag e st)"
  by (simp_all add: still_def check_lock_def tick_def set_staging_def put_staging_def Let_def)

lemma check_lock_still: "check_lock lk st = (b, st') \<Longrightarrow> still st0 st \<Longrightarrow> still st0 st'"
  by (auto simp: check_lock_def tick_def still_def)

lemma lock_times_still: "lock_times n lk st = (lk', st') \<Longrightarrow> still st0 st \<Longrightarrow> still st0 st'"
  using lock_times_snd[of n lk st lk' st'] by (simp add: still_def)

lemma mem_free_still: "still st0 st \<Longrightarrow> yields (mem_free ops objs st) (still st0)"
  by (auto simp: mem_free_def yields_def split: sum.splits)

lemma pop_staging_still: "still st0 st \<Longrightarrow> yields (pop_staging key tag st) (\<lambda>(_, st'). still st0 st')"
  by (auto simp: pop_staging_def still_def Let_def split: option.splits)

lemma take_staging_still: "still st0 st \<Longrightarrow> yields (take_staging key tag st) (\<lambda>(_, st'). still st0 st')"
proof (cases "get_staging st key tag")
  case (Some staged)
  assume s: "still st0 st"
  let ?st1 = "snd (check_lock (os_write_lock staged) st)"
  let ?st2 = "set_staging key tag (staged\<lparr>os_write_lock := ttl_release (os_write_lock staged)\<rparr>) ?st1"
  have s1: "still st0 ?st1" by (rule still_trans[OF s]) simp
  then have "still st0 ?st2" by (rule still_trans) simp
  then have "yields (case pop_staging key tag ?st2 of Inl e \<Rightarrow> Inl e | Inr (entry, st3) \<Rightarrow> Inr ((SUCCESS, Some entry), st3))
      (\<lambda>(_, st'). still st0 st')"
    by (intro yields_bind[OF pop_staging_still]) auto
  with s1 show ?thesis by (simp add: take_staging_def Some case_prod_beta Let_def)
qed (simp add: take_staging_def)

lemma reclaim_loop_still: "still st0 st \<Longrightarrow> yields (reclaim_loop key force items freed st) (\<lambda>(_, st'). still st0 st')"
proof (induction items arbitrary: freed st)
  case (Cons item items)
  obtain tag e where item: "item = (tag, e)" by (cases item)
  obtain b st1 where cl: "check_lock (os_write_lock e) st = (b, st1)" by (cases "check_lock (os_write_lock e) st")
  note 1 = check_lock_still[OF cl Cons.prems]
  have "yields (case pop_staging key tag st1 of Inl e \<Rightarrow> Inl e
      | Inr (entry, st2) \<Rightarrow> reclaim_loop key force items (freed @ [os_memory_obj entry]) st2) (\<lambda>(_, st'). still st0 st')"
    by (rule yields_bind[OF pop_staging_still[OF 1]]) (auto intro: Cons.IH)
  with Cons.IH[OF 1] show ?case
    unfolding item reclaim_loop.simps cl Let_def prod.case by (intro yields_if)
qed simp

lemma reclaim_staging_still:
  "still st0 st \<Longrightarrow> yields (reclaim_staging ops key force st) (\<lambda>(_, st'). still st0 st')"
  unfolding reclaim_staging_def
  by (cases "map_of (l1_staging st) key")
    (auto intro!: yields_bind[OF reclaim_loop_still] yields_bind[OF mem_free_still])

text \<open>The keys reported as gone have no resident object.\<close>

lemma reclaim_keys_still:
  "still st0 st \<Longrightarrow> \<forall>k \<in> set gone. map_of (l1_objects st0) k = None \<Longrightarrow>
     yields (reclaim_keys ops force keys gone st)
       (\<lambda>(gone', st'). still st0 st' \<and> (\<forall>k \<in> set gone'. map_of (l1_objects st0) k = None))"
proof (induction keys arbitrary: gone st)
  case (Cons key keys)
  show ?case
    unfolding reclaim_keys.simps
  proof (rule yields_bind[OF reclaim_staging_still[OF Cons.prems(1)]])
    fix x :: "nat \<times> ('a, 'b) l1_manager" assume x: "case x of (_, st') \<Rightarrow> still st0 st'"
    obtain n st1 where n: "x = (n, st1)" by (cases x)
    let ?gone = "if n > 0 \<and> map_of (l1_staging st1) key = None \<and> map_of (l1_objects st1) key = None then gone @ [key] else gone"
    from x n have s: "still st0 st1" "l1_objects st1 = l1_objects st0" by (simp_all add: still_def)
    then have "\<forall>k \<in> set ?gone. map_of (l1_objects st0) k = None" using Cons.prems(2) by auto
    from Cons.IH[OF s(1) this] show "yields (case x of (reclaimed, st1) \<Rightarrow> reclaim_keys ops force keys
        (if reclaimed > 0 \<and> map_of (l1_staging st1) key = None \<and> map_of (l1_objects st1) key = None then gone @ [key] else gone) st1)
        (\<lambda>(gone', st'). still st0 st' \<and> (\<forall>k \<in> set gone'. map_of (l1_objects st0) k = None))"
      by (simp only: n prod.case)
  qed
qed simp

lemma unsafe_read_still: "still st0 st \<Longrightarrow> still st0 (snd (unsafe_read_loop keys ret st))"
proof (induction keys arbitrary: ret st)
  case (Cons key keys)
  show ?case
  proof (cases "map_of (l1_objects st) key")
    case None
    with Cons show ?thesis by simp
  next
    case (Some e)
    obtain b st1 where cl: "check_lock (os_read_lock e) st = (b, st1)" by (cases "check_lock (os_read_lock e) st")
    from check_lock_still[OF cl Cons.prems] Some cl Cons.IH show ?thesis by (cases b) simp_all
  qed
qed simp

lemma reserve_write_scan_still:
  "still st0 st \<Longrightarrow> still st0 (snd (snd (snd (reserve_write_scan tag items ret succ need st))))"
proof (induction items arbitrary: ret succ need st)
  case (Cons item items)
  obtain key is_temp where item: "item = (key, is_temp)" by (cases item)
  show ?case
  proof (cases "map_of (l1_objects st) key = None \<and> get_staging st key tag \<noteq> None")
    case False
    then show ?thesis using Cons by (cases "get_staging st key tag") (simp_all add: item)
  next
    case True
    then obtain staged where st: "map_of (l1_objects st) key = None" "get_staging st key tag = Some staged" by auto
    obtain b st1 where cl: "check_lock (os_write_lock staged) st = (b, st1)" by (cases "check_lock (os_write_lock staged) st")
    note 1 = check_lock_still[OF cl Cons.prems]
    have "still st0 (set_staging key tag e (snd (tick st1)))" for e
      by (rule still_trans[OF still_trans[OF 1 clock_still(2)] clock_still(3)])
    with Cons.IH st 1 cl show ?thesis by (cases b) (simp_all add: item case_prod_beta Let_def)
  qed
qed simp

lemma reserve_write_stage_still:
  "still st0 st \<Longrightarrow> yields (reserve_write_stage ops tag items ret succ st) (\<lambda>(_, _, st'). still st0 st')"
proof (induction items arbitrary: ret succ st)
  case (Cons item items)
  obtain key is_temp i where item: "item = ((key, is_temp), i)" by (metis surj_pair)
  have "still st0 (put_staging ops key tag e (snd (tick (st\<lparr>l1_mem := m\<rparr>))))" for e m
    by (rule still_trans[OF still_trans[OF _ clock_still(2)] clock_still(4)]) (use Cons.prems in simp)
  with Cons.IH show ?case by (auto simp: item case_prod_beta Let_def split: sum.splits)
qed simp

lemma any_unlocked_still: "still st0 st \<Longrightarrow> still st0 (snd (any_unlocked items st))"
proof (induction items arbitrary: st)
  case (Cons item items)
  obtain tag e where item: "item = (tag, e)" by (cases item)
  obtain b st1 where cl: "check_lock (os_write_lock e) st = (b, st1)" by (cases "check_lock (os_write_lock e) st")
  from Cons.IH check_lock_still[OF cl Cons.prems] cl show ?case by (cases b) (simp_all add: item)
qed simp

lemma is_key_evictable_still: "still st (snd (is_key_evictable key st))"
proof -
  have tail: "still st (snd (if f then (True, s) else (case map_of (l1_staging s) key of
      None \<Rightarrow> (False, s) | Some per_tag \<Rightarrow> any_unlocked per_tag s)))" if "still st s" for f s
    using that any_unlocked_still[OF that] by (simp split: option.split)
  show ?thesis
  proof (cases "map_of (l1_objects st) key")
    case None
    then show ?thesis using tail[of st False] by (simp add: is_key_evictable_def)
  next
    case (Some e)
    obtain b st1 where cl: "check_lock (os_read_lock e) st = (b, st1)" by (cases "check_lock (os_read_lock e) st")
    from tail[OF check_lock_still[OF cl still_refl], of "\<not> b"] Some cl show ?thesis
      by (simp add: is_key_evictable_def)
  qed
qed

lemma count_locked_still:
  "still st0 st \<Longrightarrow> still st0 (snd (count_read_locked es st))"
  "still st0 st \<Longrightarrow> still st0 (snd (count_write_locked es st))"
  by (induction es arbitrary: st) (simp_all add: case_prod_beta Let_def still_trans[OF _ clock_still(1)])

lemma report_status_still: "still st (snd (report_status ops st))"
  by (simp add: report_status_def case_prod_beta Let_def count_locked_still)

section \<open>Permanent residents are tracked\<close>

definition permanent :: "'k \<Rightarrow> ('k, 'm) l1_manager \<Rightarrow> bool" where
  "permanent k st \<longleftrightarrow> (case map_of (l1_objects st) k of None \<Rightarrow> False | Some e \<Rightarrow> \<not> os_is_temporary e)"

text \<open>The keys a policy tracks that knew \<open>K\<close> and has got every callback of the trace.\<close>

definition told :: "'k set \<Rightarrow> 'k l1_output list \<Rightarrow> 'k set" where
  "told K outs = fold known (l1_notifications outs) K"

definition covered :: "'k set \<Rightarrow> 'k \<Rightarrow> ('k, 'm) l1_manager \<Rightarrow> bool" where
  "covered K k st \<longleftrightarrow> (permanent k st \<longrightarrow> k \<in> told K (l1_trace st))"

lemma told_append: "told K (outs @ outs') = fold known (l1_notifications outs') (told K outs)"
  by (simp add: told_def l1_notifications_def map_filter_def)

lemma fold_known_Cons [simp]:
  "fold known (l1_notifications []) K = K"
  "fold known (l1_notifications (out # outs)) K =
     fold known (l1_notifications outs) (case l1_notification out of None \<Rightarrow> K | Some n \<Rightarrow> known n K)"
  by (simp_all add: l1_notifications_def List.map_filter_simps split: option.splits)

lemma told_report: "told K (l1_trace (report outs st)) = fold known (l1_notifications outs) (told K (l1_trace st))"
  by (simp add: report_def told_append)

lemma permanent_report [simp]: "permanent k (report outs st) = permanent k st" "permanent k (st\<lparr>l1_mem := m\<rparr>) = permanent k st"
  by (simp_all add: permanent_def report_def)

lemma permanent_still: "still st st' \<Longrightarrow> permanent k st' = permanent k st"
  by (simp add: still_def permanent_def)

lemma covered_still: "still st st' \<Longrightarrow> covered K k st \<Longrightarrow> covered K k st'"
  by (simp add: covered_def permanent_still) (simp add: still_def)

text \<open>Reports: what is told to be created or reserved is tracked, what is told to be removed must not be resident.\<close>

lemma covered_created:
  "(permanent k st \<longrightarrow> k \<in> told K (l1_trace st) \<or> k \<in> set keys) \<Longrightarrow>
     covered K k (report [On_write_finished keys, L1_WRITE_FINISHED keys sizes] st) \<and>
     covered K k (report [On_finish_write_and_reserve_read keys, L1_WRITE_FINISHED_AND_READ_RESERVED keys sizes] st)"
  by (auto simp: covered_def told_report)

lemma covered_removed:
  "covered K k st \<Longrightarrow> (k \<in> set keys \<longrightarrow> \<not> permanent k st) \<Longrightarrow>
     covered K k (report [On_deleted_by_manager keys] st) \<and> covered K k (report [On_deleted_by_manager keys, L1_KEYS_EVICTED keys sizes] st)"
  by (auto simp: covered_def told_report)

lemma covered_staging_gone:
  "covered K k st \<Longrightarrow> (k \<in> set keys \<longrightarrow> \<not> permanent k st) \<Longrightarrow> covered K k (report_staging_gone keys st)"
  using covered_removed[of _ k st keys "[]"] by (simp add: report_staging_gone_def)

lemma covered_reserved: "covered K k st \<Longrightarrow> covered K k (report [On_reserved_write keys, L1_WRITE_RESERVED keys tag] st)"
  by (auto simp: covered_def told_report)

lemma covered_read: "covered K k (report [On_reserved_read keys, L1_READ_RESERVED keys] st) = covered K k st"
  "covered K k (report_read_reserved keys st) = covered K k st"
  by (simp_all add: covered_def told_report report_read_reserved_def)

lemma permanent_update:
  "permanent k (st\<lparr>l1_objects := AList.update key e d\<rparr>) =
     (if key = k then \<not> os_is_temporary e else permanent k (st\<lparr>l1_objects := d\<rparr>))"
  by (simp add: permanent_def)

lemma permanent_delete:
  "permanent k (st\<lparr>l1_objects := AList.delete key d\<rparr>) = (key \<noteq> k \<and> permanent k (st\<lparr>l1_objects := d\<rparr>))"
  by (simp add: permanent_def)

lemma permanent_objects: "l1_objects st' = l1_objects st \<Longrightarrow> permanent k (st'\<lparr>l1_objects := l1_objects st\<rparr>) = permanent k st"
  by (simp add: permanent_def)

lemma reserve_read_loop_covered:
  "covered K k st \<Longrightarrow> case reserve_read_loop n keys ret succ st of (_, _, st') \<Rightarrow> covered K k st'"
proof (induction keys arbitrary: ret succ st)
  case (Cons key keys)
  show ?case
  proof (cases "map_of (l1_objects st) key")
    case None
    with Cons show ?thesis by simp
  next
    case (Some e)
    obtain lk st1 where lt: "lock_times n (os_read_lock e) st = (lk, st1)" by (cases "lock_times n (os_read_lock e) st")
    have s: "still st st1" by (rule lock_times_still[OF lt still_refl])
    let ?st2 = "st1\<lparr>l1_objects := AList.update key (e\<lparr>os_read_lock := lk\<rparr>) (l1_objects st1)\<rparr>"
    have "permanent k ?st2 = permanent k st"
      using s Some by (simp add: permanent_update still_def) (auto simp: permanent_def)
    with Cons.prems s have "covered K k ?st2" by (simp add: covered_def still_def)
    from Cons.IH[OF this] show ?thesis
      unfolding reserve_read_loop.simps Some option.case lt Let_def prod.case .
  qed
qed simp

text \<open>The keys that \<open>finish_read\<close> frees have left the table.\<close>

lemma finish_read_loop_covered:
  "covered K k st \<Longrightarrow> (k \<in> set (fa_need_to_free_keys fa) \<longrightarrow> map_of (l1_objects st) k = None) \<Longrightarrow>
     case finish_read_loop n keys fa st of (fa', st') \<Rightarrow>
       covered K k st' \<and> (k \<in> set (fa_need_to_free_keys fa') \<longrightarrow> map_of (l1_objects st') k = None)"
proof (induction keys arbitrary: fa st)
  case (Cons key keys)
  show ?case
  proof (cases "map_of (l1_objects st) key")
    case None
    with Cons show ?thesis by simp
  next
    case (Some e)
    obtain b st1 where cl: "check_lock (os_read_lock e) st = (b, st1)" by (cases "check_lock (os_read_lock e) st")
    have s1: "still st st1" by (rule check_lock_still[OF cl still_refl])
    let ?lk = "unlock_times n (os_read_lock e)"
    let ?st2 = "st1\<lparr>l1_objects := AList.update key (e\<lparr>os_read_lock := ?lk\<rparr>) (l1_objects st1)\<rparr>"
    obtain b3 st3 where st3: "(if os_is_temporary e then check_lock ?lk ?st2 else (True, ?st2)) = (b3, st3)" by (metis surj_pair)
    have s3: "still ?st2 st3" using st3 check_lock_still[of ?lk ?st2 b3 st3 ?st2] by (auto split: if_splits)
    let ?fa1 = "fa\<lparr>fa_ret := AList.update key SUCCESS (fa_ret fa), fa_successful_keys := fa_successful_keys fa @ [key]\<rparr>"
    have "permanent k ?st2 = permanent k st"
      using s1 Some by (simp add: permanent_update still_def) (auto simp: permanent_def)
    with Cons.prems(1) s1 have c2: "covered K k ?st2" by (simp add: covered_def still_def)
    then have c3: "covered K k st3" by (rule covered_still[OF s3])
    have m3: "map_of (l1_objects st3) = (map_of (l1_objects st))(key \<mapsto> e\<lparr>os_read_lock := ?lk\<rparr>)"
      using s1 s3 by (simp add: still_def)
    show ?thesis
    proof (cases b)
      case False
      have "covered K k st1" "k \<in> set (fa_need_to_free_keys fa) \<longrightarrow> map_of (l1_objects st1) k = None"
        using covered_still[OF s1 Cons.prems(1)] Cons.prems(2) s1 by (simp_all add: still_def)
      with False Some cl Cons.IH[of st1] show ?thesis by simp
    next
      case True
      show ?thesis
      proof (cases "os_is_temporary e \<and> \<not> b3")
        case t: True
        let ?fa2 = "?fa1\<lparr>fa_need_to_free := fa_need_to_free ?fa1 @ [os_memory_obj e],
          fa_need_to_free_keys := fa_need_to_free_keys ?fa1 @ [key]\<rparr>"
        let ?st4 = "st3\<lparr>l1_objects := AList.delete key (l1_objects st3)\<rparr>"
        have "covered K k ?st4" using c3 permanent_delete[where k = k and st = st3 and key = key and d = "l1_objects st3"] by (simp add: covered_def)
        moreover have "k \<in> set (fa_need_to_free_keys ?fa2) \<longrightarrow> map_of (l1_objects ?st4) k = None"
          using Cons.prems(2) m3 by auto
        ultimately have "case finish_read_loop n keys ?fa2 ?st4 of (fa', st') \<Rightarrow>
            covered K k st' \<and> (k \<in> set (fa_need_to_free_keys fa') \<longrightarrow> map_of (l1_objects st') k = None)" by (rule Cons.IH)
        with True t Some cl st3 show ?thesis by simp
      next
        case t: False
        have "k \<in> set (fa_need_to_free_keys ?fa1) \<longrightarrow> map_of (l1_objects st3) k = None"
          using Cons.prems(2) m3 Some by auto
        with c3 have "case finish_read_loop n keys ?fa1 st3 of (fa', st') \<Rightarrow>
            covered K k st' \<and> (k \<in> set (fa_need_to_free_keys fa') \<longrightarrow> map_of (l1_objects st') k = None)" by (rule Cons.IH)
        with True t Some cl st3 show ?thesis by auto
      qed
    qed
  qed
qed simp

text \<open>During a finishing loop a new permanent object is one whose key is to be reported.\<close>

definition pending_covered :: "'k set \<Rightarrow> 'k \<Rightarrow> 'k list \<Rightarrow> ('k, 'm) l1_manager \<Rightarrow> bool" where
  "pending_covered K k keys st \<longleftrightarrow> (permanent k st \<longrightarrow> k \<in> told K (l1_trace st) \<or> k \<in> set keys)"

lemma pending_still: "still st st' \<Longrightarrow> pending_covered K k keys st \<Longrightarrow> pending_covered K k keys st'"
  by (simp add: pending_covered_def permanent_still) (simp add: still_def)

lemma pending_Nil: "pending_covered K k [] st = covered K k st"
  by (simp add: pending_covered_def covered_def)

lemma finish_write_loop_covered:
  "pending_covered K k (wa_keys wa) st \<Longrightarrow>
     yields (finish_write_loop ops tag keys wa st) (\<lambda>(wa', st'). pending_covered K k (wa_keys wa') st')"
proof (induction keys arbitrary: wa st)
  case (Cons key keys)
  show ?case
    unfolding finish_write_loop.simps
  proof (rule yields_bind[OF take_staging_still[OF still_refl]])
    fix x :: "(l1_error \<times> l1_object_state option) \<times> ('a, 'b) l1_manager" assume x: "case x of (_, st') \<Rightarrow> still st st'"
    obtain err taken st1 where x': "x = ((err, taken), st1)" by (metis surj_pair)
    with x have s: "still st st1" by simp
    let ?wa1 = "wa\<lparr>wa_ret := AList.update key (err, None) (wa_ret wa)\<rparr>"
    have p1: "pending_covered K k (wa_keys wa) st1" by (rule pending_still[OF s Cons.prems])
    have add: "pending_covered K k (wa_keys (if os_is_temporary e then ?wa1
        else ?wa1\<lparr>wa_keys := wa_keys ?wa1 @ [key], wa_meta := wa_meta ?wa1 @ [m]\<rparr>))
        (st1\<lparr>l1_objects := AList.update key e (l1_objects st1)\<rparr>)" for e m
      using p1 permanent_update[where k = k and st = st1 and key = key and e = e and d = "l1_objects st1"] by (auto simp: pending_covered_def)
    show "yields (case x of ((err, taken), st1) \<Rightarrow>
        let wa1 = wa\<lparr>wa_ret := AList.update key (err, None) (wa_ret wa)\<rparr> in
        (case taken of None \<Rightarrow> finish_write_loop ops tag keys wa1 st1
         | Some entry \<Rightarrow>
             if map_of (l1_objects st1) key \<noteq> None
             then finish_write_loop ops tag keys (wa1\<lparr>wa_discarded := wa_discarded wa1 @ [os_memory_obj entry]\<rparr>) st1
             else let st2 = st1\<lparr>l1_objects := AList.update key entry (l1_objects st1)\<rparr> in
               finish_write_loop ops tag keys
                 (if os_is_temporary entry then wa1
                  else wa1\<lparr>wa_keys := wa_keys wa1 @ [key],
                           wa_meta := wa_meta wa1 @ [object_meta ops st2 (os_memory_obj entry)]\<rparr>) st2))
        (\<lambda>(wa', st'). pending_covered K k (wa_keys wa') st')"
      unfolding x' Let_def prod.case using p1 Cons.IH[OF add]
      by (auto split: option.split intro!: Cons.IH)
  qed
qed simp

lemma finish_write_covered:
  assumes "covered K k st"
  shows "yields (finish_write ops keys tag st) (\<lambda>(_, st'). covered K k st')"
  unfolding finish_write_def
proof (rule yields_bind[OF finish_write_loop_covered])
  show "pending_covered K k (wa_keys wa_empty) st" using assms by (simp add: wa_empty_def pending_Nil)
  fix x :: "'a write_acc \<times> ('a, 'b) l1_manager" assume x: "case x of (wa', st') \<Rightarrow> pending_covered K k (wa_keys wa') st'"
  obtain wa st1 where x': "x = (wa, st1)" by (cases x)
  with x have p: "pending_covered K k (wa_keys wa) st1" by simp
  have "covered K k (if wa_keys wa = [] then st2
      else report [On_write_finished (wa_keys wa), L1_WRITE_FINISHED (wa_keys wa) (wa_meta wa)] st2)" if "still st1 st2" for st2
    using pending_still[OF that p] covered_created[of k st2 _ "wa_keys wa" "wa_meta wa"]
    by (auto simp: pending_covered_def pending_Nil[symmetric])
  then show "yields (case x of (wa, st1) \<Rightarrow> (case mem_free ops (wa_discarded wa) st1 of Inl e \<Rightarrow> Inl e
      | Inr st2 \<Rightarrow> Inr (map (map_prod id fst) (wa_ret wa), if wa_keys wa = [] then st2
          else report [On_write_finished (wa_keys wa), L1_WRITE_FINISHED (wa_keys wa) (wa_meta wa)] st2)))
      (\<lambda>(_, st'). covered K k st')"
    unfolding x' prod.case by (intro yields_bind[OF mem_free_still[OF still_refl]]) simp
qed

lemma finish_write_and_reserve_read_loop_covered:
  "pending_covered K k (wa_keys wa) st \<Longrightarrow>
     yields (finish_write_and_reserve_read_loop ops n tag keys wa st) (\<lambda>(wa', st'). pending_covered K k (wa_keys wa') st')"
proof (induction keys arbitrary: wa st)
  case (Cons key keys)
  have bind: "yields (case take_staging key tag st of Inl e \<Rightarrow> Inl e | Inr x \<Rightarrow> f x) Q"
    if "\<And>err taken st1. still st st1 \<Longrightarrow> yields (f ((err, taken), st1)) Q" for f Q
    by (rule yields_bind[OF take_staging_still[OF still_refl]]) (use that in auto)
  show ?case
    unfolding finish_write_and_reserve_read_loop.simps
  proof (rule bind, unfold prod.case)
    fix err taken st1 assume s: "still st st1"
    have p1: "pending_covered K k (wa_keys wa) st1" by (rule pending_still[OF s Cons.prems])
    show "yields (case taken of
        None \<Rightarrow> finish_write_and_reserve_read_loop ops n tag keys (wa\<lparr>wa_ret := AList.update key (err, None) (wa_ret wa)\<rparr>) st1
      | Some entry \<Rightarrow>
          let (final, wa1) =
                (case map_of (l1_objects st1) key of
                   None \<Rightarrow> (entry, wa\<lparr>wa_keys := wa_keys wa @ [key],
                                      wa_meta := wa_meta wa @ [object_meta ops st1 (os_memory_obj entry)]\<rparr>)
                 | Some resident \<Rightarrow> (resident, wa\<lparr>wa_discarded := wa_discarded wa @ [os_memory_obj entry],
                                                    wa_other_keys := wa_other_keys wa @ [key]\<rparr>));
              (lk, st2) = lock_times n (os_read_lock final) st1;
              st3 = st2\<lparr>l1_objects := AList.update key (final\<lparr>os_read_lock := lk\<rparr>) (l1_objects st2)\<rparr>
          in finish_write_and_reserve_read_loop ops n tag keys
               (wa1\<lparr>wa_ret := AList.update key (SUCCESS, Some (os_memory_obj final)) (wa_ret wa1)\<rparr>) st3)
      (\<lambda>(wa', st'). pending_covered K k (wa_keys wa') st')"
    proof (cases taken)
      case None
      with p1 show ?thesis by (auto intro!: Cons.IH)
    next
      case (Some entry)
      obtain final wa1 where f: "(case map_of (l1_objects st1) key of
           None \<Rightarrow> (entry, wa\<lparr>wa_keys := wa_keys wa @ [key], wa_meta := wa_meta wa @ [object_meta ops st1 (os_memory_obj entry)]\<rparr>)
         | Some resident \<Rightarrow> (resident, wa\<lparr>wa_discarded := wa_discarded wa @ [os_memory_obj entry],
             wa_other_keys := wa_other_keys wa @ [key]\<rparr>)) = (final, wa1)" by (metis surj_pair)
      obtain lk st2 where lt: "lock_times n (os_read_lock final) st1 = (lk, st2)" by (metis surj_pair)
      have s2: "still st1 st2" by (rule lock_times_still[OF lt still_refl])
      let ?st3 = "st2\<lparr>l1_objects := AList.update key (final\<lparr>os_read_lock := lk\<rparr>) (l1_objects st2)\<rparr>"
      have "pending_covered K k (wa_keys wa1) ?st3"
        using p1 s2 f permanent_update[where k = k and st = st2 and key = key and e = "final\<lparr>os_read_lock := lk\<rparr>" and d = "l1_objects st2"]
        by (auto simp: pending_covered_def still_def permanent_def split: option.splits if_splits)
      then have "yields (finish_write_and_reserve_read_loop ops n tag keys
          (wa1\<lparr>wa_ret := AList.update key (SUCCESS, Some (os_memory_obj final)) (wa_ret wa1)\<rparr>) ?st3)
          (\<lambda>(wa', st'). pending_covered K k (wa_keys wa') st')" by (intro Cons.IH) simp
      then show ?thesis unfolding Some option.case f Let_def prod.case lt .
    qed
  qed
qed simp

lemma finish_write_and_reserve_read_covered:
  assumes "covered K k st"
  shows "yields (finish_write_and_reserve_read ops keys n tag st) (\<lambda>(_, st'). covered K k st')"
proof -
  have p0: "pending_covered K k (wa_keys wa_empty) st" using assms by (simp add: wa_empty_def pending_Nil)
  have "yields (mem_free ops (wa_discarded wa) st1) (\<lambda>st2. pending_covered K k (wa_keys wa) st2)" if "pending_covered K k (wa_keys wa) st1" for wa st1
    by (rule yields_mono[OF mem_free_still[OF still_refl]]) (rule pending_still[OF _ that])
  then show ?thesis
    unfolding finish_write_and_reserve_read_def Let_def
    by (intro yields_bind[OF finish_write_and_reserve_read_loop_covered[OF p0]])
      (auto intro!: yields_bind covered_created[THEN conjunct2] simp: pending_covered_def report_read_reserved_def told_report
        split: prod.splits if_splits)
qed

text \<open>The keys whose last staging object is deleted are only reported when nothing resident is left.\<close>

lemma finish_write_and_delete_loop_still:
  "still st0 st \<Longrightarrow> \<forall>k \<in> set (wa_other_keys wa). map_of (l1_objects st0) k = None \<Longrightarrow>
     yields (finish_write_and_delete_loop tag keys wa st)
       (\<lambda>(wa', st'). still st0 st' \<and> (\<forall>k \<in> set (wa_other_keys wa'). map_of (l1_objects st0) k = None))"
proof (induction keys arbitrary: wa st)
  case (Cons key keys)
  have bind: "yields (case take_staging key tag st of Inl e \<Rightarrow> Inl e | Inr x \<Rightarrow> f x) Q"
    if "\<And>err taken st1. still st0 st1 \<Longrightarrow> yields (f ((err, taken), st1)) Q" for f Q
    by (rule yields_bind[OF take_staging_still[OF Cons.prems(1)]]) (use that in auto)
  show ?case
    unfolding finish_write_and_delete_loop.simps
  proof (rule bind, unfold prod.case)
    fix err taken st1 assume s: "still st0 st1"
    let ?wa1 = "wa\<lparr>wa_ret := AList.update key (err, None) (wa_ret wa)\<rparr>"
    have o: "map_of (l1_objects st1) key = map_of (l1_objects st0) key" using s by (simp add: still_def)
    show "yields (let wa1 = ?wa1 in (case taken of None \<Rightarrow> finish_write_and_delete_loop tag keys wa1 st1
       | Some entry \<Rightarrow>
           let wa2 = wa1\<lparr>wa_discarded := wa_discarded wa1 @ [os_memory_obj entry]\<rparr> in
           finish_write_and_delete_loop tag keys
             (if map_of (l1_objects st1) key = None \<and> map_of (l1_staging st1) key = None
              then wa2\<lparr>wa_other_keys := wa_other_keys wa2 @ [key]\<rparr> else wa2) st1))
      (\<lambda>(wa', st'). still st0 st' \<and> (\<forall>k \<in> set (wa_other_keys wa'). map_of (l1_objects st0) k = None))"
      unfolding Let_def by (cases taken) (use Cons.prems(2) o in \<open>auto intro!: Cons.IH[OF s]\<close>)
  qed
qed simp

lemma still_permanent_None: "still st0 st \<Longrightarrow> map_of (l1_objects st0) k = None \<Longrightarrow> \<not> permanent k st"
  by (simp add: still_def permanent_def)

lemma finish_write_and_delete_covered:
  assumes "covered K k st"
  shows "yields (finish_write_and_delete ops keys tag st) (\<lambda>(_, st'). covered K k st')"
proof -
  have 0: "\<forall>k \<in> set (wa_other_keys wa_empty). map_of (l1_objects st) k = None" by (simp add: wa_empty_def)
  have "yields (mem_free ops objs st1) (\<lambda>st2. covered K k (report_staging_gone others st2))"
    if "still st st1" "\<forall>k \<in> set others. map_of (l1_objects st) k = None" for objs others st1
    by (rule yields_mono[OF mem_free_still[OF that(1)]])
      (use that assms in \<open>auto intro!: covered_staging_gone intro: covered_still dest: still_permanent_None\<close>)
  then show ?thesis
    unfolding finish_write_and_delete_def
    by (intro yields_bind[OF finish_write_and_delete_loop_still[OF still_refl 0]]) (auto intro!: yields_bind split: prod.splits)
qed

definition gone_absent :: "'k set \<Rightarrow> 'k \<Rightarrow> 'k delete_acc \<Rightarrow> ('k, 'm) l1_manager \<Rightarrow> bool" where
  "gone_absent K k da st \<longleftrightarrow> covered K k st \<and>
     (k \<in> set (da_successful_keys da) \<union> set (da_gone_keys da) \<longrightarrow> map_of (l1_objects st) k = None)"

lemma gone_absent_still: "still st st' \<Longrightarrow> gone_absent K k da st \<Longrightarrow> gone_absent K k da st'"
  using covered_still[of st st' K k] by (simp add: gone_absent_def still_def)

lemma delete_loop_covered:
  "gone_absent K k da st \<Longrightarrow> yields (delete_loop ops force keys da st) (\<lambda>(da', st'). gone_absent K k da' st')"
proof (induction keys arbitrary: da st)
  case (Cons key keys)
  have ret: "gone_absent K k (da\<lparr>da_ret := r\<rparr>) s = gone_absent K k da s" for r s by (simp add: gone_absent_def)
  show ?case
  proof (cases "map_of (l1_objects st) key = None \<and> map_of (l1_staging st) key = None")
    case True
    with Cons show ?thesis by (simp add: ret)
  next
    case False
    have tail: "yields (if map_of (l1_staging st1) key \<noteq> None
           then delete_loop ops force keys (da\<lparr>da_ret := AList.update key KEY_IS_LOCKED (da_ret da)\<rparr>) st1
           else (case map_of (l1_objects st) key of
              None \<Rightarrow> delete_loop ops force keys
                 (da\<lparr>da_ret := AList.update key SUCCESS (da_ret da), da_gone_keys := da_gone_keys da @ [key]\<rparr>) st1
            | Some entry \<Rightarrow>
                let (locked, st2) = check_lock (os_read_lock entry) st1 in
                if locked \<and> \<not> force
                then delete_loop ops force keys (da\<lparr>da_ret := AList.update key KEY_IS_LOCKED (da_ret da)\<rparr>) st2
                else delete_loop ops force keys
                  (da\<lparr>da_ret := AList.update key SUCCESS (da_ret da),
                      da_need_to_free := da_need_to_free da @ [os_memory_obj entry],
                      da_successful_keys := da_successful_keys da @ [key]\<rparr>)
                  (st2\<lparr>l1_objects := AList.delete key (l1_objects st2)\<rparr>)))
        (\<lambda>(da', st'). gone_absent K k da' st')" if s: "still st st1" for st1
    proof (cases "map_of (l1_objects st) key")
      case None
      with s have "map_of (l1_objects st1) key = None" by (simp add: still_def)
      then have "gone_absent K k (da\<lparr>da_ret := AList.update key SUCCESS (da_ret da), da_gone_keys := da_gone_keys da @ [key]\<rparr>) st1"
        using gone_absent_still[OF s Cons.prems] by (auto simp: gone_absent_def)
      with gone_absent_still[OF s Cons.prems] show ?thesis
        unfolding None option.case by (intro yields_if Cons.IH) (simp_all add: ret)
    next
      case (Some e)
      obtain b st2 where cl: "check_lock (os_read_lock e) st1 = (b, st2)" by (metis surj_pair)
      have s2: "still st st2" by (rule check_lock_still[OF cl s])
      note g1 = gone_absent_still[OF s Cons.prems] and g2 = gone_absent_still[OF s2 Cons.prems]
      have "gone_absent K k (da\<lparr>da_ret := AList.update key SUCCESS (da_ret da),
            da_need_to_free := da_need_to_free da @ [os_memory_obj e],
            da_successful_keys := da_successful_keys da @ [key]\<rparr>) (st2\<lparr>l1_objects := AList.delete key (l1_objects st2)\<rparr>)"
        using g2 permanent_delete[where k = k and st = st2 and key = key and d = "l1_objects st2"]
        by (auto simp: gone_absent_def covered_def)
      with g1 g2 show ?thesis unfolding Some option.case cl Let_def prod.case by (intro yields_if Cons.IH) (simp_all add: ret)
    qed
    have bind: "yields (case reclaim_staging ops key force st of Inl e \<Rightarrow> Inl e | Inr x \<Rightarrow> f x) Q"
      if "\<And>i st1. still st st1 \<Longrightarrow> yields (f (i, st1)) Q" for f Q
      by (rule yields_bind[OF reclaim_staging_still[OF still_refl]]) (use that in auto)
    show ?thesis unfolding delete_loop.simps Let_def if_not_P[OF False] by (rule bind, unfold prod.case) (rule tail[unfolded Let_def])
  qed
qed simp

lemma free_and_report_deleted_covered:
  assumes "covered K k st" "k \<in> set keys \<longrightarrow> map_of (l1_objects st) k = None"
  shows "yields (free_and_report_deleted ops keys objs st) (\<lambda>st'. covered K k st' \<and> l1_objects st' = l1_objects st)"
proof -
  have "covered K k (report [On_deleted_by_manager keys, L1_KEYS_EVICTED keys sizes] st1) \<and>
      l1_objects (report [On_deleted_by_manager keys, L1_KEYS_EVICTED keys sizes] st1) = l1_objects st" if "still st st1" for st1 sizes
    using covered_removed[OF covered_still[OF that assms(1)], of keys sizes] still_permanent_None[OF that] assms(2) that
    by (auto simp: report_def still_def)
  then show ?thesis
    unfolding free_and_report_deleted_def Let_def by (intro yields_bind[OF mem_free_still[OF still_refl]]) simp
qed

lemma delete_covered:
  assumes "covered K k st"
  shows "yields (delete_keys ops keys force st) (\<lambda>(_, st'). covered K k st')"
proof -
  have 0: "gone_absent K k \<lparr>da_ret = [], da_need_to_free = [], da_successful_keys = [], da_gone_keys = []\<rparr> st"
    using assms by (simp add: gone_absent_def)
  have "yields (case free_and_report_deleted ops (da_successful_keys da) (da_need_to_free da) st1 of
      Inl e \<Rightarrow> Inl e | Inr st2 \<Rightarrow> Inr (da_ret da, report_staging_gone (da_gone_keys da) st2)) (\<lambda>(_, st'). covered K k st')"
    if "gone_absent K k da st1" for da st1
  proof (rule yields_bind[OF free_and_report_deleted_covered])
    show "covered K k st1" "k \<in> set (da_successful_keys da) \<longrightarrow> map_of (l1_objects st1) k = None"
      using that by (simp_all add: gone_absent_def)
    fix st2 assume "covered K k st2 \<and> l1_objects st2 = l1_objects st1"
    with that covered_staging_gone[of _ k st2 "da_gone_keys da"]
    show "yields (Inr (da_ret da, report_staging_gone (da_gone_keys da) st2)) (\<lambda>(_, st'). covered K k st')"
      by (auto simp: gone_absent_def permanent_def)
  qed
  then show ?thesis unfolding delete_keys_def by (intro yields_bind[OF delete_loop_covered[OF 0]]) auto
qed

lemma empty_covered: "l1_objects st = [] \<Longrightarrow> covered K k st"
  by (simp add: covered_def permanent_def)

lemma clear_all_covered: "yields (clear_all ops st) (covered K k)"
proof -
  have "yields (case reclaim_keys ops True keys [] s of Inl e \<Rightarrow> Inl e | Inr (_, st3) \<Rightarrow> Inr (report_staging_gone gone st3)) (covered K k)"
    if "l1_objects s = []" for keys gone s
  proof (rule yields_bind[OF reclaim_keys_still[OF still_refl]])
    show "\<forall>k \<in> set []. map_of (l1_objects s) k = None" by simp
  qed (use that in \<open>auto simp: report_def report_staging_gone_def still_def intro!: empty_covered\<close>)
  then show ?thesis
    unfolding clear_all_def Let_def
    by (intro yields_bind[OF mem_free_still[OF still_refl]]) (simp add: report_def)
qed

lemma map_of_fold_delete: "map_of (fold AList.delete ks d) = (\<lambda>k. if k \<in> set ks then None else map_of d k)"
  by (induction ks arbitrary: d) auto

lemma clear_unlocked_covered:
  assumes "covered K k st"
  shows "yields (clear_unlocked ops st) (covered K k)"
proof -
  obtain keys objs st1 where sc: "clear_scan (l1_objects st) [] [] st = (keys, objs, st1)" by (metis surj_pair)
  then have s: "still st st1" using clear_scan_spec[of "l1_objects st" "[]" "[]" st] by (auto simp: still_def)
  define st2 where "st2 = st1\<lparr>l1_objects := fold AList.delete keys (l1_objects st1)\<rparr>"
  have c2: "covered K k st2"
    using covered_still[OF s assms] by (auto simp: st2_def covered_def permanent_def map_of_fold_delete split: option.splits)
  have "k \<in> set keys \<longrightarrow> map_of (l1_objects st2) k = None" by (simp add: st2_def map_of_fold_delete)
  from free_and_report_deleted_covered[OF c2 this, of ops objs] c2
  have 3: "yields (if keys = [] then Inr st2 else free_and_report_deleted ops keys objs st2) (covered K k)"
    by (auto elim!: yields_mono)
  have 4: "yields (case reclaim_keys ops False (dict_keys (l1_staging st3)) [] st3 of Inl e \<Rightarrow> Inl e
      | Inr (gone_keys, st4) \<Rightarrow> Inr (report_staging_gone gone_keys st4)) (covered K k)" if "covered K k st3" for st3
  proof (rule yields_bind[OF reclaim_keys_still[OF still_refl]])
    show "\<forall>k \<in> set []. map_of (l1_objects st3) k = None" by simp
  qed (use covered_still[OF _ that] still_permanent_None[of st3] in \<open>auto intro!: covered_staging_gone\<close>)
  show ?thesis
    unfolding clear_unlocked_def sc Let_def prod.case st2_def[symmetric] by (rule yields_bind[OF 3 4])
qed

lemma reserve_write_covered:
  assumes "covered K k st"
  shows "yields (reserve_write ops keys temps layout tag st) (\<lambda>(_, st'). covered K k st')"
proof -
  obtain ret succ need st1 where scan: "reserve_write_scan tag (zip keys temps) [] [] [] st = (ret, succ, need, st1)"
    by (metis surj_pair)
  have 1: "still st st1" using reserve_write_scan_still[OF still_refl, of st tag "zip keys temps" "[]" "[]" "[]"] scan by simp
  have 2: "yields (reserve_write_stage ops tag items ret succ (st1\<lparr>l1_mem := m\<rparr>)) (\<lambda>(_, _, st'). still st st')" for items m
    by (rule reserve_write_stage_still) (use 1 in simp)
  have 3: "yields (mem_free ops objs (st1\<lparr>l1_mem := m\<rparr>)) (\<lambda>st'. still st st')" for objs m
    by (rule mem_free_still) (use 1 in simp)
  have c: "covered K k st'" if "still st st'" for st' using covered_still[OF that assms] .
  show ?thesis
  proof (cases "mm_allocate ops (l1_mem st1) layout (int (length need))")
    case (Inl e)
    with c[OF 1] show ?thesis by (auto simp: reserve_write_def scan)
  next
    case (Inr r)
    obtain err objs m where r: "r = ((err, objs), m)" by (metis surj_pair)
    show ?thesis
      unfolding reserve_write_def scan Let_def prod.case Inr r sum.case
      by (intro yields_if yields_bind[where P = "\<lambda>(_, _, st'). still st st'"] 2 yields_bind[OF 3] yields_bind[OF 2])
        (use 1 c in \<open>auto intro!: covered_reserved\<close>)
  qed
qed

lemma touch_covered: "covered K k (touch_keys b keys st) = covered K k st"
  by (simp add: touch_keys_def covered_def told_report)

lemma close_covered: "yields (close_l1 ops st) (covered K k)"
  unfolding close_l1_def by (rule yields_bind[OF mem_free_still[OF still_refl]]) (simp add: empty_covered)

lemma l1_step_covered: "covered K k st \<Longrightarrow> yields (l1_step ops op st) (covered K k)"
proof (cases op)
  case (Reserve_read keys n)
  assume "covered K k st"
  from reserve_read_loop_covered[OF this, of "nat (validate_read_locks n)" keys "[]" "[]"] Reserve_read show ?thesis
    by (auto simp: reserve_read_def Let_def covered_read split: prod.splits)
next
  case (Unsafe_read keys)
  assume "covered K k st"
  with Unsafe_read unsafe_read_still[OF still_refl] show ?thesis by (auto simp: unsafe_read_def intro: covered_still)
next
  case (Finish_read keys n)
  assume c: "covered K k st"
  let ?fa = "\<lparr>fa_ret = [], fa_successful_keys = [], fa_need_to_free = [], fa_need_to_free_keys = []\<rparr>"
  obtain fa st1 where loop: "finish_read_loop (nat (validate_read_locks n)) keys ?fa st = (fa, st1)" by (metis surj_pair)
  have 1: "covered K k st1" "k \<in> set (fa_need_to_free_keys fa) \<longrightarrow> map_of (l1_objects st1) k = None"
    using finish_read_loop_covered[OF c, of ?fa "nat (validate_read_locks n)" keys] loop by simp_all
  have "covered K k (report [On_read_finished a, On_deleted_by_manager (fa_need_to_free_keys fa), L1_READ_FINISHED b,
      L1_KEYS_EVICTED (fa_need_to_free_keys fa) m] st2)" if "still st1 st2" for a b m st2
    using covered_still[OF that 1(1)] 1(2) still_permanent_None[OF that] by (auto simp: covered_def told_report)
  then have "yields (finish_read ops keys n st) (\<lambda>(_, st'). covered K k st')"
    unfolding finish_read_def loop Let_def prod.case by (intro yields_bind[OF mem_free_still[OF still_refl]]) simp
  with Finish_read show ?thesis by (simp add: yields_drop_value)
qed (auto intro!: yields_drop_value reserve_write_covered finish_write_covered finish_write_and_reserve_read_covered
    finish_write_and_delete_covered delete_covered clear_all_covered clear_unlocked_covered close_covered
    covered_still[OF is_key_evictable_still] covered_still[OF report_status_still] simp: clear_def touch_covered)

lemma l1_run_covered: "covered K k st \<Longrightarrow> yields (l1_run ops calls st) (covered K k)"
proof (induction calls arbitrary: st)
  case (Cons op calls)
  show ?case unfolding l1_run.simps by (rule yields_bind[OF l1_step_covered[OF Cons.prems] Cons.IH])
qed simp

end
