(* ===== verification/L1_Eviction.thy ===== *)
theory L1_Eviction
  imports L1_Tracking L1_Dram
begin

text \<open>
  The eviction controller of the L1 cache: \<open>L1EvictionController\<close> of
  \<open>lmcache/v1/distributed/storage_controllers/eviction_controller.py\<close>, running beside the clients of
  the L1 manager. The callbacks of the manager are a queue, the trace of the L1 state, that is
  delivered to the policy at the end of every step. The usage query, the request to the policy and
  each executed action are steps of their own, with any client calls between them. The eligibility
  filter does not take the manager's lock, so calls of other threads may run between any two of its checks; their callbacks
  wait for the policy's lock and are delivered when the policy has answered.
\<close>

section \<open>Controller\<close>

record eviction_config =
  ec_eviction_policy :: string
  ec_trigger_watermark :: rat
  ec_eviction_ratio :: rat

record 'm eviction_system =
  es_l1 :: "(object_key, 'm) l1_manager"
  es_policy :: policy
  es_triggered :: bool
  es_actions :: "object_key eviction_action list"
  es_running :: bool

definition controller_init :: "eviction_config \<Rightarrow> (object_key, 'm) l1_manager \<Rightarrow> 'm eviction_system result" where
  "controller_init cfg l1 =
     (case CreateEvictionPolicy (ec_eviction_policy cfg) of
        Inl e \<Rightarrow> Inl e
      | Inr p \<Rightarrow> Inr \<lparr>es_l1 = l1, es_policy = p, es_triggered = False, es_actions = [], es_running = True\<rparr>)"

definition l1_usage :: "'m mem_ops \<Rightarrow> (object_key, 'm) l1_manager \<Rightarrow> rat result" where
  "l1_usage ops st =
     (let (used_bytes, total_bytes) = mm_get_memory_usage ops (l1_mem st)
      in if total_bytes = 0 then Inr 0 else true_div used_bytes total_bytes)"

text \<open>
  Calls that other threads complete before a check of the filter. A sequence that raises is left
  out: none does on a state that satisfies the invariant.
\<close>

definition interleave :: "'m mem_ops \<Rightarrow> object_key l1_op list \<Rightarrow> (object_key, 'm) l1_manager \<Rightarrow> (object_key, 'm) l1_manager" where
  "interleave ops calls st = (case l1_run ops calls st of Inl _ \<Rightarrow> st | Inr st' \<Rightarrow> st')"

type_synonym 'm filter_state = "(object_key, 'm) l1_manager \<times> object_key l1_op list list"

fun key_evictable :: "'m mem_ops \<Rightarrow> object_key \<Rightarrow> 'm filter_state \<Rightarrow> bool \<times> 'm filter_state" where
  "key_evictable ops key (st, []) = (let (ok, st') = is_key_evictable key st in (ok, (st', [])))"
| "key_evictable ops key (st, calls # others) =
     (let (ok, st') = is_key_evictable key (interleave ops calls st) in (ok, (st', others)))"

text \<open>Delivery of the callbacks that wait.\<close>

definition hear :: "'m eviction_system \<Rightarrow> 'm eviction_system" where
  "hear s = s\<lparr>es_policy := fold policy_notify (l1_notifications (l1_trace (es_l1 s))) (es_policy s),
              es_l1 := (es_l1 s)\<lparr>l1_trace := []\<rparr>\<rparr>"

text \<open>
  The body of the loop up to the execution of the actions it has asked for, in its two steps: the
  usage query, which decides whether this pass evicts, and the request to the policy.
\<close>

definition loop_check :: "'m mem_ops \<Rightarrow> eviction_config \<Rightarrow> 'm eviction_system \<Rightarrow> 'm eviction_system result" where
  "loop_check ops cfg s =
     (case l1_usage ops (es_l1 s) of
        Inl e \<Rightarrow> Inl e
      | Inr usage \<Rightarrow> Inr (s\<lparr>es_triggered := \<not> usage < ec_trigger_watermark cfg\<rparr>))"

definition loop_request ::
  "'m mem_ops \<Rightarrow> eviction_config \<Rightarrow> object_key l1_op list list \<Rightarrow> 'm eviction_system \<Rightarrow> 'm eviction_system result" where
  "loop_request ops cfg others s =
     (case get_eviction_actions (ec_eviction_ratio cfg) (Some (key_evictable ops)) None (es_policy s) (es_l1 s, others) of
        Inl e \<Rightarrow> Inl e
      | Inr ((acts, p), (l1, _)) \<Rightarrow>
          Inr (hear (s\<lparr>es_l1 := l1, es_policy := p, es_triggered := False, es_actions := acts\<rparr>)))"

text \<open>An action with another destination is logged and treated as a discard.\<close>

definition execute_eviction_action ::
  "'m mem_ops \<Rightarrow> object_key eviction_action \<Rightarrow> 'm eviction_system \<Rightarrow> 'm eviction_system result" where
  "execute_eviction_action ops action s =
     (case delete_keys ops (ea_keys action) False (es_l1 s) of
        Inl e \<Rightarrow> Inl e
      | Inr (_, l1) \<Rightarrow> Inr (hear (s\<lparr>es_l1 := l1\<rparr>)))"

section \<open>Interleavings\<close>

text \<open>An exception in the loop ends the thread; the stop flag is read between two passes.\<close>

datatype system_label =
    Client "object_key l1_op"
  | Check
  | Request "object_key l1_op list list"
  | Execute
  | Stop

inductive sys_step ::
  "'m mem_ops \<Rightarrow> eviction_config \<Rightarrow> 'm eviction_system \<Rightarrow> system_label \<Rightarrow> 'm eviction_system \<Rightarrow> bool"
  for ops cfg where
  client: "l1_step ops op (es_l1 s) = Inr l1 \<Longrightarrow> sys_step ops cfg s (Client op) (hear (s\<lparr>es_l1 := l1\<rparr>))"
| check: "es_running s \<Longrightarrow> \<not> es_triggered s \<Longrightarrow> es_actions s = [] \<Longrightarrow> loop_check ops cfg s = Inr s' \<Longrightarrow>
    sys_step ops cfg s Check s'"
| check_raises: "es_running s \<Longrightarrow> \<not> es_triggered s \<Longrightarrow> es_actions s = [] \<Longrightarrow> loop_check ops cfg s = Inl e \<Longrightarrow>
    sys_step ops cfg s Check (s\<lparr>es_running := False\<rparr>)"
| request: "es_triggered s \<Longrightarrow> loop_request ops cfg others s = Inr s' \<Longrightarrow> sys_step ops cfg s (Request others) s'"
| request_raises: "es_triggered s \<Longrightarrow> loop_request ops cfg others s = Inl e \<Longrightarrow>
    sys_step ops cfg s (Request others) (s\<lparr>es_running := False, es_triggered := False\<rparr>)"
| execute: "es_actions s = action # actions \<Longrightarrow> execute_eviction_action ops action s = Inr s' \<Longrightarrow>
    sys_step ops cfg s Execute (s'\<lparr>es_actions := actions\<rparr>)"
| stop: "\<not> es_triggered s \<Longrightarrow> es_actions s = [] \<Longrightarrow> sys_step ops cfg s Stop (s\<lparr>es_running := False\<rparr>)"

inductive sys_steps ::
  "'m mem_ops \<Rightarrow> eviction_config \<Rightarrow> 'm eviction_system \<Rightarrow> system_label list \<Rightarrow> 'm eviction_system \<Rightarrow> bool"
  for ops cfg where
  refl: "sys_steps ops cfg s [] s"
| step: "sys_step ops cfg s l s1 \<Longrightarrow> sys_steps ops cfg s1 ls s2 \<Longrightarrow> sys_steps ops cfg s (l # ls) s2"

inductive_cases sys_stepE: "sys_step ops cfg s l s'"

text \<open>The calls on the L1 manager that clients make in a step.\<close>

fun client_calls :: "system_label \<Rightarrow> object_key l1_op list" where
  "client_calls (Client op) = [op]"
| "client_calls (Request others) = concat others"
| "client_calls _ = []"

section \<open>Invariant\<close>

text \<open>
  Between steps every callback has been delivered, and a policy that tracks keys at all tracks every
  permanent resident object.
\<close>

definition l1_ok :: "object_key set \<Rightarrow> (object_key, mixed_allocator) l1_manager \<Rightarrow> bool" where
  "l1_ok K st \<longleftrightarrow> l1_inv mx_inv live_ids [] st \<and> (\<forall>k. covered K k st)"

definition sys_inv :: "mixed_allocator eviction_system \<Rightarrow> bool" where
  "sys_inv s \<longleftrightarrow> l1_inv mx_inv live_ids [] (es_l1 s) \<and> l1_trace (es_l1 s) = [] \<and> policy_inv (es_policy s) \<and>
     (es_policy s \<noteq> NoOp_policy \<longrightarrow> (\<forall>k. permanent k (es_l1 s) \<longrightarrow> k \<in> policy_tracked (es_policy s)))"

text \<open>What is tracked, had the policy been another one than the no-op policy.\<close>

definition tracked_or_all :: "policy \<Rightarrow> object_key set" where
  "tracked_or_all p = (if p = NoOp_policy then UNIV else policy_tracked p)"

lemma sys_inv_ok: "sys_inv s \<Longrightarrow> l1_ok (tracked_or_all (es_policy s)) (es_l1 s)"
  by (auto simp: sys_inv_def l1_ok_def covered_def told_def l1_notifications_def tracked_or_all_def map_filter_def)

lemma hear_inv:
  assumes "policy_inv (es_policy s)" and "l1_ok (tracked_or_all (es_policy s)) (es_l1 s)"
  shows "sys_inv (hear s)"
proof -
  note law = policy_notify_all[OF assms(1), of "l1_notifications (l1_trace (es_l1 s))"]
  have "permanent k (es_l1 s\<lparr>l1_trace := []\<rparr>) = permanent k (es_l1 s)" for k by (simp add: permanent_def)
  moreover have "l1_inv mx_inv live_ids [] (es_l1 s\<lparr>l1_trace := []\<rparr>)"
    using assms(2) by (simp add: l1_ok_def)
  ultimately show ?thesis
    using law assms(2) by (auto simp: sys_inv_def hear_def l1_ok_def covered_def told_def tracked_or_all_def)
qed

lemma dram_step_ok:
  assumes "l1_ok K st" "l1_op_ok op"
  obtains st' where "l1_step l1mm_ops op st = Inr st'" "l1_ok K st'"
proof -
  from assms have inv: "l1_inv mx_inv live_ids [] st" and cov: "\<And>k. covered K k st" by (simp_all add: l1_ok_def)
  from memory_manager.l1_step_inv[OF dram.memory_manager_axioms inv assms(2)] obtain st' where
    st': "l1_step l1mm_ops op st = Inr st'" "l1_inv mx_inv live_ids [] st'" by (elim ensuresE)
  with l1_step_covered[OF cov, of l1mm_ops op] that[of st'] show ?thesis by (auto simp: l1_ok_def)
qed

lemma interleave_run:
  assumes "l1_inv mx_inv live_ids [] st" "\<forall>op \<in> set calls. l1_op_ok op"
  shows "l1_run l1mm_ops calls st = Inr (interleave l1mm_ops calls st)"
proof -
  from dram_run_inv[OF assms] obtain st' where "l1_run l1mm_ops calls st = Inr st'" by (elim ensuresE)
  then show ?thesis by (simp add: interleave_def)
qed

lemma interleave_ok:
  assumes "l1_ok K st" "\<forall>op \<in> set calls. l1_op_ok op"
  shows "l1_ok K (interleave l1mm_ops calls st)"
proof -
  from assms have inv: "l1_inv mx_inv live_ids [] st" and cov: "\<And>k. covered K k st" by (simp_all add: l1_ok_def)
  note run = interleave_run[OF inv assms(2)]
  from dram_run_inv[OF inv assms(2)] run have "l1_inv mx_inv live_ids [] (interleave l1mm_ops calls st)" by (auto elim: ensuresE)
  moreover have "covered K k (interleave l1mm_ops calls st)" for k
    using l1_run_covered[OF cov, where ops = l1mm_ops and calls = calls and k = k] run by simp
  ultimately show ?thesis by (simp add: l1_ok_def)
qed

lemma is_key_evictable_ok: "l1_ok K st \<Longrightarrow> l1_ok K (snd (is_key_evictable k st))"
  by (simp add: l1_ok_def is_key_evictable_inv covered_still[OF is_key_evictable_still])

text \<open>A condition on the L1 state survives the filter if it survives the check and the interleaved calls.\<close>

lemma key_evictable_state:
  assumes "\<And>st key. Q others st \<Longrightarrow> Q others (snd (is_key_evictable key st))"
    and "\<And>calls rest st. others = calls # rest \<Longrightarrow> Q others st \<Longrightarrow> Q rest (interleave ops calls st)"
    and "\<And>calls rest st key. others = calls # rest \<Longrightarrow> Q rest st \<Longrightarrow> Q rest (snd (is_key_evictable key st))"
    and "Q others st"
  shows "case snd (passes (Some (key_evictable ops)) key (st, others)) of (st', others') \<Rightarrow> Q others' st'"
  using assms by (cases others) (simp_all add: passes_def case_prod_beta)

lemma actions_ok:
  assumes "l1_ok K st" "\<forall>op \<in> set (concat others). l1_op_ok op"
    and "get_eviction_actions r (Some (key_evictable l1mm_ops)) salt p (st, others) = Inr ((acts, q), (st', others'))"
  shows "l1_ok K st'"
proof -
  define Q :: "mixed_allocator filter_state \<Rightarrow> bool" where
    "Q = (\<lambda>(st, others). (\<forall>op \<in> set (concat others). l1_op_ok op) \<and> l1_ok K st)"
  have "Q (snd (passes (Some (key_evictable l1mm_ops)) key x))" if "Q x" for key x
  proof -
    obtain st others where x: "x = (st, others)" by (cases x)
    have "case snd (passes (Some (key_evictable l1mm_ops)) key (st, others)) of
        (st', others') \<Rightarrow> (\<forall>op \<in> set (concat others'). l1_op_ok op) \<and> l1_ok K st'"
      by (rule key_evictable_state) (use that in \<open>auto simp: x Q_def intro: is_key_evictable_ok interleave_ok\<close>)
    then show ?thesis by (simp add: x Q_def case_prod_beta)
  qed
  from get_eviction_actions_state[of Q, OF this _ assms(3)] assms(1,2) show ?thesis by (simp add: Q_def)
qed

lemma l1_usage_total: "\<exists>u. l1_usage ops st = Inr u"
  by (simp add: l1_usage_def true_div_def case_prod_beta Let_def)

definition same_kind :: "policy \<Rightarrow> policy \<Rightarrow> bool" where
  "same_kind p q \<longleftrightarrow> (q = NoOp_policy \<longleftrightarrow> p = NoOp_policy) \<and> support_isolation q = support_isolation p"

lemma hear_kind: "policy_inv (es_policy s) \<Longrightarrow> same_kind (es_policy s) (es_policy (hear s))"
  using policy_notify_all[of "es_policy s"] by (simp add: same_kind_def hear_def)

lemma hear_fields [simp]:
  "es_actions (hear s) = es_actions s" "es_triggered (hear s) = es_triggered s" "es_running (hear s) = es_running s"
  by (simp_all add: hear_def)

lemma loop_check_eq:
  "l1_usage ops (es_l1 s) = Inr u \<Longrightarrow> loop_check ops cfg s = Inr (s\<lparr>es_triggered := ec_trigger_watermark cfg \<le> u\<rparr>)"
  by (simp add: loop_check_def not_less)

lemma sys_inv_fields [simp]:
  "sys_inv (s\<lparr>es_triggered := t\<rparr>) = sys_inv s" "sys_inv (s\<lparr>es_running := r\<rparr>) = sys_inv s"
  "sys_inv (s\<lparr>es_actions := as\<rparr>) = sys_inv s"
  by (simp_all add: sys_inv_def)

lemma loop_check_fields:
  assumes "loop_check ops cfg s = Inr s'"
  shows "es_l1 s' = es_l1 s" and "es_policy s' = es_policy s"
  using assms by (auto simp: loop_check_def split: sum.splits)

lemma loop_requestE:
  assumes "loop_request ops cfg others s = Inr s'"
  obtains acts q l1 os where
    "get_eviction_actions (ec_eviction_ratio cfg) (Some (key_evictable ops)) None (es_policy s) (es_l1 s, others) =
       Inr ((acts, q), (l1, os))"
    and "s' = hear (s\<lparr>es_l1 := l1, es_policy := q, es_triggered := False, es_actions := acts\<rparr>)"
  using assms by (auto simp: loop_request_def split: sum.splits)

lemma loop_request_inv:
  assumes inv: "sys_inv s" and ok: "\<forall>op \<in> set (concat others). l1_op_ok op"
    and t: "loop_request l1mm_ops cfg others s = Inr s'"
  shows "sys_inv s' \<and> same_kind (es_policy s) (es_policy s')"
proof -
  from t obtain acts q l1 os where
    a: "get_eviction_actions (ec_eviction_ratio cfg) (Some (key_evictable l1mm_ops)) None (es_policy s) (es_l1 s, others) = Inr ((acts, q), (l1, os))"
    and s': "s' = hear (s\<lparr>es_l1 := l1, es_policy := q, es_triggered := False, es_actions := acts\<rparr>)"
    by (rule loop_requestE)
  from inv have pinv: "policy_inv (es_policy s)" by (simp add: sys_inv_def)
  have iso: "support_isolation (es_policy s) \<longrightarrow> None \<noteq> None"
    using a by (cases "es_policy s") (auto simp: iso_actions_def)
  from get_eviction_actions_law[OF pinv, of "None :: string option" "ec_eviction_ratio cfg" "Some (key_evictable l1mm_ops)" "(es_l1 s, others)"] iso a
  have q: "policy_inv q" "policy_tracked q = policy_tracked (es_policy s)" "same_kind (es_policy s) q"
    by (auto simp: same_kind_def)
  have ok1: "l1_ok (tracked_or_all (es_policy s)) l1" by (rule actions_ok[OF sys_inv_ok[OF inv] ok a])
  have "tracked_or_all q = tracked_or_all (es_policy s)" using q by (simp add: tracked_or_all_def same_kind_def)
  with ok1 q(1) have "sys_inv s'" unfolding s' by (intro hear_inv) simp_all
  with hear_kind[of "s\<lparr>es_l1 := l1, es_policy := q, es_triggered := False, es_actions := acts\<rparr>"] q show ?thesis
    by (simp add: s' same_kind_def)
qed

lemma call_inv:
  assumes inv: "sys_inv s" and ok: "l1_ok (tracked_or_all (es_policy s)) l1"
  shows "sys_inv (hear (s\<lparr>es_l1 := l1\<rparr>)) \<and> same_kind (es_policy s) (es_policy (hear (s\<lparr>es_l1 := l1\<rparr>)))"
  using hear_inv[of "s\<lparr>es_l1 := l1\<rparr>"] hear_kind[of "s\<lparr>es_l1 := l1\<rparr>"] assms by (simp add: sys_inv_def)

lemma execute_ok:
  assumes "sys_inv s"
  obtains ret l1 where "delete_keys l1mm_ops keys False (es_l1 s) = Inr (ret, l1)" "l1_ok (tracked_or_all (es_policy s)) l1"
proof -
  from dram_step_ok[OF sys_inv_ok[OF assms], of "Delete keys False"] obtain l1 where
    "l1_step l1mm_ops (Delete keys False) (es_l1 s) = Inr l1" "l1_ok (tracked_or_all (es_policy s)) l1" by auto
  with that show ?thesis by (auto simp: drop_value_def split: sum.splits)
qed

lemma sys_step_inv:
  assumes "sys_step l1mm_ops cfg s l s'" "sys_inv s" "\<forall>op \<in> set (client_calls l). l1_op_ok op"
  shows "sys_inv s' \<and> same_kind (es_policy s) (es_policy s')"
  using assms
proof cases
  case (client op l1)
  with assms(3) dram_step_ok[OF sys_inv_ok[OF assms(2)], of op] have "l1_ok (tracked_or_all (es_policy s)) l1" by auto
  from call_inv[OF assms(2) this] client show ?thesis by simp
next
  case check
  then show ?thesis using assms(2) loop_check_fields[of l1mm_ops cfg s s'] by (simp add: sys_inv_def same_kind_def)
next
  case (request others)
  with loop_request_inv[OF assms(2), of others cfg s'] assms(3) show ?thesis by simp
next
  case (execute action actions s1)
  obtain ret l1 where d: "delete_keys l1mm_ops (ea_keys action) False (es_l1 s) = Inr (ret, l1)"
    and ok: "l1_ok (tracked_or_all (es_policy s)) l1" by (rule execute_ok[OF assms(2)])
  from call_inv[OF assms(2) ok] d execute show ?thesis
    by (simp add: execute_eviction_action_def sys_inv_def)
qed (use assms(2) in \<open>simp_all add: sys_inv_def same_kind_def\<close>)

lemma sys_steps_inv:
  "sys_steps l1mm_ops cfg s ls s' \<Longrightarrow> sys_inv s \<Longrightarrow> \<forall>l \<in> set ls. \<forall>op \<in> set (client_calls l). l1_op_ok op \<Longrightarrow>
     sys_inv s' \<and> same_kind (es_policy s) (es_policy s')"
proof (induction rule: sys_steps.induct)
  case (step s l s1 ls s2)
  from sys_step_inv[OF step.hyps(1) step.prems(1)] step show ?case by (auto simp: same_kind_def)
qed (simp add: same_kind_def)

lemma controller_init_inv:
  assumes "mx_init sl sz al = Inr mx" "sorted_list_contract sl" "0 < sz"
    and "controller_init cfg (l1_init mx mid wttl rttl clock) = Inr s"
  shows "sys_inv s \<and> (es_policy s = NoOp_policy \<longleftrightarrow> ec_eviction_policy cfg = ''noop'')"
proof -
  from assms(4) obtain p where p: "CreateEvictionPolicy (ec_eviction_policy cfg) = Inr p"
    and s: "s = \<lparr>es_l1 = l1_init mx mid wttl rttl clock, es_policy = p, es_triggered = False, es_actions = [], es_running = True\<rparr>"
    by (auto simp: controller_init_def split: sum.splits)
  have "p = NoOp_policy \<longleftrightarrow> ec_eviction_policy cfg = ''noop''"
    using p by (auto simp: CreateEvictionPolicy_def split: if_splits)
  with l1_init_inv[OF assms(1-3), of mid wttl rttl clock] created_policy_inv[OF p] show ?thesis
    by (simp add: s sys_inv_def permanent_def l1_init_def)
qed

section \<open>Properties\<close>

text \<open>
  C4: The eviction thread and the clients keep the L1 cache and the policy in step. From a fresh
  manager on host memory with a fresh controller, after any interleaving of client calls, usage
  queries, policy requests (with other calls running between the checks of the filter), executed
  actions and a stop:
  no memory is leaked or lost, every permanent resident object is tracked by the policy, unless
  eviction is off, so that eviction can reach it; and neither an action nor a client call is ever
  stuck.
\<close>

theorem l1_eviction_invariant:
  assumes "mx_init sl sz al = Inr mx" and "sorted_list_contract sl" and "0 < sz"
    and "controller_init cfg (l1_init mx mid wttl rttl clock) = Inr s0"
    and "sys_steps l1mm_ops cfg s0 ls s" and "\<forall>l \<in> set ls. \<forall>op \<in> set (client_calls l). l1_op_ok op"
  shows "l1_inv mx_inv live_ids [] (es_l1 s) \<and>
    (ec_eviction_policy cfg \<noteq> ''noop'' \<longrightarrow> {k. permanent k (es_l1 s)} \<subseteq> policy_tracked (es_policy s)) \<and>
    (es_actions s \<noteq> [] \<longrightarrow> (\<exists>s'. sys_step l1mm_ops cfg s Execute s')) \<and>
    (\<forall>op. l1_op_ok op \<longrightarrow> (\<exists>s'. sys_step l1mm_ops cfg s (Client op) s'))"
proof -
  note init = controller_init_inv[OF assms(1-4)]
  with sys_steps_inv[OF assms(5) _ assms(6)] have inv: "sys_inv s" and "same_kind (es_policy s0) (es_policy s)" by simp_all
  with init have "es_policy s = NoOp_policy \<longleftrightarrow> ec_eviction_policy cfg = ''noop''" by (simp add: same_kind_def)
  with inv have 1: "l1_inv mx_inv live_ids [] (es_l1 s)"
    "ec_eviction_policy cfg \<noteq> ''noop'' \<longrightarrow> {k. permanent k (es_l1 s)} \<subseteq> policy_tracked (es_policy s)"
    by (auto simp: sys_inv_def)
  have "\<exists>s'. sys_step l1mm_ops cfg s Execute s'" if "es_actions s = a # as" for a as
  proof -
    obtain ret l1 where "delete_keys l1mm_ops (ea_keys a) False (es_l1 s) = Inr (ret, l1)" by (rule execute_ok[OF inv])
    then have "execute_eviction_action l1mm_ops a s = Inr (hear (s\<lparr>es_l1 := l1\<rparr>))" by (simp add: execute_eviction_action_def)
    with that show ?thesis by (blast intro: sys_step.execute)
  qed
  then have 2: "es_actions s \<noteq> [] \<longrightarrow> (\<exists>s'. sys_step l1mm_ops cfg s Execute s')" by (cases "es_actions s") simp_all
  have "\<exists>s'. sys_step l1mm_ops cfg s (Client op) s'" if "l1_op_ok op" for op
    using dram_step_ok[OF sys_inv_ok[OF inv] that] sys_step.client by metis
  with 1 2 show ?thesis by blast
qed

text \<open>A controller on 16 KiB of pinned memory with a clock that stands at 5 ms, and an object stored there.\<close>

definition small_mx :: mixed_allocator where
  "small_mx = \<lparr>mx_align_bytes = 4096, mx_pin_allocator = ta_init std_sorted_list 16384 4096 None\<rparr>"

lemma small_mx_init: "mx_init std_sorted_list 16384 4096 = Inr small_mx"
  by (simp add: mx_init_def small_mx_def)

definition small_config :: "string \<Rightarrow> eviction_config" where
  "small_config name = \<lparr>ec_eviction_policy = name, ec_trigger_watermark = 1 / 8, ec_eviction_ratio = 1 / 2\<rparr>"

definition small_system :: "policy \<Rightarrow> mixed_allocator eviction_system" where
  "small_system p = \<lparr>es_l1 = l1_init small_mx 7 60 60 (\<lambda>_. 5), es_policy = p, es_triggered = False, es_actions = [], es_running = True\<rparr>"

lemma small_system_init: "CreateEvictionPolicy name = Inr p \<Longrightarrow>
    controller_init (small_config name) (l1_init small_mx 7 60 60 (\<lambda>_. 5)) = Inr (small_system p)"
  by (simp add: controller_init_def small_config_def small_system_def)

definition client_step :: "mixed_allocator eviction_system \<Rightarrow> object_key l1_op \<Rightarrow> mixed_allocator eviction_system" where
  "client_step s op = (case l1_step l1mm_ops op (es_l1 s) of Inl _ \<Rightarrow> s | Inr l1 \<Rightarrow> hear (s\<lparr>es_l1 := l1\<rparr>))"

lemma client_step_sound: "sys_inv s \<Longrightarrow> l1_op_ok op \<Longrightarrow>
    sys_step l1mm_ops cfg s (Client op) (client_step s op) \<and> sys_inv (client_step s op)"
proof -
  assume inv: "sys_inv s" and ok: "l1_op_ok op"
  obtain l1 where "l1_step l1mm_ops op (es_l1 s) = Inr l1" by (rule dram_step_ok[OF sys_inv_ok[OF inv] ok])
  then have "sys_step l1mm_ops cfg s (Client op) (client_step s op)"
    using sys_step.client[of l1mm_ops op s l1 cfg] by (simp add: client_step_def)
  with sys_step_inv[OF this inv] ok show ?thesis by simp
qed

lemma client_steps_sound: "sys_inv s \<Longrightarrow> \<forall>op \<in> set ops. l1_op_ok op \<Longrightarrow>
    sys_steps l1mm_ops cfg s (map Client ops) (foldl client_step s ops) \<and> sys_inv (foldl client_step s ops)"
  using client_step_sound[of _ _ cfg] by (induction ops arbitrary: s) (auto intro: sys_steps.intros)

definition store_one :: "object_key \<Rightarrow> object_key l1_op list" where
  "store_one k = [Reserve_write [k] [False] dram_layout ''w'', Finish_write [k] ''w'']"

lemma store_one_ok: "\<forall>op \<in> set (store_one k). l1_op_ok op"
  by (simp add: store_one_def dram_layout_ok)

lemma small_system_inv: "CreateEvictionPolicy name = Inr p \<Longrightarrow> sys_inv (small_system p)"
  using controller_init_inv[OF small_mx_init std_sorted_list_contract _ small_system_init] by simp

theorem l1_eviction_invariant_witness:
  "\<exists>p s. CreateEvictionPolicy ''ARC'' = Inr p \<and>
     sys_steps l1mm_ops (small_config ''ARC'') (small_system p) (map Client (store_one sample_key)) s \<and>
     l1_inv mx_inv live_ids [] (es_l1 s) \<and> {k. permanent k (es_l1 s)} \<subseteq> policy_tracked (es_policy s)"
proof -
  have p: "CreateEvictionPolicy ''ARC'' = Inr (ARC_policy (arc_init DISCARD))" by code_simp
  let ?s = "foldl client_step (small_system (ARC_policy (arc_init DISCARD))) (store_one sample_key)"
  have run: "sys_steps l1mm_ops (small_config ''ARC'') (small_system (ARC_policy (arc_init DISCARD))) (map Client (store_one sample_key)) ?s"
    using client_steps_sound[OF small_system_inv[OF p] store_one_ok] by blast
  have "\<forall>l \<in> set (map Client (store_one sample_key)). \<forall>op \<in> set (client_calls l). l1_op_ok op" using store_one_ok[of sample_key] by simp
  from l1_eviction_invariant[OF small_mx_init std_sorted_list_contract _ small_system_init[OF p] run this]
  show ?thesis using p run by (auto simp: small_config_def)
qed

section \<open>Readers\<close>

abbreviation releases :: "object_key \<Rightarrow> object_key l1_op list \<Rightarrow> int" where
  "releases k calls \<equiv> sum_list (map (op_releases k) calls)"

lemma releases_nonneg: "0 \<le> releases k calls"
  by (intro sum_list_nonneg) (auto simp: op_releases_nonneg)

lemma held_trace [simp]: "read_held k i c (st\<lparr>l1_trace := t\<rparr>) = read_held k i c st"
  by (simp add: read_held_def split: option.split)

lemma hear_held: "read_held k i c (es_l1 (hear s)) = read_held k i c (es_l1 s)"
  by (simp add: hear_def)

lemma interleave_held:
  assumes "l1_inv mx_inv live_ids [] st" "read_held k i (c + releases k calls) st" "0 < c"
    and "\<forall>op \<in> set calls. l1_op_ok op \<and> \<not> op_forces k op"
  shows "l1_inv mx_inv live_ids [] (interleave l1mm_ops calls st) \<and> read_held k i c (interleave l1mm_ops calls st)"
  using dram_run_held[OF assms(1,2) _ assms(4)] interleave_run[OF assms(1), of calls] assms(3,4)
  by (auto elim!: ensuresE)

lemma actions_held:
  assumes "l1_inv mx_inv live_ids [] st" "read_held k i (c + releases k (concat others)) st" "0 < c"
    and "\<forall>op \<in> set (concat others). l1_op_ok op \<and> \<not> op_forces k op"
    and "get_eviction_actions r (Some (key_evictable l1mm_ops)) salt p (st, others) = Inr ((acts, q), (st', others'))"
  shows "read_held k i c st'"
proof -
  define R where "R = (\<lambda>others (st :: (object_key, mixed_allocator) l1_manager).
    (\<forall>op \<in> set (concat others). l1_op_ok op \<and> \<not> op_forces k op) \<and> l1_inv mx_inv live_ids [] st \<and>
    read_held k i (c + releases k (concat others)) st)"
  define Q :: "mixed_allocator filter_state \<Rightarrow> bool" where "Q = (\<lambda>(st, others). R others st)"
  have check: "R others (snd (is_key_evictable key st))" if "R others st" for others key st
    using that is_key_evictable_inv held_unmoved[OF is_key_evictable_unmoved] by (auto simp: R_def)
  have inter: "R rest (interleave l1mm_ops calls st)" if "R (calls # rest) st" for calls rest st
    using interleave_held[of st k i "c + releases k (concat rest)" calls] that assms(3) releases_nonneg[of k "concat rest"]
    by (auto simp: R_def add_ac)
  have "Q (snd (passes (Some (key_evictable l1mm_ops)) key x))" if "Q x" for key x
  proof -
    obtain st others where x: "x = (st, others)" by (cases x)
    have "case snd (passes (Some (key_evictable l1mm_ops)) key (st, others)) of (st', others') \<Rightarrow> R others' st'"
      by (rule key_evictable_state[where Q = R]) (use that check inter in \<open>auto simp: x Q_def\<close>)
    then show ?thesis by (simp add: x Q_def case_prod_beta)
  qed
  from get_eviction_actions_state[of Q, OF this _ assms(5)] assms(1,2,4) have "R others' st'" by (simp add: Q_def R_def)
  then show ?thesis using releases_nonneg[of k "concat others'"] by (auto simp: R_def intro: held_weaken)
qed

lemma sys_step_held:
  assumes "sys_step l1mm_ops cfg s l s'" "sys_inv s" "\<forall>op \<in> set (client_calls l). l1_op_ok op \<and> \<not> op_forces k op"
    and "read_held k i c (es_l1 s)" "releases k (client_calls l) < c"
  shows "read_held k i (c - releases k (client_calls l)) (es_l1 s')"
  using assms(1)
proof cases
  case (client op l1)
  from assms(2) have inv: "l1_inv mx_inv live_ids [] (es_l1 s)" by (simp add: sys_inv_def)
  from dram_run_held[OF inv assms(4), of "[op]"] assms(3,5) client show ?thesis
    by (auto simp: hear_held elim!: ensuresE split: sum.splits)
next
  case check
  with assms(4) loop_check_fields[of l1mm_ops cfg s s'] show ?thesis by simp
next
  case (request others)
  from assms(2) have inv: "l1_inv mx_inv live_ids [] (es_l1 s)" by (simp add: sys_inv_def)
  from assms(4) request have h: "read_held k i (c - releases k (concat others) + releases k (concat others)) (es_l1 s)" by simp
  from request(3) obtain acts q l1 os where
    a: "get_eviction_actions (ec_eviction_ratio cfg) (Some (key_evictable l1mm_ops)) None (es_policy s) (es_l1 s, others) = Inr ((acts, q), (l1, os))"
    and s': "s' = hear (s\<lparr>es_l1 := l1, es_policy := q, es_triggered := False, es_actions := acts\<rparr>)"
    by (rule loop_requestE)
  from actions_held[OF inv h _ _ a] assms(3,5) request show ?thesis by (simp add: s' hear_held)
next
  case (request_raises others e)
  with assms(4) releases_nonneg[of k "concat others"] show ?thesis by (auto intro: held_weaken)
next
  case (execute action actions s1)
  with assms(5) have c: "0 < c" by simp
  from execute obtain ret l1 where d: "delete_keys l1mm_ops (ea_keys action) False (es_l1 s) = Inr (ret, l1)"
    and s1: "s1 = hear (s\<lparr>es_l1 := l1\<rparr>)" by (auto simp: execute_eviction_action_def split: sum.splits)
  from delete_held[OF assms(4) c, of False "ea_keys action" l1mm_ops] d execute show ?thesis by (simp add: s1 hear_held)
qed (use assms(4) in simp_all)

lemma sys_steps_held:
  "sys_steps l1mm_ops cfg s ls s' \<Longrightarrow> sys_inv s \<Longrightarrow> \<forall>l \<in> set ls. \<forall>op \<in> set (client_calls l). l1_op_ok op \<and> \<not> op_forces k op \<Longrightarrow>
     read_held k i c (es_l1 s) \<Longrightarrow> releases k (concat (map client_calls ls)) < c \<Longrightarrow>
     sys_inv s' \<and> read_held k i (c - releases k (concat (map client_calls ls))) (es_l1 s')"
proof (induction arbitrary: c rule: sys_steps.induct)
  case (step s l s1 ls s2)
  let ?n = "releases k (client_calls l)" and ?m = "releases k (concat (map client_calls ls))"
  from step.prems(4) releases_nonneg[of k "concat (map client_calls ls)"] have n: "?n < c" "?m < c - ?n" by simp_all
  from sys_step_held[OF step.hyps(1) step.prems(1) _ step.prems(3) n(1)] step.prems(2)
  have h: "read_held k i (c - ?n) (es_l1 s1)" by simp
  from sys_step_inv[OF step.hyps(1) step.prems(1)] step.prems(2) have "sys_inv s1" by simp
  from step.IH[OF this _ h n(2)] step.prems(2) show ?case by (simp add: algebra_simps)
qed simp

text \<open>
  C5: Eviction never takes an object from a reader. If a resident object carries \<open>c\<close> read locks that
  do not expire meanwhile, then after any interleaving of client calls, usage queries, policy
  requests and executed actions in which the clients release fewer than \<open>c\<close> of them and force nothing, the key still has
  the same memory object, still live, with the remaining locks: a filter check that has become stale
  by the time the action is executed does no harm.
\<close>

theorem l1_eviction_respects_readers:
  assumes "sys_inv s" and "read_held k i c (es_l1 s)" and "sys_steps l1mm_ops cfg s ls s'"
    and "\<forall>l \<in> set ls. \<forall>op \<in> set (client_calls l). l1_op_ok op \<and> \<not> op_forces k op"
    and "sum_list (map (op_releases k) (concat (map client_calls ls))) < c"
  shows "\<exists>e. map_of (l1_objects (es_l1 s')) k = Some e \<and> os_memory_obj e = i \<and>
    c - sum_list (map (op_releases k) (concat (map client_calls ls))) \<le> tl_counter (os_read_lock e) \<and> i \<in> live_ids (l1_mem (es_l1 s'))"
proof -
  from sys_steps_held[OF assms(3,1,4,2,5)] have inv: "l1_inv mx_inv live_ids [] (es_l1 s')"
    and h: "read_held k i (c - releases k (concat (map client_calls ls))) (es_l1 s')" by (simp_all add: sys_inv_def)
  from dram_held_live[OF inv h] h show ?thesis by (auto simp: read_held_def split: option.splits)
qed

definition small_read :: "mixed_allocator eviction_system" where
  "small_read = foldl client_step (small_system (LRU_policy (lru_init DISCARD))) (store_one sample_key @ [Reserve_read [sample_key] 2])"

lemma small_read_entry:
  "map_option (\<lambda>e. (os_memory_obj e, tl_counter (os_read_lock e), tl_expiration_ms (os_read_lock e), tl_ttl_ms (os_read_lock e)))
     (map_of (l1_objects (es_l1 small_read)) sample_key) = Some (0, 2, 60005, 60000)"
  "es_running small_read" "es_actions small_read = []" "\<not> es_triggered small_read"
  by code_simp+

lemma small_read_clock: "l1_clock (es_l1 small_read) t = 5"
  by code_simp

lemma small_read_inv: "sys_inv small_read"
proof -
  have p: "CreateEvictionPolicy ''LRU'' = Inr (LRU_policy (lru_init DISCARD))" by code_simp
  have "\<forall>op \<in> set (store_one sample_key @ [Reserve_read [sample_key] 2]). l1_op_ok op" using store_one_ok[of sample_key] by auto
  from client_steps_sound[OF small_system_inv[OF p] this] show ?thesis unfolding small_read_def by blast
qed

lemma request_step: "es_triggered s \<Longrightarrow> \<exists>s'. sys_step ops cfg s (Request others) s'"
  by (cases "loop_request ops cfg others s") (auto intro: sys_step.request sys_step.request_raises)

lemma small_usage:
  assumes "mm_get_memory_usage l1mm_ops (l1_mem st) = (4096, 16384)"
  shows "l1_usage l1mm_ops st = Inr (1 / 4)"
  using assms f64_dyadic[of 1 2] by (simp add: l1_usage_def true_div_def)

lemma small_check:
  assumes "mm_get_memory_usage l1mm_ops (l1_mem (es_l1 s)) = (4096, 16384)"
    and "es_running s" and "\<not> es_triggered s" and "es_actions s = []"
  shows "sys_step l1mm_ops (small_config name) s Check (s\<lparr>es_triggered := True\<rparr>)"
  using loop_check_eq[OF small_usage[OF assms(1)], of "small_config name"] assms(2-4)
  by (intro sys_step.check) (simp_all add: small_config_def)

theorem l1_eviction_respects_readers_witness:
  "\<exists>s'. sys_steps l1mm_ops (small_config ''LRU'') small_read
       [Check, Client (Delete [sample_key] False), Request [[Finish_read [sample_key] 1, Clear False]]] s' \<and>
     (\<exists>e. map_of (l1_objects (es_l1 s')) sample_key = Some e \<and> os_memory_obj e = 0 \<and> 0 \<in> live_ids (l1_mem (es_l1 s')))"
proof -
  let ?op = "Delete [sample_key] False" and ?others = "[[Finish_read [sample_key] 1, Clear False]]"
  let ?ls = "[Check, Client ?op, Request ?others]" and ?s1 = "small_read\<lparr>es_triggered := True\<rparr>"
  let ?s2 = "client_step ?s1 ?op"
  have "mm_get_memory_usage l1mm_ops (l1_mem (es_l1 small_read)) = (4096, 16384)" by code_simp
  note 1 = small_check[OF this small_read_entry(2,4,3), of "''LRU''"]
  have 2: "sys_step l1mm_ops (small_config ''LRU'') ?s1 (Client ?op) ?s2"
    using client_step_sound[of ?s1 ?op "small_config ''LRU''"] small_read_inv by simp
  have "es_triggered ?s2" by (simp add: client_step_def split: sum.splits)
  then obtain s' where 3: "sys_step l1mm_ops (small_config ''LRU'') ?s2 (Request ?others) s'"
    using request_step by metis
  from 1 2 3 have run: "sys_steps l1mm_ops (small_config ''LRU'') small_read ?ls s'"
    by (blast intro: sys_steps.intros)
  have h: "read_held sample_key 0 2 (es_l1 small_read)"
    using small_read_entry(1) by (auto simp: read_held_def small_read_clock split: option.splits)
  have "sum_list (map (op_releases sample_key) (concat (map client_calls ?ls))) < 2" by code_simp
  from l1_eviction_respects_readers[OF small_read_inv h run _ this] run show ?thesis by auto
qed

lemma loop_request_raises:
  "loop_request ops cfg others s = Inl e \<longleftrightarrow> e = ValueError \<and> support_isolation (es_policy s)"
  by (cases "es_policy s") (auto simp: loop_request_def iso_actions_def split: prod.splits)

text \<open>Once the thread has ended, it stays ended.\<close>

lemma sys_steps_dead:
  "sys_steps ops cfg s ls s' \<Longrightarrow> \<not> es_running s \<Longrightarrow> \<not> es_triggered s \<Longrightarrow> es_actions s = [] \<Longrightarrow>
     \<not> es_running s' \<and> (\<forall>l \<in> set ls. l = Stop \<or> (\<exists>op. l = Client op))"
proof (induction rule: sys_steps.induct)
  case (step s l s1 ls s2)
  from step.hyps(1) step.prems
  have "\<not> es_running s1" "\<not> es_triggered s1" "es_actions s1 = []" "l = Stop \<or> (\<exists>op. l = Client op)"
    by (auto elim!: sys_stepE)
  with step.IH show ?case by simp
qed simp

text \<open>A pass that asks the policy right after its usage query.\<close>

lemma pass_steps:
  assumes "es_running s" and "\<not> es_triggered s" and "es_actions s = []" and "l1_usage ops (es_l1 s) = Inr u"
  shows "sys_steps ops cfg s [Check, Request others] s1 \<longleftrightarrow> ec_trigger_watermark cfg \<le> u \<and>
    sys_step ops cfg (s\<lparr>es_triggered := True\<rparr>) (Request others) s1"
proof -
  have c: "sys_step ops cfg s Check s' \<longleftrightarrow> s' = s\<lparr>es_triggered := ec_trigger_watermark cfg \<le> u\<rparr>" for s'
    using assms loop_check_eq[OF assms(4), of cfg] by (auto elim: sys_stepE intro: sys_step.check)
  have n: "\<not> sys_step ops cfg s' (Request others) s1" if "\<not> es_triggered s'" for s'
    using that by (auto elim: sys_stepE)
  have "sys_steps ops cfg s [Check, Request others] s1 \<longleftrightarrow>
      (\<exists>s'. sys_step ops cfg s Check s' \<and> sys_step ops cfg s' (Request others) s1)"
    by (auto elim!: sys_steps.cases intro: sys_steps.intros)
  with c n show ?thesis by (cases "ec_trigger_watermark cfg \<le> u") auto
qed

text \<open>
  C27: A pass of the eviction loop raises in exactly one situation: usage has reached the watermark
  and the policy is the per-salt one, which refuses a request without a salt. A running thread whose
  usage query finds the watermark reached goes on to the request, and that request ends the thread
  exactly under the per-salt policy. The thread has then ended for good: in whatever follows, no
  query, no request and no eviction takes place any more, only client calls and a stop.
\<close>

theorem l1_eviction_raises_iff:
  assumes "es_running s" and "\<not> es_triggered s" and "es_actions s = []" and "l1_usage ops (es_l1 s) = Inr u"
  shows "(loop_request ops cfg others s = Inl e \<longleftrightarrow> e = ValueError \<and> support_isolation (es_policy s)) \<and>
    ((\<exists>s1. sys_steps ops cfg s [Check, Request others] s1) \<longleftrightarrow> ec_trigger_watermark cfg \<le> u) \<and>
    (\<forall>s1. sys_steps ops cfg s [Check, Request others] s1 \<longrightarrow>
       (\<not> es_running s1 \<longleftrightarrow> support_isolation (es_policy s)) \<and>
       (support_isolation (es_policy s) \<longrightarrow> (\<forall>ls s2. sys_steps ops cfg s1 ls s2 \<longrightarrow>
          \<not> es_running s2 \<and> (\<forall>l \<in> set ls. l = Stop \<or> (\<exists>op. l = Client op)))))"
proof -
  let ?s = "s\<lparr>es_triggered := True\<rparr>"
  note ps = pass_steps[OF assms, of cfg others]
  have ends: "s1 = ?s\<lparr>es_running := False, es_triggered := False\<rparr>"
    if "sys_step ops cfg ?s (Request others) s1" "support_isolation (es_policy s)" for s1
    using that loop_request_raises[of ops cfg others ?s ValueError] by (auto elim!: sys_stepE)
  have lives: "es_running s1" if "sys_step ops cfg ?s (Request others) s1" "\<not> support_isolation (es_policy s)" for s1
    using that loop_request_raises[of ops cfg others ?s] assms(1) by (auto elim!: sys_stepE loop_requestE)
  have dead: "\<not> es_running s2 \<and> (\<forall>l \<in> set ls. l = Stop \<or> (\<exists>op. l = Client op))"
    if "sys_step ops cfg ?s (Request others) s1" "support_isolation (es_policy s)" "sys_steps ops cfg s1 ls s2" for s1 s2 ls
    using sys_steps_dead[OF that(3)] ends[OF that(1,2)] assms(3) by simp
  have "(\<exists>s1. sys_steps ops cfg s [Check, Request others] s1) \<longleftrightarrow> ec_trigger_watermark cfg \<le> u"
    unfolding ps using request_step[of ?s ops cfg others] by simp
  moreover have "\<not> es_running s1 \<longleftrightarrow> support_isolation (es_policy s)"
    if "sys_step ops cfg ?s (Request others) s1" for s1
    using ends[OF that] lives[OF that] by auto
  ultimately show ?thesis unfolding ps using loop_request_raises[of ops cfg others s e] dead by blast
qed

definition small_isolated :: "mixed_allocator eviction_system" where
  "small_isolated = foldl client_step (small_system (Isolated_policy (iso_init DISCARD))) (store_one sample_key)"

lemma small_isolated_state:
  "mm_get_memory_usage l1mm_ops (l1_mem (es_l1 small_isolated)) = (4096, 16384)" "support_isolation (es_policy small_isolated)"
  "es_running small_isolated" "\<not> es_triggered small_isolated" "es_actions small_isolated = []"
  by code_simp+

theorem l1_eviction_raises_iff_witness:
  "\<exists>s1. sys_steps l1mm_ops (small_config ''IsolatedLRU'') small_isolated [Check, Request []] s1 \<and> \<not> es_running s1 \<and>
     \<not> (\<exists>s2. sys_steps l1mm_ops (small_config ''IsolatedLRU'') s1 [Check] s2)"
proof -
  have w: "ec_trigger_watermark (small_config ''IsolatedLRU'') \<le> 1 / 4" by (simp add: small_config_def)
  note P = l1_eviction_raises_iff[OF small_isolated_state(3-5) small_usage[OF small_isolated_state(1)],
      of "small_config ''IsolatedLRU''" "[]"]
  obtain s1 where s1: "sys_steps l1mm_ops (small_config ''IsolatedLRU'') small_isolated [Check, Request []] s1"
    using P w by blast
  have "\<not> es_running s1" "\<not> sys_steps l1mm_ops (small_config ''IsolatedLRU'') s1 [Check] s2" for s2
    using P s1 small_isolated_state(2) by fastforce+
  with s1 show ?thesis by blast
qed

section \<open>Draining below the watermark\<close>

text \<open>One pass of the loop with nothing in between: the query, the request and then all its actions.\<close>

fun execute_actions ::
  "'m mem_ops \<Rightarrow> object_key eviction_action list \<Rightarrow> 'm eviction_system \<Rightarrow> 'm eviction_system result" where
  "execute_actions ops [] s = Inr s"
| "execute_actions ops (action # actions) s =
     (case execute_eviction_action ops action s of Inl e \<Rightarrow> Inl e | Inr s' \<Rightarrow> execute_actions ops actions s')"

definition eviction_pass :: "'m mem_ops \<Rightarrow> eviction_config \<Rightarrow> 'm eviction_system \<Rightarrow> 'm eviction_system result" where
  "eviction_pass ops cfg s =
     (case loop_check ops cfg s of
        Inl e \<Rightarrow> Inl e
      | Inr s1 \<Rightarrow>
          if \<not> es_triggered s1 then Inr s1
          else (case loop_request ops cfg [] s1 of
                  Inl e \<Rightarrow> Inl e
                | Inr s2 \<Rightarrow> execute_actions ops (es_actions s2) (s2\<lparr>es_actions := []\<rparr>)))"

fun eviction_passes :: "'m mem_ops \<Rightarrow> eviction_config \<Rightarrow> nat \<Rightarrow> 'm eviction_system \<Rightarrow> 'm eviction_system result" where
  "eviction_passes ops cfg 0 s = Inr s"
| "eviction_passes ops cfg (Suc n) s =
     (case eviction_pass ops cfg s of Inl e \<Rightarrow> Inl e | Inr s' \<Rightarrow> eviction_passes ops cfg n s')"

text \<open>Nobody reads or writes: no staging object, no read lock.\<close>

definition quiet :: "(object_key, 'm) l1_manager \<Rightarrow> bool" where
  "quiet st \<longleftrightarrow> l1_staging st = [] \<and> (\<forall>e \<in> set (dict_values (l1_objects st)). tl_counter (os_read_lock e) \<le> 0)"

abbreviation residents :: "(object_key, 'm) l1_manager \<Rightarrow> object_key set" where
  "residents st \<equiv> dom (map_of (l1_objects st))"

lemma quiet_lock:
  assumes "quiet st" "map_of (l1_objects st) k = Some e"
  shows "check_lock (os_read_lock e) st = (False, st\<lparr>l1_ticks := Suc (l1_ticks st)\<rparr>)"
proof -
  have "tl_counter (os_read_lock e) \<le> 0" using map_of_SomeD[OF assms(2)] assms(1) by (auto simp: quiet_def)
  then show ?thesis by (simp add: check_lock_def tick_def ttl_is_locked_def)
qed

lemma quiet_update [simp]:
  "quiet (st\<lparr>l1_ticks := n\<rparr>) = quiet st" "quiet (st\<lparr>l1_mem := m\<rparr>) = quiet st"
  "quiet (st\<lparr>l1_trace := t\<rparr>) = quiet st"
  by (simp_all add: quiet_def)

lemma quiet_delete: "quiet st \<Longrightarrow> quiet (st\<lparr>l1_objects := AList.delete k (l1_objects st)\<rparr>)"
  by (auto simp: quiet_def AList.delete_eq)

lemma quiet_decides:
  assumes "quiet st"
  shows "decides (\<lambda>(st', others). others = [] \<and> (\<exists>n. st' = st\<lparr>l1_ticks := n\<rparr>)) (Some (key_evictable ops)) (\<lambda>k. k \<in> residents st)"
proof -
  have "is_key_evictable k (st\<lparr>l1_ticks := n\<rparr>) = (k \<in> residents st, st\<lparr>l1_ticks := if k \<in> residents st then Suc n else n\<rparr>)" for k n
  proof (cases "map_of (l1_objects st) k")
    case None
    with assms show ?thesis by (simp add: is_key_evictable_def quiet_def domIff)
  next
    case (Some e)
    with quiet_lock[of "st\<lparr>l1_ticks := n\<rparr>" k e] assms show ?thesis by (simp add: is_key_evictable_def domIff)
  qed
  then show ?thesis by (auto simp: decides_def passes_def)
qed

text \<open>What a request returns when the filter decides by key.\<close>

lemma get_eviction_actions_decides:
  assumes "policy_inv p" "\<not> support_isolation p" "p \<noteq> NoOp_policy" "decides R f P" "R s"
    and "get_eviction_actions r f salt p s = Inr ((acts, q), s')"
  shows "(\<forall>k \<in> set (action_keys acts). P k) \<and> (0 < r \<longrightarrow> (\<exists>k \<in> policy_tracked p. P k) \<longrightarrow> action_keys acts \<noteq> []) \<and> R s'"
proof -
  have "R (snd (passes f k s))" if "R s" for k s using decidesD[OF assms(4) that] by simp
  from get_eviction_actions_state[of R, OF this assms(5,6)] have R: "R s'" .
  show ?thesis
  proof (cases p)
    case (LRU_policy l)
    obtain q' where "lru_actions r f l s = ((acts, q'), s')" using LRU_policy assms(6) by (auto split: prod.splits)
    with lru.actions_decides[OF assms(4,5), of r l] obtain s1 where "lru_actions r (fixed_filter P) l s = ((acts, q'), s1)"
      by (metis prod.collapse fst_conv)
    from lru.actions_eligible[OF _ this] LRU_policy assms(1) R show ?thesis by simp
  next
    case (ARC_policy a)
    obtain q' where "arc_actions r f a s = ((acts, q'), s')" using ARC_policy assms(6) by (auto split: prod.splits)
    with arc.actions_decides[OF assms(4,5), of r a] obtain s1 where "arc_actions r (fixed_filter P) a s = ((acts, q'), s1)"
      by (metis prod.collapse fst_conv)
    from arc.actions_eligible[OF _ this] ARC_policy assms(1) R show ?thesis by simp
  qed (use assms(2,3) in simp_all)
qed

lemma delete_loop_quiet:
  "quiet st \<Longrightarrow> distinct keys \<Longrightarrow> set keys \<subseteq> residents st \<Longrightarrow>
     \<exists>da' n. delete_loop ops False keys da st =
         Inr (da', st\<lparr>l1_ticks := n, l1_objects := fold AList.delete keys (l1_objects st)\<rparr>) \<and>
       da_successful_keys da' = da_successful_keys da @ keys \<and> da_gone_keys da' = da_gone_keys da"
proof (induction keys arbitrary: da st)
  case Nil
  show ?case by (intro exI[of _ da] exI[of _ "l1_ticks st"]) simp
next
  case (Cons k keys)
  then obtain e where e: "map_of (l1_objects st) k = Some e" by auto
  let ?st1 = "st\<lparr>l1_ticks := Suc (l1_ticks st), l1_objects := AList.delete k (l1_objects st)\<rparr>"
  have q: "quiet ?st1" using quiet_delete[OF Cons.prems(1), of k] by (simp add: quiet_def)
  have s: "set keys \<subseteq> residents ?st1" "distinct keys" using Cons.prems(2,3) by (auto simp: delete_conv')
  have g: "map_of (l1_staging st) k = None" using Cons.prems(1) by (simp add: quiet_def)
  let ?da = "da\<lparr>da_ret := AList.update k SUCCESS (da_ret da), da_need_to_free := da_need_to_free da @ [os_memory_obj e],
    da_successful_keys := da_successful_keys da @ [k]\<rparr>"
  have "delete_loop ops False (k # keys) da st = delete_loop ops False keys ?da ?st1"
    using quiet_lock[OF Cons.prems(1) e] e g by (simp add: reclaim_staging_def Let_def)
  moreover obtain da' n where "delete_loop ops False keys ?da ?st1 =
      Inr (da', ?st1\<lparr>l1_ticks := n, l1_objects := fold AList.delete keys (l1_objects ?st1)\<rparr>)"
    "da_successful_keys da' = da_successful_keys ?da @ keys" "da_gone_keys da' = da_gone_keys ?da"
    using Cons.IH[OF q s(2,1), of ?da] by blast
  ultimately show ?case by (intro exI[of _ da'] exI[of _ n]) simp
qed

lemma fold_delete:
  "map_of (fold AList.delete ks d) k = (if k \<in> set ks then None else map_of d k)"
  by (induction ks arbitrary: d) (auto simp: delete_conv')

lemma set_fold_delete: "set (fold AList.delete ks d) \<subseteq> set d"
proof (induction ks arbitrary: d)
  case (Cons k ks)
  have "set (AList.delete k d) \<subseteq> set d" by (auto simp: AList.delete_eq)
  with Cons[of "AList.delete k d"] show ?case by (simp add: order_trans)
qed simp

lemma delete_quiet:
  assumes inv: "l1_inv mx_inv live_ids [] st" and q: "quiet st" and keys: "distinct keys" "set keys \<subseteq> residents st"
  shows "\<exists>ret st' sz. delete_keys l1mm_ops keys False st = Inr (ret, st') \<and> l1_inv mx_inv live_ids [] st' \<and> quiet st' \<and>
    residents st' = residents st - set keys \<and> l1_trace st' = l1_trace st @ [On_deleted_by_manager keys, L1_KEYS_EVICTED keys sz]"
proof -
  obtain ret st' where d: "delete_keys l1mm_ops keys False st = Inr (ret, st')" "l1_inv mx_inv live_ids [] st'"
    using memory_manager.delete_inv[OF dram.memory_manager_axioms inv, of keys False] by (auto elim: ensuresE)
  let ?da = "\<lparr>da_ret = [], da_need_to_free = [], da_successful_keys = [], da_gone_keys = []\<rparr>"
  obtain da n where loop: "delete_loop l1mm_ops False keys ?da st =
      Inr (da, st\<lparr>l1_ticks := n, l1_objects := fold AList.delete keys (l1_objects st)\<rparr>)"
    "da_successful_keys da = keys" "da_gone_keys da = []" using delete_loop_quiet[OF q keys, of l1mm_ops ?da] by auto
  let ?st1 = "st\<lparr>l1_ticks := n, l1_objects := fold AList.delete keys (l1_objects st)\<rparr>"
  from d(1) loop obtain m where st': "st' = report [On_deleted_by_manager keys,
      L1_KEYS_EVICTED keys (map (object_meta l1mm_ops ?st1) (da_need_to_free da))] (?st1\<lparr>l1_mem := m\<rparr>)"
    by (auto simp: delete_keys_def free_and_report_deleted_def mem_free_def report_staging_gone_def Let_def split: sum.splits prod.splits)
  have "quiet st'" "residents st' = residents st - set keys"
    using q set_fold_delete[of keys "l1_objects st"] by (auto simp: st' report_def quiet_def fold_delete split: if_splits)
  with d show ?thesis by (simp add: st' report_def)
qed

definition drain_ok :: "mixed_allocator eviction_system \<Rightarrow> bool" where
  "drain_ok s \<longleftrightarrow> sys_inv s \<and> quiet (es_l1 s) \<and> residents (es_l1 s) \<subseteq> policy_tracked (es_policy s) \<and>
     \<not> support_isolation (es_policy s) \<and> es_policy s \<noteq> NoOp_policy"

lemma execute_quiet:
  assumes ok: "drain_ok s" and keys: "distinct (ea_keys a)" "set (ea_keys a) \<subseteq> residents (es_l1 s)"
  shows "\<exists>s'. execute_eviction_action l1mm_ops a s = Inr s' \<and> drain_ok s' \<and>
    residents (es_l1 s') = residents (es_l1 s) - set (ea_keys a) \<and> es_actions s' = es_actions s"
proof -
  from ok have s: "sys_inv s" "quiet (es_l1 s)" "residents (es_l1 s) \<subseteq> policy_tracked (es_policy s)"
    "\<not> support_isolation (es_policy s)" "es_policy s \<noteq> NoOp_policy" by (simp_all add: drain_ok_def)
  then have inv: "l1_inv mx_inv live_ids [] (es_l1 s)" and tr: "l1_trace (es_l1 s) = []" and p: "policy_inv (es_policy s)"
    by (simp_all add: sys_inv_def)
  from delete_quiet[OF inv s(2) keys] tr obtain ret l1 sz where
    d: "delete_keys l1mm_ops (ea_keys a) False (es_l1 s) = Inr (ret, l1)" "quiet l1" "residents l1 = residents (es_l1 s) - set (ea_keys a)"
      "l1_trace l1 = [On_deleted_by_manager (ea_keys a), L1_KEYS_EVICTED (ea_keys a) sz]" by auto
  let ?s' = "hear (s\<lparr>es_l1 := l1\<rparr>)"
  from execute_ok[OF s(1), of "ea_keys a"] d(1) have "l1_ok (tracked_or_all (es_policy s)) l1" by auto
  from call_inv[OF s(1) this] have i: "sys_inv ?s'" "same_kind (es_policy s) (es_policy ?s')" by simp_all
  have "policy_tracked (es_policy ?s') = policy_tracked (es_policy s) - set (ea_keys a)"
    using policy_notify_law[OF p, of "Removed (ea_keys a)"] s(5) by (simp add: hear_def d(4) l1_notifications_def List.map_filter_simps)
  with i d s have "drain_ok ?s'" by (auto simp: drain_ok_def same_kind_def hear_def)
  with d(1,3) show ?thesis by (intro exI[of _ ?s']) (simp add: execute_eviction_action_def hear_def)
qed

lemma execute_actions_quiet:
  "drain_ok s \<Longrightarrow> distinct (action_keys acts) \<Longrightarrow> set (action_keys acts) \<subseteq> residents (es_l1 s) \<Longrightarrow>
     \<exists>s'. execute_actions l1mm_ops acts s = Inr s' \<and> drain_ok s' \<and>
       residents (es_l1 s') = residents (es_l1 s) - set (action_keys acts) \<and> es_actions s' = es_actions s"
proof (induction acts arbitrary: s)
  case (Cons a acts)
  from execute_quiet[OF Cons.prems(1), of a] Cons.prems(2,3) obtain s1 where
    s1: "execute_eviction_action l1mm_ops a s = Inr s1" "drain_ok s1" "residents (es_l1 s1) = residents (es_l1 s) - set (ea_keys a)"
      "es_actions s1 = es_actions s" by auto
  have "set (action_keys acts) \<subseteq> residents (es_l1 s1)" using Cons.prems(2,3) s1(3) by auto
  with Cons.IH[OF s1(2)] Cons.prems(2) s1 obtain s' where "execute_actions l1mm_ops acts s1 = Inr s'" "drain_ok s'"
    "residents (es_l1 s') = residents (es_l1 s1) - set (action_keys acts)" "es_actions s' = es_actions s1" by auto
  with s1 show ?case by auto
qed simp

lemma usage_pos_residents:
  assumes "l1_inv mx_inv live_ids [] st" "quiet st" "l1_usage l1mm_ops st = Inr u" "0 < u"
  shows "residents st \<noteq> {}"
proof
  assume "residents st = {}"
  then have "l1_objects st = []" by (cases "l1_objects st") auto
  with assms(2) have "all_objs st = []" by (simp add: all_objs_def quiet_def)
  with memory_used[OF assms(1)] have "fst (mm_get_memory_usage l1mm_ops (l1_mem st)) = 0" by (simp add: l1mm_ops_def)
  with assms(3,4) show False by (auto simp: l1_usage_def true_div_def case_prod_beta Let_def split: if_splits)
qed

lemma eviction_pass_quiet:
  assumes ok: "drain_ok s" and pos: "0 < ec_trigger_watermark cfg" "0 < ec_eviction_ratio cfg"
    and u: "l1_usage l1mm_ops (es_l1 s) = Inr u" "ec_trigger_watermark cfg \<le> u"
  shows "\<exists>s'. eviction_pass l1mm_ops cfg s = Inr s' \<and> drain_ok s' \<and> residents (es_l1 s') \<subset> residents (es_l1 s)"
proof -
  from ok have s: "sys_inv s" "quiet (es_l1 s)" "residents (es_l1 s) \<subseteq> policy_tracked (es_policy s)"
    "\<not> support_isolation (es_policy s)" "es_policy s \<noteq> NoOp_policy" by (simp_all add: drain_ok_def)
  then have p: "policy_inv (es_policy s)" and inv: "l1_inv mx_inv live_ids [] (es_l1 s)" and tr: "l1_trace (es_l1 s) = []"
    by (simp_all add: sys_inv_def)
  let ?R = "\<lambda>(st', others). others = [] \<and> (\<exists>n. st' = es_l1 s\<lparr>l1_ticks := n\<rparr>)"
  obtain acts q x where a: "get_eviction_actions (ec_eviction_ratio cfg) (Some (key_evictable l1mm_ops)) None (es_policy s) (es_l1 s, []) =
      Inr ((acts, q), x)" and q: "distinct (action_keys acts)" "policy_tracked q = policy_tracked (es_policy s)" "same_kind (es_policy s) q"
    by (rule get_eviction_actions_law[OF p, of None "ec_eviction_ratio cfg" "Some (key_evictable l1mm_ops)" "(es_l1 s, [])"])
      (use s(4) in \<open>auto simp: same_kind_def\<close>)
  have "?R (es_l1 s, [])" by (auto intro: exI[of _ "l1_ticks (es_l1 s)"])
  note dec = get_eviction_actions_decides[OF p s(4,5) quiet_decides[OF s(2)] this a]
  then obtain n where x: "x = (es_l1 s\<lparr>l1_ticks := n\<rparr>, [])" by auto
  have "residents (es_l1 s) \<noteq> {}" using usage_pos_residents[OF inv s(2) u(1)] pos(1) u(2) by simp
  with s(3) dec pos(2) have ne: "action_keys acts \<noteq> []" and sub: "set (action_keys acts) \<subseteq> residents (es_l1 s)" by blast+
  let ?s0 = "s\<lparr>es_triggered := True\<rparr>"
  let ?s1 = "?s0\<lparr>es_l1 := es_l1 s\<lparr>l1_ticks := n\<rparr>, es_policy := q, es_triggered := False, es_actions := acts\<rparr>"
  have h: "hear ?s1 = ?s1" using tr by (simp add: hear_def l1_notifications_def map_filter_def)
  have c: "loop_check l1mm_ops cfg s = Inr ?s0" using loop_check_eq[OF u(1)] u(2) by simp
  have t: "loop_request l1mm_ops cfg [] ?s0 = Inr ?s1" using a h by (simp add: loop_request_def x)
  have "sys_inv ?s0" using s(1) by simp
  from loop_request_inv[OF this _ t] have "sys_inv (?s1\<lparr>es_actions := []\<rparr>)" by simp
  with s q have "drain_ok (?s1\<lparr>es_actions := []\<rparr>)" by (auto simp: drain_ok_def same_kind_def)
  from execute_actions_quiet[OF this q(1)] sub obtain s' where "execute_actions l1mm_ops acts (?s1\<lparr>es_actions := []\<rparr>) = Inr s'"
    "drain_ok s'" "residents (es_l1 s') = residents (es_l1 s) - set (action_keys acts)" by auto
  moreover have "residents (es_l1 s) - set (action_keys acts) \<subset> residents (es_l1 s)"
    using ne sub by (cases "action_keys acts") auto
  ultimately show ?thesis using c t by (auto simp: eviction_pass_def)
qed

text \<open>
  C6: Eviction brings usage below the watermark. When nobody reads or writes and the policy tracks
  every resident object, as it does for permanent ones, then with a positive watermark and a
  positive ratio the loop of an LRU or ARC controller needs at most as many passes as there are
  resident objects until the bytes in use are below the watermark, and it raises nothing on the way.
\<close>

theorem l1_eviction_reaches_watermark:
  assumes "sys_inv s" and "quiet (es_l1 s)" and "residents (es_l1 s) \<subseteq> policy_tracked (es_policy s)"
    and "\<not> support_isolation (es_policy s)" and "es_policy s \<noteq> NoOp_policy"
    and "0 < ec_trigger_watermark cfg" and "0 < ec_eviction_ratio cfg"
  shows "\<exists>n s' u. n \<le> card (residents (es_l1 s)) \<and> eviction_passes l1mm_ops cfg n s = Inr s' \<and>
    l1_usage l1mm_ops (es_l1 s') = Inr u \<and> u < ec_trigger_watermark cfg"
proof -
  have "drain_ok s" using assms by (simp add: drain_ok_def)
  then show ?thesis
  proof (induction "card (residents (es_l1 s))" arbitrary: s rule: less_induct)
    case (less s)
    obtain u where u: "l1_usage l1mm_ops (es_l1 s) = Inr u" using l1_usage_total by blast
    show ?case
    proof (cases "u < ec_trigger_watermark cfg")
      case True
      with u show ?thesis by (intro exI[of _ 0] exI[of _ s] exI[of _ u]) simp
    next
      case False
      with eviction_pass_quiet[OF less.prems assms(6,7) u] obtain s1 where
        s1: "eviction_pass l1mm_ops cfg s = Inr s1" "drain_ok s1" "residents (es_l1 s1) \<subset> residents (es_l1 s)" by auto
      from s1(3) have c: "card (residents (es_l1 s1)) < card (residents (es_l1 s))"
        by (intro psubset_card_mono) (simp_all add: finite_dom_map_of)
      from less.hyps[OF c s1(2)] obtain n s' u' where "n \<le> card (residents (es_l1 s1))" "eviction_passes l1mm_ops cfg n s1 = Inr s'"
        "l1_usage l1mm_ops (es_l1 s') = Inr u'" "u' < ec_trigger_watermark cfg" by blast
      with s1(1) c show ?thesis by (intro exI[of _ "Suc n"] exI[of _ s'] exI[of _ u']) simp
    qed
  qed
qed

definition small_full :: "mixed_allocator eviction_system" where
  "small_full = foldl client_step (small_system (ARC_policy (arc_init DISCARD))) (store_one sample_key)"

lemma small_full_quiet:
  "l1_staging (es_l1 small_full) = [] \<and>
   list_all (\<lambda>e. tl_counter (os_read_lock e) \<le> 0 \<and> \<not> os_is_temporary e) (dict_values (l1_objects (es_l1 small_full)))"
  by code_simp

lemma small_full_inv: "sys_inv small_full" "same_kind (ARC_policy (arc_init DISCARD)) (es_policy small_full)"
proof -
  have p: "CreateEvictionPolicy ''ARC'' = Inr (ARC_policy (arc_init DISCARD))" by code_simp
  note run = client_steps_sound[OF small_system_inv[OF p] store_one_ok[of sample_key], THEN conjunct1, folded small_full_def]
  have "\<forall>l \<in> set (map Client (store_one sample_key)). \<forall>op \<in> set (client_calls l). l1_op_ok op" using store_one_ok[of sample_key] by auto
  from sys_steps_inv[OF run small_system_inv[OF p] this]
  show "sys_inv small_full" "same_kind (ARC_policy (arc_init DISCARD)) (es_policy small_full)"
    by (simp_all add: small_system_def)
qed

theorem l1_eviction_reaches_watermark_witness:
  "\<exists>n s' u. n \<le> card (residents (es_l1 small_full)) \<and>
     eviction_passes l1mm_ops (small_config ''ARC'') n small_full = Inr s' \<and>
     l1_usage l1mm_ops (es_l1 s') = Inr u \<and> u < 1 / 8"
proof -
  have q: "quiet (es_l1 small_full)" using small_full_quiet by (auto simp: quiet_def list_all_iff)
  have iso: "\<not> support_isolation (es_policy small_full)" and noop: "es_policy small_full \<noteq> NoOp_policy"
    using small_full_inv(2) by (simp_all add: same_kind_def)
  have "permanent k (es_l1 small_full)" if "k \<in> residents (es_l1 small_full)" for k
    using that small_full_quiet by (force simp: permanent_def list_all_iff dest: map_of_SomeD split: option.splits)
  with small_full_inv(1) noop have "residents (es_l1 small_full) \<subseteq> policy_tracked (es_policy small_full)" by (auto simp: sys_inv_def)
  from l1_eviction_reaches_watermark[OF small_full_inv(1) q this iso noop, of "small_config ''ARC''"]
  show ?thesis by (simp add: small_config_def)
qed

end
