(* ===== verification/L2_Accounting.thy ===== *)
theory L2_Accounting
  imports Eviction_Policies
begin

text \<open>
  The byte accounting that every L2 adapter inherits from \<open>L2AdapterInterface\<close>
  (\<open>lmcache/v1/distributed/l2_adapters/base.py\<close>): one total and one counter per cache salt, updated
  in batches, and the usage snapshot that the eviction controller reads. The counters are exact when
  they are the sums over a table of the stored keys with their sizes.
\<close>

section \<open>Counters\<close>

record l2_base =
  max_capacity_bytes :: int
  total_bytes_used :: int
  bytes_by_cache_salt :: "(string, int) dict"

record adapter_usage =
  au_total_bytes_used :: int
  au_total_capacity_bytes :: int
  au_bytes_by_cache_salt :: "(string, int) dict"

text \<open>\<open>d.get(salt, 0)\<close>.\<close>

definition salt_bytes :: "(string, int) dict \<Rightarrow> string \<Rightarrow> int" where
  "salt_bytes d salt = (case map_of d salt of None \<Rightarrow> 0 | Some n \<Rightarrow> n)"

text \<open>The change per salt and in total that a batch makes.\<close>

fun salt_deltas :: "(object_key \<times> int) list \<Rightarrow> (string, int) dict \<Rightarrow> int \<Rightarrow> (string, int) dict \<times> int" where
  "salt_deltas [] delta total_delta = (delta, total_delta)"
| "salt_deltas ((key, num_bytes) # rest) delta total_delta =
     salt_deltas rest (AList.update (cache_salt key) (salt_bytes delta (cache_salt key) + num_bytes) delta) (total_delta + num_bytes)"

definition add_delta :: "string \<times> int \<Rightarrow> (string, int) dict \<Rightarrow> (string, int) dict" where
  "add_delta sd b = (case sd of (salt, d) \<Rightarrow> AList.update salt (salt_bytes b salt + d) b)"

definition sub_delta :: "string \<times> int \<Rightarrow> (string, int) dict \<Rightarrow> (string, int) dict" where
  "sub_delta sd b =
     (case sd of (salt, d) \<Rightarrow>
        let new_total = salt_bytes b salt - d in
        if new_total \<le> 0 then AList.delete salt b else AList.update salt new_total b)"

text \<open>\<open>zip(..., strict=True)\<close> raises if the lists have different lengths, before a counter is changed.\<close>

definition account_stored :: "object_key list \<Rightarrow> int list \<Rightarrow> 'x l2_base_scheme \<Rightarrow> 'x l2_base_scheme result" where
  "account_stored keys sizes a =
     (if length keys \<noteq> length sizes then Inl ValueError
      else let (delta, total_delta) = salt_deltas (zip keys sizes) [] 0
           in Inr (a\<lparr>total_bytes_used := total_bytes_used a + total_delta,
                    bytes_by_cache_salt := fold add_delta delta (bytes_by_cache_salt a)\<rparr>))"

definition account_deleted :: "object_key list \<Rightarrow> int list \<Rightarrow> 'x l2_base_scheme \<Rightarrow> 'x l2_base_scheme result" where
  "account_deleted keys sizes a =
     (if length keys \<noteq> length sizes then Inl ValueError
      else let (delta, total_delta) = salt_deltas (zip keys sizes) [] 0;
               total = total_bytes_used a - total_delta
           in Inr (a\<lparr>total_bytes_used := (if total < 0 then 0 else total),
                    bytes_by_cache_salt := fold sub_delta delta (bytes_by_cache_salt a)\<rparr>))"

definition supports_global_eviction :: "'x l2_base_scheme \<Rightarrow> bool" where
  "supports_global_eviction a \<longleftrightarrow> max_capacity_bytes a > 0"

definition get_usage :: "'x l2_base_scheme \<Rightarrow> adapter_usage" where
  "get_usage a =
     \<lparr>au_total_bytes_used = total_bytes_used a, au_total_capacity_bytes = max_capacity_bytes a,
      au_bytes_by_cache_salt = filter (\<lambda>(k, v). v > 0) (bytes_by_cache_salt a)\<rparr>"

definition usage_fraction :: "adapter_usage \<Rightarrow> rat result" where
  "usage_fraction u =
     (if au_total_capacity_bytes u \<le> 0 then Inr (- 1) else true_div (au_total_bytes_used u) (au_total_capacity_bytes u))"

section \<open>Sums\<close>

definition bytes_of :: "(object_key \<times> int) list \<Rightarrow> int" where
  "bytes_of kvs = sum_list (map snd kvs)"

definition salt_sum :: "string \<Rightarrow> (object_key \<times> int) list \<Rightarrow> int" where
  "salt_sum salt kvs = sum_list (map snd (filter (\<lambda>(k, n). cache_salt k = salt) kvs))"

lemma sums_simps [simp]:
  "bytes_of [] = 0" "bytes_of ((k, n) # kvs) = n + bytes_of kvs" "bytes_of (kvs @ kvs') = bytes_of kvs + bytes_of kvs'"
  "salt_sum salt [] = 0" "salt_sum salt ((k, n) # kvs) = (if cache_salt k = salt then n else 0) + salt_sum salt kvs"
  "salt_sum salt (kvs @ kvs') = salt_sum salt kvs + salt_sum salt kvs'"
  by (simp_all add: bytes_of_def salt_sum_def)

lemma sums_nonneg: "\<forall>n \<in> set (dict_values kvs). 0 \<le> n \<Longrightarrow> 0 \<le> bytes_of kvs \<and> 0 \<le> salt_sum salt kvs"
  by (auto simp: bytes_of_def salt_sum_def intro!: sum_list_nonneg)

lemma sums_update_new:
  "map_of kvs k = None \<Longrightarrow> bytes_of (AList.update k n kvs) = bytes_of kvs + n"
  "map_of kvs k = None \<Longrightarrow> salt_sum salt (AList.update k n kvs) = salt_sum salt kvs + (if cache_salt k = salt then n else 0)"
  by (induction kvs) (auto split: if_splits)

lemma sums_delete:
  "dict_ok kvs \<Longrightarrow> map_of kvs k = Some n \<Longrightarrow> bytes_of (AList.delete k kvs) = bytes_of kvs - n \<and>
     salt_sum salt (AList.delete k kvs) = salt_sum salt kvs - (if cache_salt k = salt then n else 0)"
proof (induction kvs)
  case (Cons p kvs)
  obtain j m where p: "p = (j, m)" by (cases p)
  show ?case
  proof (cases "j = k")
    case True
    with Cons.prems p have "map_of kvs k = None" "m = n" by (auto simp: map_of_eq_None_iff)
    with True p show ?thesis by (simp add: dict_delete_absent)
  next
    case False
    with Cons p show ?thesis by auto
  qed
qed simp

lemma salt_bytes_update [simp]: "salt_bytes (AList.update s n d) salt = (if salt = s then n else salt_bytes d salt)"
  by (simp add: salt_bytes_def)

lemma salt_bytes_delete [simp]: "salt_bytes (AList.delete s d) salt = (if salt = s then 0 else salt_bytes d salt)"
  by (simp add: salt_bytes_def)

lemma salt_bytes_absent: "salt \<notin> fst ` set d \<Longrightarrow> salt_bytes d salt = 0"
  by (simp add: salt_bytes_def iffD2[OF map_of_eq_None_iff])

lemma salt_deltas_law:
  "dict_ok delta \<Longrightarrow> case salt_deltas kvs delta t of (delta', t') \<Rightarrow>
     dict_ok delta' \<and> t' = t + bytes_of kvs \<and> salt_bytes delta' salt = salt_bytes delta salt + salt_sum salt kvs"
proof (induction kvs delta t rule: salt_deltas.induct)
  case (2 key size rest delta t)
  then show ?case by (auto split: prod.splits)
qed simp

lemma add_deltas_law:
  "dict_ok delta \<Longrightarrow> salt_bytes (fold add_delta delta b) salt = salt_bytes b salt + salt_bytes delta salt"
proof (induction delta arbitrary: b)
  case (Cons p delta)
  obtain s d where p: "p = (s, d)" by (cases p)
  with Cons.prems have "salt = s \<Longrightarrow> salt_bytes delta salt = 0"
    by (auto intro: salt_bytes_absent)
  with Cons p show ?case by (auto simp: add_delta_def salt_bytes_def)
qed (simp add: salt_bytes_def)

lemma sub_deltas_law:
  "dict_ok delta \<Longrightarrow> 0 \<le> salt_bytes b salt \<Longrightarrow> salt_bytes delta salt \<le> salt_bytes b salt \<Longrightarrow>
     salt_bytes (fold sub_delta delta b) salt = salt_bytes b salt - salt_bytes delta salt"
proof (induction delta arbitrary: b)
  case (Cons p delta)
  obtain s d where p: "p = (s, d)" by (cases p)
  let ?b = "sub_delta p b"
  have zero: "salt_bytes delta salt = 0" if "salt = s"
    using Cons.prems(1) p that by (auto intro: salt_bytes_absent)
  have b: "salt_bytes ?b salt = (if salt = s then salt_bytes b salt - d else salt_bytes b salt)"
    using Cons.prems(3) by (auto simp: p sub_delta_def Let_def salt_bytes_def)
  have "salt_bytes (fold sub_delta delta ?b) salt = salt_bytes ?b salt - salt_bytes delta salt"
    using Cons.prems zero b p by (intro Cons.IH) (auto simp: salt_bytes_def split: if_splits)
  with b zero p show ?case by (auto simp: salt_bytes_def)
qed (simp add: salt_bytes_def)

lemma deltas_ok:
  "dict_ok b \<Longrightarrow> dict_ok (fold add_delta delta b)" "dict_ok b \<Longrightarrow> dict_ok (fold sub_delta delta b)"
  by (induction delta arbitrary: b) (auto simp: add_delta_def sub_delta_def Let_def split: prod.splits)

section \<open>Exactness\<close>

text \<open>
  \<open>ledger kvs added gone a\<close>: the counters are the sums over the table \<open>kvs\<close>, except that the batch
  \<open>added\<close> has not been added yet and the batch \<open>gone\<close> not been subtracted yet.
\<close>

definition ledger ::
  "(object_key, int) dict \<Rightarrow> (object_key \<times> int) list \<Rightarrow> (object_key \<times> int) list \<Rightarrow> 'x l2_base_scheme \<Rightarrow> bool" where
  "ledger kvs added gone a \<longleftrightarrow> dict_ok (bytes_by_cache_salt a) \<and>
     total_bytes_used a = bytes_of kvs - bytes_of added + bytes_of gone \<and>
     (\<forall>salt. salt_bytes (bytes_by_cache_salt a) salt = salt_sum salt kvs - salt_sum salt added + salt_sum salt gone)"

lemma account_stored_law:
  assumes "ledger kvs (zip keys sizes) gone a" "length keys = length sizes"
  obtains a' where "account_stored keys sizes a = Inr a'" "ledger kvs [] gone a'"
    "a' = a\<lparr>total_bytes_used := total_bytes_used a', bytes_by_cache_salt := bytes_by_cache_salt a'\<rparr>"
proof -
  obtain delta t where d: "salt_deltas (zip keys sizes) [] 0 = (delta, t)" by force
  have law: "dict_ok delta" "t = bytes_of (zip keys sizes)" "salt_bytes delta salt = salt_sum salt (zip keys sizes)" for salt
    using salt_deltas_law[where delta = "[]" and kvs = "zip keys sizes" and t = 0 and salt = salt] d by (auto simp: salt_bytes_def)
  let ?a = "a\<lparr>total_bytes_used := total_bytes_used a + t, bytes_by_cache_salt := fold add_delta delta (bytes_by_cache_salt a)\<rparr>"
  have "account_stored keys sizes a = Inr ?a" using assms(2) d by (simp add: account_stored_def)
  moreover have "ledger kvs [] gone ?a" using assms(1) law by (simp add: ledger_def add_deltas_law deltas_ok)
  ultimately show ?thesis by (rule that) simp
qed

lemma account_deleted_law:
  assumes "ledger kvs [] (zip keys sizes) a" "length keys = length sizes"
    and "\<forall>n \<in> set (dict_values kvs). 0 \<le> n" "\<forall>n \<in> set sizes. 0 \<le> n"
  obtains a' where "account_deleted keys sizes a = Inr a'" "ledger kvs [] [] a'"
    "a' = a\<lparr>total_bytes_used := total_bytes_used a', bytes_by_cache_salt := bytes_by_cache_salt a'\<rparr>"
proof -
  obtain delta t where d: "salt_deltas (zip keys sizes) [] 0 = (delta, t)" by force
  have law: "dict_ok delta" "t = bytes_of (zip keys sizes)" "salt_bytes delta salt = salt_sum salt (zip keys sizes)" for salt
    using salt_deltas_law[where delta = "[]" and kvs = "zip keys sizes" and t = 0 and salt = salt] d by (auto simp: salt_bytes_def)
  let ?a = "a\<lparr>total_bytes_used := total_bytes_used a - t, bytes_by_cache_salt := fold sub_delta delta (bytes_by_cache_salt a)\<rparr>"
  have pos: "0 \<le> bytes_of kvs" "0 \<le> salt_sum salt kvs" "0 \<le> salt_sum salt (zip keys sizes)" for salt
    using sums_nonneg[OF assms(3), of salt] sums_nonneg[of "zip keys sizes" salt] assms(2,4) by auto
  have "total_bytes_used a - t \<ge> 0" using assms(1) law(2) pos(1) by (simp add: ledger_def)
  then have "account_deleted keys sizes a = Inr ?a" using assms(2) d by (simp add: account_deleted_def Let_def)
  moreover have "salt_bytes (fold sub_delta delta (bytes_by_cache_salt a)) salt = salt_sum salt kvs" for salt
    using sub_deltas_law[OF law(1), of "bytes_by_cache_salt a" salt] assms(1) law(3)[of salt] pos(2,3)[of salt] by (simp add: ledger_def)
  then have "ledger kvs [] [] ?a" using assms(1) law(2) by (simp add: ledger_def deltas_ok)
  ultimately show ?thesis by (rule that) simp
qed

text \<open>What the usage snapshot then says.\<close>

definition usage_exact :: "(object_key, int) dict \<Rightarrow> adapter_usage \<Rightarrow> bool" where
  "usage_exact kvs u \<longleftrightarrow> au_total_bytes_used u = bytes_of kvs \<and> dict_ok (au_bytes_by_cache_salt u) \<and>
     (\<forall>salt. map_of (au_bytes_by_cache_salt u) salt = (if salt_sum salt kvs > 0 then Some (salt_sum salt kvs) else None))"

lemma map_of_filter_values: "dict_ok d \<Longrightarrow> map_of (filter (\<lambda>(k, v). P v) d) k = (case map_of d k of Some v \<Rightarrow> if P v then Some v else None | None \<Rightarrow> None)"
  by (induction d) (auto simp: map_of_eq_None_iff split: option.splits)

lemma ledger_usage: "ledger kvs [] [] a \<Longrightarrow> usage_exact kvs (get_usage a)"
proof -
  assume l: "ledger kvs [] [] a"
  then have ok: "dict_ok (bytes_by_cache_salt a)" by (simp add: ledger_def)
  have "map_of (filter (\<lambda>(k, v). v > 0) (bytes_by_cache_salt a)) salt =
      (if salt_sum salt kvs > 0 then Some (salt_sum salt kvs) else None)" for salt
  proof -
    from l have "salt_bytes (bytes_by_cache_salt a) salt = salt_sum salt kvs" by (simp add: ledger_def)
    then show ?thesis using map_of_filter_values[OF ok, of "\<lambda>v. v > 0" salt] by (auto simp: salt_bytes_def split: option.splits)
  qed
  with l ok show ?thesis by (simp add: usage_exact_def get_usage_def ledger_def distinct_map_filter)
qed

end
