(* ===== verification/Bitmaps.thy ===== *)
theory Bitmaps
  imports Prelude "HOL-Library.Word"
begin

text \<open>
  The native bitmap of \<open>csrc/lmcache_native/bitmap.cpp\<close> that the storage controllers use to track
  which keys were found, locked or loaded: a vector of bytes with the bits of index \<open>i\<close> in byte
  \<open>i div 8\<close>. The abstraction \<open>bits\<close> is the list of its truth values; every operation is shown to do
  on the bytes what it should do on that list. Indices and sizes are \<open>size_t\<close> values well below
  \<open>2 ^ 64\<close> and are kept as naturals.
\<close>

unbundle bit_operations_syntax

section \<open>Bytes\<close>

definition kBitsPerByte :: nat where
  "kBitsPerByte = 8"

definition byte_index :: "nat \<Rightarrow> nat" where
  "byte_index bit_index = bit_index div kBitsPerByte"

definition bit_offset :: "nat \<Rightarrow> nat" where
  "bit_offset bit_index = bit_index mod kBitsPerByte"

text \<open>The conversion to \<open>uint8_t\<close> of the \<open>unsigned\<close> expressions, and the compiler's bit-counting built-ins.\<close>

definition uint8 :: "32 word \<Rightarrow> 8 word" where
  "uint8 w = ucast w"

definition builtin_popcount :: "32 word \<Rightarrow> nat" where
  "builtin_popcount w = length (filter (bit w) [0..<32])"

definition builtin_ctz :: "32 word \<Rightarrow> nat" where
  "builtin_ctz w = length (takeWhile (\<lambda>n. \<not> bit w n) [0..<32])"

definition builtin_clz :: "32 word \<Rightarrow> nat" where
  "builtin_clz w = length (takeWhile (\<lambda>n. \<not> bit w (31 - n)) [0..<32])"

section \<open>The class\<close>

record bitmap =
  bm_size :: nat
  bm_data :: "8 word list"

definition bm_new :: "nat \<Rightarrow> bitmap" where
  "bm_new n = \<lparr>bm_size = n, bm_data = replicate (if n = 0 then 0 else (n - 1) div kBitsPerByte + 1) 0\<rparr>"

definition bm_prefix :: "nat \<Rightarrow> nat \<Rightarrow> bitmap" where
  "bm_prefix n prefix_bits =
     (let bm = bm_new n in
      if prefix_bits = 0 \<or> n = 0 then bm
      else let prefix_bits = (if prefix_bits > n then n else prefix_bits);
               full_bytes = prefix_bits div kBitsPerByte;
               data = fold (\<lambda>i d. d[i := 0xFF]) [0..<full_bytes] (bm_data bm);
               remaining = prefix_bits mod kBitsPerByte
           in bm\<lparr>bm_data := (if remaining > 0 then data[full_bytes := uint8 (push_bit remaining 1 - 1)] else data)\<rparr>)"

definition bm_set :: "nat \<Rightarrow> bitmap \<Rightarrow> bitmap" where
  "bm_set index bm =
     (if index \<ge> bm_size bm then bm
      else let i = byte_index index in
        bm\<lparr>bm_data := (bm_data bm)[i := bm_data bm ! i OR uint8 (push_bit (bit_offset index) 1)]\<rparr>)"

definition bm_batched_set :: "nat list \<Rightarrow> bitmap \<Rightarrow> bitmap" where
  "bm_batched_set indices bm = fold bm_set indices bm"

definition bm_set_range :: "nat \<Rightarrow> nat \<Rightarrow> bitmap \<Rightarrow> bitmap" where
  "bm_set_range start end0 bm =
     (let end1 = (if end0 > bm_size bm then bm_size bm else end0) in
      if start \<ge> end1 then bm
      else
        let first_byte = start div kBitsPerByte;
            last_byte = (end1 - 1) div kBitsPerByte;
            head_low = bit_offset start
        in if first_byte = last_byte
           then let width = end1 - start;
                    m = uint8 (push_bit head_low (push_bit width 1 - 1))
                in bm\<lparr>bm_data := (bm_data bm)[first_byte := bm_data bm ! first_byte OR m]\<rparr>
           else
             let d1 = (bm_data bm)[first_byte := bm_data bm ! first_byte OR uint8 (push_bit head_low 0xFF)];
                 d2 = fold (\<lambda>i d. d[i := 0xFF]) [first_byte + 1..<last_byte] d1;
                 tail_width = end1 - last_byte * kBitsPerByte
             in bm\<lparr>bm_data := d2[last_byte := d2 ! last_byte OR uint8 (push_bit tail_width 1 - 1)]\<rparr>)"

definition bm_clear :: "nat \<Rightarrow> bitmap \<Rightarrow> bitmap" where
  "bm_clear index bm =
     (if index \<ge> bm_size bm then bm
      else let i = byte_index index in
        bm\<lparr>bm_data := (bm_data bm)[i := bm_data bm ! i AND uint8 (NOT (push_bit (bit_offset index) 1))]\<rparr>)"

definition bm_test :: "bitmap \<Rightarrow> nat \<Rightarrow> bool" where
  "bm_test bm index \<longleftrightarrow>
     (if index \<ge> bm_size bm then False
      else (drop_bit (bit_offset index) (ucast (bm_data bm ! byte_index index)) AND 1) \<noteq> (0 :: 32 word))"

definition bm_popcount :: "bitmap \<Rightarrow> nat" where
  "bm_popcount bm =
     (if bm_data bm = [] then 0
      else let num_full_bytes = bm_size bm div kBitsPerByte;
               full_count = sum_list (map (\<lambda>i. builtin_popcount (ucast (bm_data bm ! i))) [0..<num_full_bytes]);
               remaining_bits = bm_size bm mod kBitsPerByte
           in if remaining_bits > 0
              then full_count + builtin_popcount (ucast (last (bm_data bm) AND uint8 (push_bit remaining_bits 1 - 1)))
              else full_count)"

text \<open>The loop of \<open>clz\<close> over the full bytes; the second component says whether it has returned.\<close>

fun clz_loop :: "8 word list \<Rightarrow> nat \<Rightarrow> nat \<times> bool" where
  "clz_loop [] n = (n, False)"
| "clz_loop (b # bs) n = (if b = 0 then clz_loop bs (n + kBitsPerByte) else (n + builtin_ctz (ucast b), True))"

definition bm_clz :: "bitmap \<Rightarrow> nat" where
  "bm_clz bm =
     (if bm_size bm = 0 then 0
      else let num_full_bytes = bm_size bm div kBitsPerByte;
               (n, returned) = clz_loop (take num_full_bytes (bm_data bm)) 0;
               remaining_bits = bm_size bm mod kBitsPerByte
           in if returned then n
              else if remaining_bits > 0
              then let last_byte = last (bm_data bm) AND uint8 (push_bit remaining_bits 1 - 1)
                   in if last_byte = 0 then n + remaining_bits else n + builtin_ctz (ucast last_byte)
              else n)"

definition bm_not :: "bitmap \<Rightarrow> bitmap" where
  "bm_not bm =
     (let data = map NOT (bm_data bm);
          remaining_bits = bm_size bm mod kBitsPerByte
      in \<lparr>bm_size = bm_size bm,
          bm_data = (if remaining_bits > 0
                     then data[length data - 1 := last data AND uint8 (push_bit remaining_bits 1 - 1)] else data)\<rparr>)"

definition bm_clo :: "bitmap \<Rightarrow> nat" where
  "bm_clo bm = bm_clz (bm_not bm)"

text \<open>The scan of \<open>highest_set_bit\<close>, from the last byte down.\<close>

fun highest_loop :: "8 word list \<Rightarrow> nat \<Rightarrow> int" where
  "highest_loop data 0 = - 1"
| "highest_loop data (Suc byte) =
     (let value = data ! byte in
      if value \<noteq> 0 then int (byte * kBitsPerByte + (31 - builtin_clz (ucast value))) else highest_loop data byte)"

definition bm_highest_set_bit :: "bitmap \<Rightarrow> int" where
  "bm_highest_set_bit bm = highest_loop (bm_data bm) (length (bm_data bm))"

definition bm_and :: "bitmap \<Rightarrow> bitmap \<Rightarrow> bitmap" where
  "bm_and a b =
     (let result = bm_new (if bm_size a \<le> bm_size b then bm_size a else bm_size b)
      in result\<lparr>bm_data := map (\<lambda>i. bm_data a ! i AND bm_data b ! i) [0..<length (bm_data result)]\<rparr>)"

definition bm_or :: "bitmap \<Rightarrow> bitmap \<Rightarrow> bitmap" where
  "bm_or a b =
     (let result = bm_new (if bm_size a \<le> bm_size b then bm_size a else bm_size b)
      in result\<lparr>bm_data := map (\<lambda>i. bm_data a ! i OR bm_data b ! i) [0..<length (bm_data result)]\<rparr>)"

text \<open>The \<open>while\<close> loop of \<open>get_indices\<close>: take the lowest set bit, then clear it.\<close>

lemma clear_lowest_less: "(b :: 8 word) \<noteq> 0 \<Longrightarrow> unat (b AND (b - 1)) < unat b"
proof -
  assume "b \<noteq> 0"
  then have "b - 1 < b" by (simp add: word_less_nat_alt unat_minus_one word_neq_0_conv)
  moreover have "b AND (b - 1) \<le> b - 1" by (rule word_and_le1)
  ultimately show ?thesis by (simp add: word_less_nat_alt word_le_nat_alt)
qed

function byte_indices :: "nat \<Rightarrow> nat \<Rightarrow> 8 word \<Rightarrow> nat list" where
  "byte_indices n i b =
     (if b \<noteq> 0
      then let idx = i * kBitsPerByte + builtin_ctz (ucast b)
           in (if idx < n then [idx] else []) @ byte_indices n i (b AND (b - 1))
      else [])"
  by pat_completeness auto
termination
  by (relation "measure (\<lambda>(n, i, b). unat b)") (simp_all add: clear_lowest_less)

declare byte_indices.simps [simp del]

definition bm_get_indices :: "bitmap \<Rightarrow> nat list" where
  "bm_get_indices bm = concat (map (\<lambda>i. byte_indices (bm_size bm) i (bm_data bm ! i)) [0..<length (bm_data bm)])"

definition bm_to_string :: "bitmap \<Rightarrow> string" where
  "bm_to_string bm =
     (if bm_size bm = 0 then ''''
      else fold (\<lambda>(i, j) s. if i * kBitsPerByte + j < bm_size bm \<and> (drop_bit j (ucast (bm_data bm ! i)) AND 1) \<noteq> (0 :: 32 word)
                         then s[i * kBitsPerByte + j := CHR ''1''] else s)
             (List.product [0..<length (bm_data bm)] [0..<kBitsPerByte]) (replicate (bm_size bm) (CHR ''0'')))"

section \<open>Bits\<close>

lemma and_one_iff: "(w AND 1) \<noteq> (0 :: 32 word) \<longleftrightarrow> bit w 0"
  by (simp add: and_one_eq bit_0 even_iff_mod_2_eq_zero)

lemma test_bit_byte: "n < 8 \<Longrightarrow> (drop_bit n (ucast (b :: 8 word)) AND 1) \<noteq> (0 :: 32 word) \<longleftrightarrow> bit b n"
  by (simp add: and_one_iff bit_simps)

lemma bit_uint8 [simp]: "bit (uint8 w) n \<longleftrightarrow> n < 8 \<and> bit w n"
  by (simp add: uint8_def bit_simps)

lemma bit_low_mask: "n < 32 \<Longrightarrow> bit (push_bit k 1 - 1 :: 32 word) n \<longleftrightarrow> n < k"
proof -
  have "push_bit k 1 - 1 = (mask k :: 32 word)" by (simp add: mask_eq_exp_minus_1 push_bit_eq_mult)
  then show "n < 32 \<Longrightarrow> ?thesis" by (simp add: bit_mask_iff)
qed

text \<open>The stored bit, whether or not its index is below the size.\<close>

definition raw_bit :: "8 word list \<Rightarrow> nat \<Rightarrow> bool" where
  "raw_bit data i \<longleftrightarrow> bit (data ! (i div 8)) (i mod 8)"

lemma raw_bit_update:
  "j < length data \<Longrightarrow> raw_bit (data[j := b]) i = (if i div 8 = j then bit b (i mod 8) else raw_bit data i)"
  by (auto simp: raw_bit_def nth_list_update)

lemma raw_bit_fill:
  "raw_bit (fold (\<lambda>i d. d[i := 0xFF]) [m..<n] data) i = ((m \<le> i div 8 \<and> i div 8 < n \<and> i div 8 < length data) \<or> raw_bit data i)"
  "length (fold (\<lambda>i d. d[i := 0xFF]) [m..<n] data) = length data"
proof (induction n)
  case (Suc n)
  have "(0xFF :: 8 word) = - 1" by simp
  then have ff: "bit (0xFF :: 8 word) (i mod 8)" by (simp only: bit_minus_1_iff) simp
  {
    case 1
    show ?case
    proof (cases "m \<le> n \<and> n < length data")
      case True
      with Suc ff show ?thesis by (auto simp: raw_bit_update less_Suc_eq)
    next
      case False
      with Suc show ?thesis by (auto simp: less_Suc_eq list_update_beyond)
    qed
  next
    case 2
    with Suc show ?case by simp
  }
qed auto

definition data_len :: "nat \<Rightarrow> nat" where
  "data_len n = (n + 7) div 8"

lemma data_len_eq: "data_len n = (if n = 0 then 0 else (n - 1) div kBitsPerByte + 1)"
  by (auto simp: data_len_def kBitsPerByte_def)

lemma data_len_less: "i < n \<Longrightarrow> i div 8 < data_len n"
  by (simp add: data_len_def)

lemma bm_test_iff: "bm_test bm i \<longleftrightarrow> i < bm_size bm \<and> raw_bit (bm_data bm) i"
  by (simp add: bm_test_def raw_bit_def byte_index_def bit_offset_def kBitsPerByte_def test_bit_byte)

text \<open>The invariant of the class: as many bytes as the size needs, and no bit set beyond the size.\<close>

definition bm_ok :: "bitmap \<Rightarrow> bool" where
  "bm_ok bm \<longleftrightarrow> length (bm_data bm) = data_len (bm_size bm) \<and>
     list_all (\<lambda>i. i < bm_size bm \<or> \<not> raw_bit (bm_data bm) i) [0..<8 * length (bm_data bm)]"

lemma bm_okI:
  "length (bm_data bm) = data_len (bm_size bm) \<Longrightarrow>
     (\<And>i. i div 8 < data_len (bm_size bm) \<Longrightarrow> raw_bit (bm_data bm) i \<Longrightarrow> i < bm_size bm) \<Longrightarrow> bm_ok bm"
  by (auto simp: bm_ok_def list_all_iff)

lemma bm_okD:
  "bm_ok bm \<Longrightarrow> length (bm_data bm) = data_len (bm_size bm)"
  "bm_ok bm \<Longrightarrow> i div 8 < data_len (bm_size bm) \<Longrightarrow> raw_bit (bm_data bm) i \<Longrightarrow> i < bm_size bm"
  by (auto simp: bm_ok_def list_all_iff div_less_iff_less_mult mult.commute)

text \<open>The truth values of a bitmap.\<close>

definition bits :: "bitmap \<Rightarrow> bool list" where
  "bits bm = map (bm_test bm) [0..<bm_size bm]"

lemma length_bits [simp]: "length (bits bm) = bm_size bm"
  by (simp add: bits_def)

lemma nth_bits [simp]: "i < bm_size bm \<Longrightarrow> bits bm ! i = raw_bit (bm_data bm) i"
  by (simp add: bits_def bm_test_iff)

lemma bits_eqI: "bm_size bm = length xs \<Longrightarrow> (\<And>i. i < length xs \<Longrightarrow> raw_bit (bm_data bm) i = xs ! i) \<Longrightarrow> bits bm = xs"
  by (rule nth_equalityI) simp_all

section \<open>What the mutators do to the stored bits\<close>

lemma divmod8_eq: "i div 8 = k div 8 \<and> i mod 8 = k mod (8 :: nat) \<longleftrightarrow> i = k"
  by (metis div_mult_mod_eq)

lemma bm_new_data: "bm_data (bm_new n) = replicate (data_len n) 0" "bm_size (bm_new n) = n"
  by (simp_all add: bm_new_def data_len_eq)

lemma bm_new_raw: "i div 8 < data_len n \<Longrightarrow> \<not> raw_bit (bm_data (bm_new n)) i"
  by (simp add: bm_new_data raw_bit_def)

lemma bm_set_raw:
  assumes "length (bm_data bm) = data_len (bm_size bm)"
  shows "raw_bit (bm_data (bm_set k bm)) i \<longleftrightarrow> raw_bit (bm_data bm) i \<or> (i = k \<and> k < bm_size bm)"
proof (cases "k < bm_size bm")
  case True
  with assms have k: "k div 8 < length (bm_data bm)" by (simp add: data_len_less)
  have m: "bit (uint8 (push_bit (k mod 8) 1)) (i mod 8) \<longleftrightarrow> i mod 8 = k mod 8" by (auto simp: bit_simps bit_1_iff)
  have "raw_bit (bm_data (bm_set k bm)) i =
      (if i div 8 = k div 8 then bit (bm_data bm ! (k div 8) OR uint8 (push_bit (k mod 8) 1)) (i mod 8) else raw_bit (bm_data bm) i)"
    using True k by (simp add: bm_set_def Let_def byte_index_def bit_offset_def kBitsPerByte_def raw_bit_update)
  with True divmod8_eq[of i k] show ?thesis unfolding bit_or_iff m by (auto simp: raw_bit_def)
qed (simp add: bm_set_def)

lemma bm_clear_raw:
  assumes "length (bm_data bm) = data_len (bm_size bm)"
  shows "raw_bit (bm_data (bm_clear k bm)) i \<longleftrightarrow> raw_bit (bm_data bm) i \<and> \<not> (i = k \<and> k < bm_size bm)"
proof (cases "k < bm_size bm")
  case True
  with assms have k: "k div 8 < length (bm_data bm)" by (simp add: data_len_less)
  have "i mod 8 < 32" by (rule less_trans[of _ 8]) simp_all
  then have m: "bit (uint8 (NOT (push_bit (k mod 8) 1))) (i mod 8) \<longleftrightarrow> i mod 8 \<noteq> k mod 8" by (auto simp: bit_simps bit_1_iff)
  have "raw_bit (bm_data (bm_clear k bm)) i =
      (if i div 8 = k div 8 then bit (bm_data bm ! (k div 8) AND uint8 (NOT (push_bit (k mod 8) 1))) (i mod 8) else raw_bit (bm_data bm) i)"
    using True k by (simp add: bm_clear_def Let_def byte_index_def bit_offset_def kBitsPerByte_def raw_bit_update)
  with True divmod8_eq[of i k] show ?thesis unfolding bit_and_iff m by (auto simp: raw_bit_def)
qed (simp add: bm_clear_def)

lemma bm_mutators_size [simp]:
  "bm_size (bm_set k bm) = bm_size bm" "length (bm_data (bm_set k bm)) = length (bm_data bm)"
  "bm_size (bm_clear k bm) = bm_size bm" "length (bm_data (bm_clear k bm)) = length (bm_data bm)"
  "bm_size (bm_set_range s e bm) = bm_size bm" "length (bm_data (bm_set_range s e bm)) = length (bm_data bm)"
  by (simp_all add: bm_set_def bm_clear_def bm_set_range_def Let_def raw_bit_fill(2))

text \<open>The masks of \<open>set_range\<close>: one byte, the first of several, the last of several.\<close>

lemma bit_range_mask: "n < 8 \<Longrightarrow> bit (uint8 (push_bit h (push_bit w 1 - 1))) n \<longleftrightarrow> h \<le> n \<and> n < h + w"
  using bit_low_mask[of "n - h" w] by (auto simp: bit_simps)

lemma bit_head_mask: "n < 8 \<Longrightarrow> bit (uint8 (push_bit h 0xFF)) n \<longleftrightarrow> h \<le> n"
proof -
  have "(0xFF :: 32 word) = push_bit 8 1 - 1" by simp
  then show "n < 8 \<Longrightarrow> ?thesis" using bit_range_mask[of n h 8] by (metis trans_less_add2)
qed

lemma bit_tail_mask: "n < 8 \<Longrightarrow> bit (uint8 (push_bit w 1 - 1)) n \<longleftrightarrow> n < w"
  using bit_range_mask[of n 0 w] by simp

lemma one_byte_range:
  fixes s e i :: nat
  assumes "s < e" "s div 8 = (e - 1) div 8"
  shows "(i div 8 = s div 8 \<and> s mod 8 \<le> i mod 8 \<and> i mod 8 < s mod 8 + (e - s)) \<longleftrightarrow> s \<le> i \<and> i < e"
proof -
  define q a p b c where "q = s div 8" and "a = s mod 8" and "p = i div 8" and "b = i mod 8" and "c = (e - 1) mod 8"
  have s: "s = 8 * q + a" "a < 8" and i: "i = 8 * p + b" "b < 8" and e: "e = 8 * q + c + 1" "c < 8"
    using assms div_mult_mod_eq[of "e - 1" 8] div_mult_mod_eq[of s 8] by (simp_all add: q_def a_def p_def b_def c_def)
  have "(p = q \<and> a \<le> b \<and> b < a + (e - s)) \<longleftrightarrow> s \<le> i \<and> i < e"
    using s i e assms(1) by (cases p q rule: linorder_cases) auto
  then show ?thesis by (simp add: q_def a_def p_def b_def)
qed

lemma many_byte_range:
  fixes s e i :: nat
  assumes "s < e" "s div 8 < (e - 1) div 8"
  shows "(s div 8 < i div 8 \<and> i div 8 < (e - 1) div 8 \<or> i div 8 = s div 8 \<and> s mod 8 \<le> i mod 8 \<or>
      i div 8 = (e - 1) div 8 \<and> i mod 8 < e - (e - 1) div 8 * 8) \<longleftrightarrow> s \<le> i \<and> i < e"
proof -
  define q a p b l c where "q = s div 8" and "a = s mod 8" and "p = i div 8" and "b = i mod 8" and "l = (e - 1) div 8" and "c = (e - 1) mod 8"
  have s: "s = 8 * q + a" "a < 8" and i: "i = 8 * p + b" "b < 8" and e: "e = 8 * l + c + 1" "c < 8" and ql: "q < l"
    using assms div_mult_mod_eq[of "e - 1" 8] by (simp_all add: q_def a_def p_def b_def c_def l_def)
  have "(q < p \<and> p < l \<or> p = q \<and> a \<le> b \<or> p = l \<and> b < e - l * 8) \<longleftrightarrow> s \<le> i \<and> i < e"
    using s i e ql by (cases p q rule: linorder_cases; cases p l rule: linorder_cases) auto
  then show ?thesis by (simp add: q_def a_def p_def b_def l_def)
qed

lemma bm_set_range_raw:
  assumes len: "length (bm_data bm) = data_len (bm_size bm)"
  shows "raw_bit (bm_data (bm_set_range s e bm)) i \<longleftrightarrow> raw_bit (bm_data bm) i \<or> (s \<le> i \<and> i < e \<and> i < bm_size bm)"
proof -
  define e1 where "e1 = (if e > bm_size bm then bm_size bm else e)"
  have e1: "(s \<le> i \<and> i < e \<and> i < bm_size bm) \<longleftrightarrow> s \<le> i \<and> i < e1" "e1 \<le> bm_size bm" by (auto simp: e1_def)
  show ?thesis
  proof (cases "s < e1")
    case False
    then show ?thesis using e1 by (auto simp: bm_set_range_def Let_def e1_def)
  next
    case True
    define f l where "f = s div 8" and "l = (e1 - 1) div 8"
    have l: "l < length (bm_data bm)" using True e1(2) data_len_less[of "e1 - 1" "bm_size bm"] by (simp add: len l_def)
    have fl: "f \<le> l" using True by (simp add: f_def l_def div_le_mono)
    have r: "i mod 8 < 8" by simp
    show ?thesis
    proof (cases "f = l")
      case eq: True
      have "(i div 8 = f \<and> s mod 8 \<le> i mod 8 \<and> i mod 8 < s mod 8 + (e1 - s)) \<longleftrightarrow> s \<le> i \<and> i < e1"
        using one_byte_range[OF True] eq unfolding f_def l_def by simp
      moreover have "raw_bit (bm_data (bm_set_range s e bm)) i = (if i div 8 = f
          then bit (bm_data bm ! f OR uint8 (push_bit (s mod 8) (push_bit (e1 - s) 1 - 1))) (i mod 8) else raw_bit (bm_data bm) i)"
        using True eq l unfolding bm_set_range_def Let_def kBitsPerByte_def bit_offset_def e1_def[symmetric] f_def[symmetric] l_def[symmetric]
        by (simp add: raw_bit_update)
      ultimately show ?thesis unfolding bit_or_iff bit_range_mask[OF r] e1(1) by (auto simp: raw_bit_def)
    next
      case ne: False
      then have lt: "f < l" using fl by simp
      let ?d1 = "(bm_data bm)[f := bm_data bm ! f OR uint8 (push_bit (s mod 8) 0xFF)]"
      let ?d2 = "fold (\<lambda>i d. d[i := 0xFF]) [f + 1..<l] ?d1"
      have eq: "bm_data (bm_set_range s e bm) = ?d2[l := ?d2 ! l OR uint8 (push_bit (e1 - l * 8) 1 - 1)]"
        using True ne unfolding bm_set_range_def Let_def kBitsPerByte_def bit_offset_def e1_def[symmetric] f_def[symmetric] l_def[symmetric] by simp
      have "raw_bit (bm_data (bm_set_range s e bm)) i = (raw_bit ?d2 i \<or> i div 8 = l \<and> i mod 8 < e1 - l * 8)"
        unfolding eq using l by (simp add: raw_bit_update raw_bit_fill(2) bit_or_iff bit_tail_mask[OF r] del: bit_uint8 push_bit_of_1) (auto simp: raw_bit_def)
      also have "raw_bit ?d2 i = (f < i div 8 \<and> i div 8 < l \<or> raw_bit ?d1 i)"
        using l by (auto simp: raw_bit_fill(1))
      also have "raw_bit ?d1 i = (raw_bit (bm_data bm) i \<or> i div 8 = f \<and> s mod 8 \<le> i mod 8)"
        using l lt by (simp add: raw_bit_update bit_or_iff bit_head_mask[OF r] del: bit_uint8 push_bit_of_1) (auto simp: raw_bit_def)
      finally have "raw_bit (bm_data (bm_set_range s e bm)) i = (raw_bit (bm_data bm) i \<or>
        (f < i div 8 \<and> i div 8 < l \<or> i div 8 = f \<and> s mod 8 \<le> i mod 8 \<or> i div 8 = l \<and> i mod 8 < e1 - l * 8))" by blast
      moreover have "(f < i div 8 \<and> i div 8 < l \<or> i div 8 = f \<and> s mod 8 \<le> i mod 8 \<or> i div 8 = l \<and> i mod 8 < e1 - l * 8) \<longleftrightarrow> s \<le> i \<and> i < e1"
        using many_byte_range[OF True] lt unfolding f_def l_def by simp
      ultimately show ?thesis by (simp add: e1(1))
    qed
  qed
qed

section \<open>The other constructors and operators\<close>

lemma less_divmod8:
  fixes i n :: nat
  shows "i < n \<longleftrightarrow> i div 8 < n div 8 \<or> (i div 8 = n div 8 \<and> i mod 8 < n mod 8)"
proof -
  define p b q a where "p = i div 8" and "b = i mod 8" and "q = n div 8" and "a = n mod 8"
  have "i = 8 * p + b" "b < 8" "n = 8 * q + a" "a < 8" by (simp_all add: p_def b_def q_def a_def)
  then have "i < n \<longleftrightarrow> p < q \<or> (p = q \<and> b < a)" by (cases p q rule: linorder_cases) auto
  then show ?thesis by (simp add: p_def b_def q_def a_def)
qed

lemma data_len_partial: "0 < n mod 8 \<Longrightarrow> data_len n = Suc (n div 8)"
proof -
  assume "0 < n mod 8"
  then have "n div 8 * 8 + 8 \<le> n + 7" "n + 7 < n div 8 * 8 + 16"
    using div_mult_mod_eq[of n 8] mod_less_divisor[of 8 n] by linarith+
  then show ?thesis unfolding data_len_def by (intro div_nat_eqI) auto
qed

lemma data_len_full: "n mod 8 = 0 \<Longrightarrow> data_len n = n div 8"
proof -
  assume "n mod 8 = 0"
  then have "n div 8 * 8 \<le> n + 7" "n + 7 < n div 8 * 8 + 8" using div_mult_mod_eq[of n 8] by linarith+
  then show ?thesis unfolding data_len_def by (intro div_nat_eqI) auto
qed

lemma bm_prefix_raw:
  assumes "i div 8 < data_len n"
  shows "raw_bit (bm_data (bm_prefix n p)) i \<longleftrightarrow> i < p \<and> i < n"
proof (cases "p = 0 \<or> n = 0")
  case True
  then show ?thesis using bm_new_raw[OF assms] assms by (auto simp: bm_prefix_def data_len_def)
next
  case False
  define P where "P = (if p > n then n else p)"
  have P: "P \<le> n" "i < p \<and> i < n \<longleftrightarrow> i < P" by (auto simp: P_def)
  let ?d = "fold (\<lambda>i d. d[i := 0xFF]) [0..<P div 8] (bm_data (bm_new n))"
  have d: "raw_bit ?d i \<longleftrightarrow> i div 8 < P div 8" "length ?d = data_len n"
    using assms bm_new_raw[OF assms] by (auto simp: raw_bit_fill bm_new_data)
  have r: "i mod 8 < 8" by simp
  show ?thesis
  proof (cases "P mod 8 > 0")
    case True
    then have "P div 8 * 8 < P" using div_mult_mod_eq[of P 8] by linarith
    with P(1) have len: "P div 8 < length ?d" using data_len_less[of "P div 8 * 8" n] d(2) by simp
    have eq: "bm_data (bm_prefix n p) = ?d[P div 8 := uint8 (push_bit (P mod 8) 1 - 1)]"
      using False True unfolding bm_prefix_def Let_def kBitsPerByte_def P_def[symmetric] by simp
    have "raw_bit (bm_data (bm_prefix n p)) i \<longleftrightarrow> (if i div 8 = P div 8 then i mod 8 < P mod 8 else i div 8 < P div 8)"
      unfolding eq raw_bit_update[OF len] bit_tail_mask[OF r] d(1) ..
    also have "\<dots> \<longleftrightarrow> i < P" using less_divmod8[of i P] by auto
    finally show ?thesis by (simp add: P(2))
  next
    case rem: False
    then have "bm_data (bm_prefix n p) = ?d" using False unfolding bm_prefix_def Let_def kBitsPerByte_def P_def[symmetric] by simp
    moreover have "i div 8 < P div 8 \<longleftrightarrow> i < P" using rem less_divmod8[of i P] by auto
    ultimately show ?thesis using d(1) P(2) by simp
  qed
qed

lemma bm_prefix_size: "bm_size (bm_prefix n p) = n" "length (bm_data (bm_prefix n p)) = data_len n"
  by (simp_all add: bm_prefix_def Let_def bm_new_data raw_bit_fill(2))

lemma bm_not_raw:
  assumes len: "length (bm_data bm) = data_len (bm_size bm)" and i: "i div 8 < data_len (bm_size bm)"
  shows "raw_bit (bm_data (bm_not bm)) i \<longleftrightarrow> \<not> raw_bit (bm_data bm) i \<and> i < bm_size bm"
proof -
  let ?n = "bm_size bm" and ?d = "map NOT (bm_data bm)"
  have r: "i mod 8 < 8" by simp
  have neg: "raw_bit ?d i \<longleftrightarrow> \<not> raw_bit (bm_data bm) i" using i len by (simp add: raw_bit_def bit_not_iff)
  show ?thesis
  proof (cases "?n mod 8 > 0")
    case True
    have l: "length ?d - 1 = ?n div 8" "?n div 8 < length ?d" "?d \<noteq> []"
      using data_len_partial[OF True] len by auto
    then have lst: "last ?d = ?d ! (?n div 8)" by (metis last_conv_nth)
    have eq: "bm_data (bm_not bm) = ?d[?n div 8 := ?d ! (?n div 8) AND uint8 (push_bit (?n mod 8) 1 - 1)]"
      using True unfolding bm_not_def Let_def kBitsPerByte_def l(1) lst by simp
    have "raw_bit (bm_data (bm_not bm)) i \<longleftrightarrow> raw_bit ?d i \<and> (i div 8 = ?n div 8 \<longrightarrow> i mod 8 < ?n mod 8)"
      unfolding eq raw_bit_update[OF l(2)] bit_and_iff bit_tail_mask[OF r] by (simp add: raw_bit_def)
    moreover have "(i div 8 = ?n div 8 \<longrightarrow> i mod 8 < ?n mod 8) \<longleftrightarrow> i < ?n"
      using i less_divmod8[of i ?n] data_len_partial[OF True] by auto
    ultimately show ?thesis using neg by simp
  next
    case False
    then have "bm_data (bm_not bm) = ?d" unfolding bm_not_def Let_def kBitsPerByte_def by simp
    moreover have "i < ?n" using False i less_divmod8[of i ?n] data_len_full[of ?n] by auto
    ultimately show ?thesis using neg by simp
  qed
qed

lemma bm_not_size: "bm_size (bm_not bm) = bm_size bm" "length (bm_data (bm_not bm)) = length (bm_data bm)"
  by (simp_all add: bm_not_def Let_def)

lemma data_len_mono: "m \<le> n \<Longrightarrow> data_len m \<le> data_len n"
  by (simp add: data_len_def div_le_mono)

lemma bm_binop_raw:
  assumes "i div 8 < data_len (min (bm_size a) (bm_size b))"
  shows "raw_bit (bm_data (bm_and a b)) i \<longleftrightarrow> raw_bit (bm_data a) i \<and> raw_bit (bm_data b) i"
    and "raw_bit (bm_data (bm_or a b)) i \<longleftrightarrow> raw_bit (bm_data a) i \<or> raw_bit (bm_data b) i"
  using assms by (simp_all add: bm_and_def bm_or_def Let_def bm_new_data raw_bit_def min_def bit_and_iff bit_or_iff)

lemma bm_binop_size:
  "bm_size (bm_and a b) = min (bm_size a) (bm_size b)" "length (bm_data (bm_and a b)) = data_len (min (bm_size a) (bm_size b))"
  "bm_size (bm_or a b) = min (bm_size a) (bm_size b)" "length (bm_data (bm_or a b)) = data_len (min (bm_size a) (bm_size b))"
  by (simp_all add: bm_and_def bm_or_def Let_def bm_new_data min_def)

section \<open>Queries\<close>

declare upt_rec_numeral [simp del]

definition byte_bits :: "8 word \<Rightarrow> bool list" where
  "byte_bits b = map (bit b) [0..<8]"

lemma upt_blocks: "[0..<8 * m + r] = concat (map (\<lambda>j. map (\<lambda>k. 8 * j + k) [0..<8]) [0..<m]) @ map (\<lambda>k. 8 * m + k) [0..<r]"
proof -
  have add: "map (\<lambda>k. a + k) [0..<b] = [a..<a + b]" for a b :: nat
    using map_add_upt[of a b] by (simp add: add.commute)
  have "[0..<8 * m] = concat (map (\<lambda>j. map (\<lambda>k. 8 * j + k) [0..<8]) [0..<m])"
  proof (induction m)
    case (Suc m)
    have "[0..<8 * Suc m] = [0..<8 * m] @ [8 * m..<8 * m + 8]" using upt_add_eq_append[of 0 "8 * m" 8] by (simp add: add.commute)
    with Suc add[of "8 * m" 8] show ?case by simp
  qed simp
  moreover have "[0..<8 * m + r] = [0..<8 * m] @ map (\<lambda>k. 8 * m + k) [0..<r]"
    using upt_add_eq_append[of 0 "8 * m" r] add[of "8 * m" r] by simp
  ultimately show ?thesis by simp
qed

lemma bits_blocks:
  assumes len: "length (bm_data bm) = data_len (bm_size bm)"
  defines "m \<equiv> bm_size bm div 8" and "r \<equiv> bm_size bm mod 8"
  shows "bits bm = concat (map byte_bits (take m (bm_data bm))) @ take r (byte_bits (last (bm_data bm)))"
proof -
  have n: "bm_size bm = 8 * m + r" "r < 8" by (simp_all add: m_def r_def)
  have m: "m \<le> length (bm_data bm)" using len data_len_full[of "bm_size bm"] data_len_partial[of "bm_size bm"]
    by (cases "bm_size bm mod 8 = 0") (auto simp: m_def)
  have raw: "map (\<lambda>k. raw_bit (bm_data bm) (8 * j + k)) [0..<c] = map (bit (bm_data bm ! j)) [0..<c]" if "c \<le> 8" for j c
    using that by (auto simp: raw_bit_def)
  have "bits bm = map (raw_bit (bm_data bm)) [0..<bm_size bm]" by (auto simp: bits_def bm_test_iff)
  also have "\<dots> = concat (map (\<lambda>j. byte_bits (bm_data bm ! j)) [0..<m]) @ map (bit (bm_data bm ! m)) [0..<r]"
    unfolding n(1) upt_blocks map_append map_concat map_map comp_def byte_bits_def
    by (simp only: raw[OF order_refl] raw[OF less_imp_le[OF n(2)]])
  also have "map (\<lambda>j. byte_bits (bm_data bm ! j)) [0..<m] = map byte_bits (take m (bm_data bm))"
    using m by (intro nth_equalityI) auto
  also have "map (bit (bm_data bm ! m)) [0..<r] = take r (byte_bits (last (bm_data bm)))"
  proof (cases "r = 0")
    case False
    with data_len_partial[of "bm_size bm"] len have "length (bm_data bm) = Suc m" by (simp add: m_def r_def)
    then have "last (bm_data bm) = bm_data bm ! m" by (cases "bm_data bm" rule: rev_cases) auto
    with n(2) show ?thesis by (simp add: byte_bits_def take_map)
  qed simp
  finally show ?thesis .
qed

lemma upt32: "[0..<32] = [0..<8] @ [8..<32 :: nat]"
  using upt_add_eq_append[of 0 8 24] by simp

lemma popcount_byte: "builtin_popcount (ucast (b :: 8 word)) = length (filter id (byte_bits b))"
proof -
  have "filter (bit (ucast b :: 32 word)) [0..<8] = filter (bit b) [0..<8]" by (rule filter_cong) (auto simp: bit_simps)
  moreover have "filter (bit (ucast b :: 32 word)) [8..<32] = []"
    by (auto simp: filter_empty_conv bit_simps dest: bit_imp_le_length)
  ultimately show ?thesis by (simp add: builtin_popcount_def upt32 byte_bits_def filter_map comp_def)
qed

lemma byte_nonzero: "(b :: 8 word) \<noteq> 0 \<longleftrightarrow> True \<in> set (byte_bits b)"
  by (auto simp: byte_bits_def bit_eq_iff)

lemma ctz_byte:
  assumes "(b :: 8 word) \<noteq> 0"
  shows "builtin_ctz (ucast b) = length (takeWhile Not (byte_bits b))" "builtin_ctz (ucast b) < 8" "bit b (builtin_ctz (ucast b))"
    "\<And>k. k < builtin_ctz (ucast b) \<Longrightarrow> \<not> bit b k"
proof -
  obtain n where n: "n < 8" "bit b n" using assms by (auto simp: bit_eq_iff)
  have "takeWhile (\<lambda>n. \<not> bit (ucast b :: 32 word) n) [0..<32] = takeWhile (\<lambda>n. \<not> bit (ucast b :: 32 word) n) [0..<8]"
    unfolding upt32 by (rule takeWhile_append1[of n]) (use n in \<open>auto simp: bit_simps\<close>)
  also have "\<dots> = takeWhile (\<lambda>n. \<not> bit b n) [0..<8]" by (rule takeWhile_cong) (auto simp: bit_simps)
  finally have eq: "builtin_ctz (ucast b) = length (takeWhile (\<lambda>n. \<not> bit b n) [0..<8])" by (simp add: builtin_ctz_def)
  then show "builtin_ctz (ucast b) = length (takeWhile Not (byte_bits b))" by (simp add: byte_bits_def takeWhile_map comp_def)
  let ?l = "length (takeWhile (\<lambda>n. \<not> bit b n) [0..<8])"
  have le: "?l \<le> 8" using length_takeWhile_le[of "\<lambda>n. \<not> bit b n" "[0..<8]"] by simp
  have below: "\<not> bit b k" if "k < ?l" for k
  proof -
    have "takeWhile (\<lambda>n. \<not> bit b n) [0..<8] ! k = k" using takeWhile_nth[OF that] that le by simp
    with nth_mem[OF that] show ?thesis by (auto dest: set_takeWhileD)
  qed
  then have "?l \<le> n" using n(2) by (meson not_le)
  with n(1) have l: "?l < 8" by simp
  then show "builtin_ctz (ucast b) < 8" by (simp add: eq)
  show "bit b (builtin_ctz (ucast b))" using nth_length_takeWhile[of "\<lambda>n. \<not> bit b n" "[0..<8]"] l by (simp add: eq)
  show "\<not> bit b k" if "k < builtin_ctz (ucast b)" for k using below that by (simp add: eq)
qed

lemma length_byte_bits [simp]: "length (byte_bits b) = 8"
  by (simp add: byte_bits_def)

lemma masked_bits: "r < 8 \<Longrightarrow> byte_bits (b AND uint8 (push_bit r 1 - 1)) = take r (byte_bits b) @ replicate (8 - r) False"
  by (rule nth_equalityI)
    (auto simp: byte_bits_def bit_and_iff bit_tail_mask nth_append simp del: bit_uint8 push_bit_of_1)

lemma byte_bits_0: "byte_bits 0 = replicate 8 False"
  by (rule nth_equalityI) (simp_all add: byte_bits_def)

lemma popcount_bits:
  assumes len: "length (bm_data bm) = data_len (bm_size bm)"
  shows "bm_popcount bm = length (filter id (bits bm))"
proof (cases "bm_data bm = []")
  case True
  then have "bm_size bm = 0" using len by (auto simp: data_len_def)
  then have "bits bm = []" by (simp add: bits_def)
  with True show ?thesis by (simp add: bm_popcount_def)
next
  case False
  let ?m = "bm_size bm div 8" and ?r = "bm_size bm mod 8" and ?d = "bm_data bm"
  have m: "?m \<le> length ?d" using len data_len_full[of "bm_size bm"] data_len_partial[of "bm_size bm"]
    by (cases "bm_size bm mod 8 = 0") auto
  have "map (\<lambda>i. builtin_popcount (ucast (?d ! i))) [0..<?m] = map (\<lambda>b. length (filter id (byte_bits b))) (take ?m ?d)"
    using m by (intro nth_equalityI) (auto simp: popcount_byte)
  then have full: "sum_list (map (\<lambda>i. builtin_popcount (ucast (?d ! i))) [0..<?m]) = length (filter id (concat (map byte_bits (take ?m ?d))))"
    by (simp add: filter_concat length_concat comp_def)
  have rest: "builtin_popcount (ucast (last ?d AND uint8 (push_bit ?r 1 - 1))) = length (filter id (take ?r (byte_bits (last ?d))))"
    by (simp add: popcount_byte masked_bits del: push_bit_of_1)
  show ?thesis
    using False unfolding bm_popcount_def Let_def kBitsPerByte_def full rest bits_blocks[OF len] by simp
qed

lemma takeWhile_falses: "takeWhile Not (replicate n False @ xs) = replicate n False @ takeWhile Not xs"
  by (induction n) simp_all

lemma clz_loop_bits:
  "clz_loop bs n = (if \<exists>b \<in> set bs. b \<noteq> 0 then (n + length (takeWhile Not (concat (map byte_bits bs))), True) else (n + 8 * length bs, False))"
proof (induction bs arbitrary: n)
  case (Cons b bs)
  show ?case
  proof (cases "b = 0")
    case True
    with Cons show ?thesis by (simp add: byte_bits_0 kBitsPerByte_def takeWhile_falses)
  next
    case False
    then have "True \<in> set (byte_bits b)" by (simp add: byte_nonzero)
    with False ctz_byte(1)[OF False] show ?thesis by (simp add: takeWhile_append1[of True])
  qed
qed simp

lemma all_zero_bytes: "\<not> (\<exists>b \<in> set bs. b \<noteq> 0) \<Longrightarrow> concat (map byte_bits bs) = replicate (8 * length bs) False"
  by (induction bs) (simp_all add: byte_bits_0 replicate_add)

lemma clz_bits:
  assumes len: "length (bm_data bm) = data_len (bm_size bm)"
  shows "bm_clz bm = length (takeWhile Not (bits bm))"
proof (cases "bm_size bm = 0")
  case True
  then have "bits bm = []" by (simp add: bits_def)
  with True show ?thesis by (simp add: bm_clz_def)
next
  case False
  let ?m = "bm_size bm div 8" and ?r = "bm_size bm mod 8" and ?bs = "take (bm_size bm div 8) (bm_data bm)" and ?l = "last (bm_data bm)"
  let ?lb = "?l AND uint8 (push_bit ?r 1 - 1)"
  have m: "length ?bs = ?m" using len data_len_full[of "bm_size bm"] data_len_partial[of "bm_size bm"]
    by (cases "bm_size bm mod 8 = 0") auto
  have mb: "byte_bits ?lb = take ?r (byte_bits ?l) @ replicate (8 - ?r) False" by (rule masked_bits) simp
  show ?thesis
  proof (cases "\<exists>b \<in> set ?bs. b \<noteq> 0")
    case True
    then have "True \<in> set (concat (map byte_bits ?bs))" using byte_nonzero by fastforce
    with False True show ?thesis
      unfolding bm_clz_def Let_def kBitsPerByte_def bits_blocks[OF len] clz_loop_bits by (simp add: takeWhile_append1[of True])
  next
    case zero: False
    have eq: "bm_clz bm = (if ?r > 0 then if ?lb = 0 then 8 * ?m + ?r else 8 * ?m + builtin_ctz (ucast ?lb) else 8 * ?m)"
      using False zero m unfolding bm_clz_def Let_def kBitsPerByte_def clz_loop_bits by simp
    have tw: "length (takeWhile Not (bits bm)) = 8 * ?m + length (takeWhile Not (take ?r (byte_bits ?l)))"
      unfolding bits_blocks[OF len] all_zero_bytes[OF zero] m by (simp add: takeWhile_falses)
    show ?thesis
    proof (cases "?lb = 0")
      case True
      then have "True \<notin> set (take ?r (byte_bits ?l))" using byte_nonzero[of ?lb] unfolding mb by auto
      then have "takeWhile Not (take ?r (byte_bits ?l)) = take ?r (byte_bits ?l)" by (intro takeWhile_eq_all_conv[THEN iffD2]) auto
      then have "length (takeWhile Not (take ?r (byte_bits ?l))) = ?r" by (simp only: length_take length_byte_bits)
      with True tw show ?thesis unfolding eq by (auto simp: mod_eq_0_iff_dvd)
    next
      case nz: False
      then have t: "True \<in> set (take ?r (byte_bits ?l))" using byte_nonzero[of ?lb] unfolding mb by auto
      then have "0 < ?r" by (cases "?r = 0") simp_all
      moreover have "builtin_ctz (ucast ?lb) = length (takeWhile Not (take ?r (byte_bits ?l)))"
        unfolding ctz_byte(1)[OF nz] mb using takeWhile_append1[OF t, of Not] by simp
      ultimately show ?thesis using eq tw nz by simp
    qed
  qed
qed

lemma clz_byte:
  assumes "(b :: 8 word) \<noteq> 0"
  shows "31 - builtin_clz (ucast b) < 8" "bit b (31 - builtin_clz (ucast b))" "\<And>k. 31 - builtin_clz (ucast b) < k \<Longrightarrow> \<not> bit b k"
proof -
  let ?P = "\<lambda>n. \<not> bit (ucast b :: 32 word) (31 - n)" and ?w = "ucast b :: 32 word"
  let ?l = "length (takeWhile ?P [0..<32])"
  have w: "bit ?w k \<longleftrightarrow> bit b k" for k by (auto simp: bit_simps dest: bit_imp_le_length)
  obtain n where n: "n < 8" "bit b n" using assms by (auto simp: bit_eq_iff)
  have le: "?l \<le> 32" using length_takeWhile_le[of ?P "[0..<32]"] by simp
  have below: "\<not> bit b (31 - k)" if "k < ?l" for k
  proof -
    have "takeWhile ?P [0..<32] ! k = k" using takeWhile_nth[OF that] that le by simp
    with nth_mem[OF that] show ?thesis using w by (auto dest: set_takeWhileD)
  qed
  have "\<not> 31 - n < ?l" using below[of "31 - n"] n by auto
  with n(1) have l: "?l < 32" by simp
  have eq: "builtin_clz ?w = ?l" by (simp add: builtin_clz_def)
  show bit: "bit b (31 - builtin_clz ?w)" using nth_length_takeWhile[of ?P "[0..<32]"] l w by (simp add: eq)
  show "31 - builtin_clz ?w < 8" using bit_imp_le_length[OF bit] by simp
  show "\<not> bit b k" if "31 - builtin_clz ?w < k" for k
  proof
    assume "bit b k"
    then have k: "k < 8" using bit_imp_le_length by force
    with that l have "31 - k < ?l" by (simp add: eq)
    from below[OF this] k \<open>bit b k\<close> show False by simp
  qed
qed

lemma highest_loop_spec:
  "highest_loop data m = -1 \<and> (\<forall>i < 8 * m. \<not> raw_bit data i) \<or>
   (\<exists>h < 8 * m. highest_loop data m = int h \<and> raw_bit data h \<and> (\<forall>i < 8 * m. h < i \<longrightarrow> \<not> raw_bit data i))"
proof (induction m)
  case (Suc m)
  let ?b = "data ! m"
  have split: "i < 8 * Suc m \<longleftrightarrow> i < 8 * m \<or> i div 8 = m" for i by auto
  have raw: "raw_bit data i = bit ?b (i mod 8)" if "i div 8 = m" for i using that by (simp add: raw_bit_def)
  show ?case
  proof (cases "?b = 0")
    case True
    have "\<not> raw_bit data i" if "i div 8 = m" for i using raw[OF that] True by simp
    with Suc True split show ?thesis by (auto simp: Let_def)
  next
    case False
    let ?k = "31 - builtin_clz (ucast ?b)"
    note k = clz_byte[OF False]
    let ?h = "8 * m + ?k"
    have h: "?h div 8 = m" "?h mod 8 = ?k" using k(1) by simp_all
    have "\<not> raw_bit data i" if "i < 8 * Suc m" "?h < i" for i
    proof -
      have i: "i div 8 = m" using that by auto
      then have "?k < i mod 8" using that(2) div_mult_mod_eq[of i 8] by linarith
      then show ?thesis using raw[OF i] k(3) by simp
    qed
    moreover have "raw_bit data ?h" using raw[OF h(1)] h(2) k(2) by simp
    moreover have "highest_loop data (Suc m) = int ?h" using False by (simp add: Let_def kBitsPerByte_def mult.commute)
    ultimately show ?thesis using k(1) by (intro disjI2 exI[of _ ?h]) simp
  qed
qed simp

lemma and_decr_bit:
  assumes "bit (b :: 8 word) l" "\<And>k. k < l \<Longrightarrow> \<not> bit b k"
  shows "bit (b AND (b - 1)) k \<longleftrightarrow> bit b k \<and> k \<noteq> l"
proof -
  let ?c = "unset_bit l b"
  have l: "l < 8" using bit_imp_le_length[OF assms(1)] by simp
  have "b = ?c OR 2 ^ l" by (rule bit_word_eqI) (use assms(1) l in \<open>auto simp: bit_simps\<close>)
  also have "\<dots> = ?c + 2 ^ l" by (rule disjunctive_add[symmetric]) (auto simp: bit_simps)
  finally have "b - 1 = ?c + (2 ^ l - 1)" by (metis add_diff_eq)
  also have "\<dots> = ?c + mask l" by (simp add: mask_eq_exp_minus_1)
  also have "\<dots> = ?c OR mask l" by (rule disjunctive_add) (use assms(2) in \<open>auto simp: bit_simps\<close>)
  finally show ?thesis using assms by (auto simp: bit_simps)
qed

lemma lowest_cleared:
  assumes "(b :: 8 word) \<noteq> 0"
  shows "filter (bit b) [0..<8] = builtin_ctz (ucast b) # filter (bit (b AND (b - 1))) [0..<8]"
proof -
  let ?l = "builtin_ctz (ucast b)"
  note ctz = ctz_byte[OF assms]
  have "[0..<8] = [0..<?l] @ ?l # [Suc ?l..<8]" using ctz(2) upt_add_eq_append[of 0 ?l "8 - ?l"] upt_conv_Cons[of ?l 8] by simp
  moreover have "filter (bit b) [0..<?l] = []" "filter (bit (b AND (b - 1))) [0..<?l] = []"
    using ctz(4) by (auto simp: filter_empty_conv bit_and_iff)
  moreover have "bit (b AND (b - 1)) k \<longleftrightarrow> bit b k \<and> k \<noteq> ?l" for k by (rule and_decr_bit[OF ctz(3,4)])
  moreover from this have "filter (bit (b AND (b - 1))) [Suc ?l..<8] = filter (bit b) [Suc ?l..<8]" by (intro filter_cong) auto
  ultimately show ?thesis using ctz(3) by simp
qed

lemma byte_indices_eq: "byte_indices n i b = filter (\<lambda>x. x < n) (map (\<lambda>k. 8 * i + k) (filter (bit b) [0..<8]))"
proof (induction n i b rule: byte_indices.induct)
  case (1 n i b)
  show ?case
  proof (cases "b = 0")
    case True
    then show ?thesis by (simp add: byte_indices.simps[of n i 0])
  next
    case False
    with 1 lowest_cleared[OF False] show ?thesis
      by (simp add: byte_indices.simps[of n i b] Let_def kBitsPerByte_def mult.commute)
  qed
qed

lemma indices_bits:
  assumes len: "length (bm_data bm) = data_len (bm_size bm)"
  shows "bm_get_indices bm = filter (\<lambda>i. bits bm ! i) [0..<bm_size bm]"
proof -
  let ?n = "bm_size bm" and ?m = "length (bm_data bm)"
  let ?Q = "\<lambda>x. raw_bit (bm_data bm) x \<and> x < ?n"
  have le: "?n \<le> 8 * ?m" using len by (simp add: data_len_def)
  have blk: "byte_indices ?n j (bm_data bm ! j) = filter ?Q (map (\<lambda>k. 8 * j + k) [0..<8])" for j
  proof -
    have "filter (bit (bm_data bm ! j)) [0..<8] = filter (\<lambda>k. raw_bit (bm_data bm) (8 * j + k)) [0..<8]"
      by (rule filter_cong) (auto simp: raw_bit_def)
    then show ?thesis by (simp add: byte_indices_eq filter_map comp_def conj_commute)
  qed
  have "bm_get_indices bm = filter ?Q (concat (map (\<lambda>j. map (\<lambda>k. 8 * j + k) [0..<8]) [0..<?m]))"
    unfolding bm_get_indices_def blk by (simp add: filter_concat comp_def)
  also have "concat (map (\<lambda>j. map (\<lambda>k. 8 * j + k) [0..<8]) [0..<?m]) = [0..<8 * ?m]" using upt_blocks[of ?m 0] by simp
  also have "[0..<8 * ?m] = [0..<?n] @ [?n..<8 * ?m]" using upt_add_eq_append[of 0 ?n "8 * ?m - ?n"] le by simp
  also have "filter ?Q \<dots> = filter (\<lambda>i. bits bm ! i) [0..<?n]" by (auto simp: filter_empty_conv intro: filter_cong)
  finally show ?thesis .
qed

lemma fold_marks:
  "x < length s \<Longrightarrow>
     fold (\<lambda>p s. if Q p then s[f p := c] else s) ps s ! x = (if \<exists>p \<in> set ps. Q p \<and> f p = x then c else s ! x) \<and>
     length (fold (\<lambda>p s. if Q p then s[f p := c] else s) ps s) = length s"
proof (induction ps arbitrary: s)
  case (Cons p ps)
  show ?case using Cons.prems Cons.IH[of "s[f p := c]"] Cons.IH[of s] by (cases "Q p") (auto simp: nth_list_update)
qed simp

lemma to_string_bits:
  assumes len: "length (bm_data bm) = data_len (bm_size bm)"
  shows "bm_to_string bm = map (\<lambda>t. if t then CHR ''1'' else CHR ''0'') (bits bm)"
proof (cases "bm_size bm = 0")
  case True
  then have "bits bm = []" by (simp add: bits_def)
  with True show ?thesis by (simp add: bm_to_string_def)
next
  case False
  let ?n = "bm_size bm" and ?d = "bm_data bm"
  let ?Q = "\<lambda>(i, j). i * 8 + j < ?n \<and> (drop_bit j (ucast (?d ! i)) AND 1) \<noteq> (0 :: 32 word)"
  let ?f = "\<lambda>(i, j). i * 8 + j :: nat" and ?ps = "List.product [0..<length ?d] [0..<8]" and ?s = "replicate ?n (CHR ''0'')"
  have eq: "bm_to_string bm = fold (\<lambda>p s. if ?Q p then s[?f p := CHR ''1''] else s) ?ps ?s"
    using False unfolding bm_to_string_def kBitsPerByte_def by (auto intro!: fold_cong)
  have mark: "(\<exists>p \<in> set ?ps. ?Q p \<and> ?f p = x) \<longleftrightarrow> raw_bit ?d x" if "x < ?n" for x
  proof -
    have "x div 8 < length ?d" using that len by (simp add: data_len_less)
    moreover have "p = (x div 8, x mod 8)" if "p \<in> set ?ps" "?f p = x" for p using that by auto
    ultimately show ?thesis using that test_bit_byte[of "x mod 8" "?d ! (x div 8)"]
      by (fastforce simp: raw_bit_def intro: bexI[of _ "(x div 8, x mod 8)"])
  qed
  show ?thesis
    unfolding eq by (rule nth_equalityI) (use fold_marks[of _ ?s ?Q ?f _ ?ps] mark False in \<open>auto simp: neq0_conv\<close>)
qed

section \<open>Properties\<close>

lemma nth_upd: "j < length xs \<Longrightarrow> xs[i := v] ! j = (if i = j then v else xs ! j)"
  by (cases "i = j") simp_all

lemma batched_ok:
  "length (bm_data bm) = data_len (bm_size bm) \<Longrightarrow>
     bm_size (bm_batched_set is bm) = bm_size bm \<and> length (bm_data (bm_batched_set is bm)) = length (bm_data bm) \<and>
     (raw_bit (bm_data (bm_batched_set is bm)) i \<longleftrightarrow> raw_bit (bm_data bm) i \<or> (i \<in> set is \<and> i < bm_size bm))"
  unfolding bm_batched_set_def by (induction "is" arbitrary: bm) (auto simp: bm_set_raw)

text \<open>
  C23: The class invariant of the native bitmap. Both constructors establish it, and setting, clearing,
  setting a batch or a range, complementing and intersecting keep it: there are as many bytes as the
  size needs and no bit beyond the size is set. A union keeps it when the sizes agree.
\<close>

theorem bitmap_invariant:
  "bm_ok (bm_new n) \<and> bm_ok (bm_prefix n p) \<and>
   (bm_ok a \<longrightarrow> bm_ok (bm_set i a) \<and> bm_ok (bm_clear i a) \<and> bm_ok (bm_batched_set idxs a) \<and> bm_ok (bm_set_range s e a) \<and>
      bm_ok (bm_not a) \<and> (bm_ok b \<longrightarrow> bm_ok (bm_and a b) \<and> (bm_size a = bm_size b \<longrightarrow> bm_ok (bm_or a b))))"
proof -
  have "bm_ok (bm_new n)" by (rule bm_okI) (simp_all add: bm_new_data[of n] bm_new_raw[of _ n, unfolded bm_new_data])
  moreover have "bm_ok (bm_prefix n p)" by (rule bm_okI) (simp_all add: bm_prefix_size bm_prefix_raw)
  moreover have "bm_ok (bm_set i a) \<and> bm_ok (bm_clear i a) \<and> bm_ok (bm_batched_set idxs a) \<and> bm_ok (bm_set_range s e a) \<and> bm_ok (bm_not a)"
    if "bm_ok a"
    using bm_okD[OF that] batched_ok[of a idxs]
    by (intro conjI; intro bm_okI) (auto simp: bm_set_raw bm_clear_raw bm_set_range_raw bm_not_raw bm_not_size)
  moreover have "bm_ok (bm_and a b) \<and> (bm_size a = bm_size b \<longrightarrow> bm_ok (bm_or a b))" if "bm_ok a" "bm_ok b"
  proof -
    let ?m = "min (bm_size a) (bm_size b)"
    have le: "data_len ?m \<le> data_len (bm_size a)" "data_len ?m \<le> data_len (bm_size b)" by (simp_all add: data_len_mono)
    have small: "i < ?m" if "i div 8 < data_len ?m" "raw_bit (bm_data a) i" "raw_bit (bm_data b) i" for i
      using bm_okD(2)[OF \<open>bm_ok a\<close> order_less_le_trans[OF that(1) le(1)] that(2)]
        bm_okD(2)[OF \<open>bm_ok b\<close> order_less_le_trans[OF that(1) le(2)] that(3)] by simp
    have "bm_ok (bm_and a b)"
    proof (rule bm_okI)
      show "length (bm_data (bm_and a b)) = data_len (bm_size (bm_and a b))" by (simp only: bm_binop_size)
      show "i < bm_size (bm_and a b)" if "i div 8 < data_len (bm_size (bm_and a b))" "raw_bit (bm_data (bm_and a b)) i" for i
        using that small unfolding bm_binop_size by (metis bm_binop_raw(1))
    qed
    moreover have "bm_ok (bm_or a b)" if eq: "bm_size a = bm_size b"
    proof (rule bm_okI)
      show "length (bm_data (bm_or a b)) = data_len (bm_size (bm_or a b))" by (simp only: bm_binop_size)
      show "i < bm_size (bm_or a b)" if "i div 8 < data_len (bm_size (bm_or a b))" "raw_bit (bm_data (bm_or a b)) i" for i
        using that bm_binop_raw(2)[of i a b] bm_okD(2)[OF \<open>bm_ok a\<close>, of i] bm_okD(2)[OF \<open>bm_ok b\<close>, of i] eq
        unfolding bm_binop_size by simp blast
    qed
    ultimately show ?thesis by blast
  qed
  ultimately show ?thesis by blast
qed

theorem bitmap_invariant_witness:
  "bm_ok (bm_not (bm_or (bm_set_range 3 17 (bm_new 21)) (bm_prefix 21 9)))"
proof -
  note inv = bitmap_invariant[where n = 21 and p = 9 and s = 3 and e = 17 and i = 0 and idxs = "[]"]
  have a: "bm_ok (bm_set_range 3 17 (bm_new 21))" using inv[where a = "bm_new 21" and b = "bm_new 21"] by blast
  have "bm_ok (bm_or (bm_set_range 3 17 (bm_new 21)) (bm_prefix 21 9))"
    using inv[where a = "bm_set_range 3 17 (bm_new 21)" and b = "bm_prefix 21 9"] a by (simp add: bm_new_data bm_prefix_size)
  then show ?thesis using inv by blast
qed

text \<open>
  C14: The bytes implement a list of truth values. Setting and clearing update one position and ignore
  a position out of range, a range sets exactly its positions, the operators work position by
  position on the shorter length, and a bitmap with a prefix is that many ones followed by zeros.
\<close>

theorem bitmap_refines_bits:
  assumes "bm_ok a" and "bm_ok b"
  shows "bits (bm_prefix n p) = replicate (min p n) True @ replicate (n - p) False \<and>
    bits (bm_set i a) = (bits a)[i := True] \<and> bits (bm_clear i a) = (bits a)[i := False] \<and>
    bits (bm_batched_set idxs a) = fold (\<lambda>i xs. xs[i := True]) idxs (bits a) \<and>
    bits (bm_set_range s e a) = map (\<lambda>i. bits a ! i \<or> (s \<le> i \<and> i < e)) [0..<bm_size a] \<and>
    bits (bm_not a) = map Not (bits a) \<and> bits (bm_and a b) = map2 (\<and>) (bits a) (bits b) \<and> bits (bm_or a b) = map2 (\<or>) (bits a) (bits b)"
proof -
  note len = bm_okD(1)[OF assms(1)]
  have "bits (bm_prefix n p) = replicate (min p n) True @ replicate (n - p) False"
    by (rule bits_eqI) (auto simp: bm_prefix_size bm_prefix_raw data_len_less nth_append)
  moreover have "bits (bm_set i a) = (bits a)[i := True]" "bits (bm_clear i a) = (bits a)[i := False]"
    "bits (bm_set_range s e a) = map (\<lambda>i. bits a ! i \<or> (s \<le> i \<and> i < e)) [0..<bm_size a]"
    by (rule bits_eqI; auto simp: bm_set_raw[OF len] bm_clear_raw[OF len] bm_set_range_raw[OF len] nth_upd)+
  moreover have "bits (bm_batched_set idxs a) = fold (\<lambda>i xs. xs[i := True]) idxs (bits a)"
    unfolding bm_batched_set_def using len
  proof (induction idxs arbitrary: a)
    case (Cons i idxs)
    have "bits (bm_set i a) = (bits a)[i := True]" by (rule bits_eqI) (auto simp: bm_set_raw[OF Cons.prems] nth_upd)
    with Cons.IH[of "bm_set i a"] Cons.prems show ?case by simp
  qed simp
  moreover have "bits (bm_not a) = map Not (bits a)"
    by (rule bits_eqI) (auto simp: bm_not_size bm_not_raw[OF len] data_len_less)
  moreover have "bits (bm_and a b) = map2 (\<and>) (bits a) (bits b)" "bits (bm_or a b) = map2 (\<or>) (bits a) (bits b)"
    by (rule bits_eqI; auto simp: bm_binop_size bm_binop_raw data_len_less)+
  ultimately show ?thesis by blast
qed

theorem bitmap_refines_bits_witness:
  "bits (bm_or (bm_prefix 3 2) (bm_set 5 (bm_new 8))) = [True, True, False]"
proof -
  have ok: "bm_ok (bm_prefix 3 2)" "bm_ok (bm_set 5 (bm_new 8))" "bm_ok (bm_new 8)" by code_simp+
  have z: "bits (bm_new 8) = replicate 8 False" "bits (bm_prefix 3 2) = [True, True, False]" by code_simp+
  from bitmap_refines_bits[OF ok(3,3), of 0 0 5] have "bits (bm_set 5 (bm_new 8)) = (replicate 8 False)[5 := True]" by (simp add: z)
  with bitmap_refines_bits[OF ok(1,2)] z show ?thesis by (simp add: upt_rec_numeral numeral_eq_Suc)
qed

lemma highest_raw:
  assumes "length (bm_data bm) = data_len (bm_size bm)"
  shows "bm_highest_set_bit bm = -1 \<and> (\<forall>i. i div 8 < data_len (bm_size bm) \<longrightarrow> \<not> raw_bit (bm_data bm) i) \<or>
    (\<exists>h. bm_highest_set_bit bm = int h \<and> h div 8 < data_len (bm_size bm) \<and> raw_bit (bm_data bm) h \<and>
       (\<forall>i. i div 8 < data_len (bm_size bm) \<longrightarrow> h < i \<longrightarrow> \<not> raw_bit (bm_data bm) i))"
proof -
  have "i < 8 * data_len (bm_size bm) \<longleftrightarrow> i div 8 < data_len (bm_size bm)" for i by (simp add: div_less_iff_less_mult mult.commute)
  with highest_loop_spec[of "bm_data bm" "data_len (bm_size bm)"] assms show ?thesis by (auto simp: bm_highest_set_bit_def)
qed

lemma highest_bits:
  assumes ok: "bm_ok bm"
  shows "bm_highest_set_bit bm = (if True \<in> set (bits bm) then int (Max {i. i < bm_size bm \<and> bits bm ! i}) else -1)"
proof -
  note len = bm_okD(1)[OF ok] and small = bm_okD(2)[OF ok]
  have raw: "i < bm_size bm \<and> bits bm ! i \<longleftrightarrow> i div 8 < data_len (bm_size bm) \<and> raw_bit (bm_data bm) i" for i
    using small[of i] data_len_less[of i "bm_size bm"] by auto
  have set: "True \<in> set (bits bm) \<longleftrightarrow> (\<exists>i. i < bm_size bm \<and> bits bm ! i)" by (auto simp: in_set_conv_nth)
  from highest_raw[OF len] show ?thesis
  proof (elim disjE exE conjE)
    fix h assume h: "bm_highest_set_bit bm = int h" "h div 8 < data_len (bm_size bm)" "raw_bit (bm_data bm) h"
      "\<forall>i. i div 8 < data_len (bm_size bm) \<longrightarrow> h < i \<longrightarrow> \<not> raw_bit (bm_data bm) i"
    have "Max {i. i < bm_size bm \<and> bits bm ! i} = h"
      unfolding raw by (rule Max_eqI) (use h in \<open>auto simp: not_less[symmetric] intro: finite_subset[of _ "{..<bm_size bm}"] small\<close>)
    with h raw set show ?thesis by auto
  qed (use raw set in auto)
qed

text \<open>
  C16: The queries count and find what they say. On a bitmap that satisfies the invariant, \<open>popcount\<close>
  counts the set positions, \<open>clz\<close> and \<open>clo\<close> the leading zeros and ones, \<open>highest_set_bit\<close> is the
  largest set position or -1, and the index list and the printed form list the positions in order;
  the scan that clears the lowest bit of a byte until none is left terminates.
\<close>

theorem bitmap_queries:
  assumes "bm_ok a"
  shows "(bm_test a i \<longleftrightarrow> i < bm_size a \<and> bits a ! i) \<and> bm_popcount a = length (filter id (bits a)) \<and>
    bm_clz a = length (takeWhile Not (bits a)) \<and> bm_clo a = length (takeWhile id (bits a)) \<and>
    bm_highest_set_bit a = (if True \<in> set (bits a) then int (Max {i. i < bm_size a \<and> bits a ! i}) else -1) \<and>
    bm_get_indices a = filter (\<lambda>i. bits a ! i) [0..<bm_size a] \<and>
    bm_to_string a = map (\<lambda>t. if t then CHR ''1'' else CHR ''0'') (bits a)"
proof -
  note len = bm_okD(1)[OF assms]
  have "bits (bm_not a) = map Not (bits a)" by (rule bits_eqI) (auto simp: bm_not_size bm_not_raw[OF len] data_len_less)
  moreover have "bm_clz (bm_not a) = length (takeWhile Not (bits (bm_not a)))" by (rule clz_bits) (simp add: bm_not_size len)
  ultimately have "bm_clo a = length (takeWhile id (bits a))" by (simp add: bm_clo_def takeWhile_map comp_def id_def)
  moreover have "bm_test a i \<longleftrightarrow> i < bm_size a \<and> bits a ! i" by (auto simp: bm_test_iff)
  ultimately show ?thesis
    using popcount_bits[OF len] clz_bits[OF len] highest_bits[OF assms] indices_bits[OF len] to_string_bits[OF len] by blast
qed

theorem bitmap_queries_witness:
  "bm_popcount (bm_set_range 3 17 (bm_new 21)) = 14 \<and> bm_clz (bm_set_range 3 17 (bm_new 21)) = 3 \<and>
   bm_get_indices (bm_set_range 3 17 (bm_new 21)) = [3..<17]"
proof -
  let ?a = "bm_set_range 3 17 (bm_new 21)"
  have ok: "bm_ok ?a" by code_simp
  have "length (filter id (bits ?a)) = 14" "length (takeWhile Not (bits ?a)) = 3" "filter (\<lambda>i. bits ?a ! i) [0..<bm_size ?a] = [3..<17]"
    by code_simp+
  with bitmap_queries[OF ok, of 0] show ?thesis by metis
qed

text \<open>
  C31: A union of bitmaps of different sizes may break the invariant. The result has the smaller size,
  but bits of the larger operand survive in its last byte: the invariant holds exactly if the larger
  operand has none there, and otherwise \<open>highest_set_bit\<close> returns a position that is not in the
  bitmap.
\<close>

theorem bitmap_union_sizes:
  assumes "bm_ok a" and "bm_ok b" and "bm_size a \<le> bm_size b"
  shows "(bm_ok (bm_or a b) \<longleftrightarrow> \<not> (\<exists>i. bm_size a \<le> i \<and> i div 8 < data_len (bm_size a) \<and> bm_test b i)) \<and>
    (\<not> bm_ok (bm_or a b) \<longrightarrow> int (bm_size (bm_or a b)) \<le> bm_highest_set_bit (bm_or a b))"
proof -
  let ?o = "bm_or a b" and ?n = "bm_size a"
  have size: "bm_size ?o = ?n" "length (bm_data ?o) = data_len ?n" using assms(3) by (simp_all add: bm_binop_size)
  have raw: "raw_bit (bm_data ?o) i \<longleftrightarrow> raw_bit (bm_data a) i \<or> bm_test b i" if "i div 8 < data_len ?n" for i
  proof -
    have "i div 8 < data_len (bm_size b)" using that data_len_mono[OF assms(3)] by simp
    then have "raw_bit (bm_data b) i \<longleftrightarrow> bm_test b i" using bm_okD(2)[OF assms(2), of i] by (auto simp: bm_test_iff)
    with bm_binop_raw(2)[of i a b] that assms(3) show ?thesis by simp
  qed
  have "bm_ok ?o \<longleftrightarrow> (\<forall>i. i div 8 < data_len ?n \<longrightarrow> raw_bit (bm_data ?o) i \<longrightarrow> i < ?n)"
    using bm_okI[of ?o] bm_okD(2)[of ?o] size by metis
  moreover have "\<dots> \<longleftrightarrow> \<not> (\<exists>i. ?n \<le> i \<and> i div 8 < data_len ?n \<and> bm_test b i)"
    using raw bm_okD(2)[OF assms(1)] by (meson not_le)
  ultimately have iff: "bm_ok ?o \<longleftrightarrow> \<not> (\<exists>i. ?n \<le> i \<and> i div 8 < data_len ?n \<and> bm_test b i)" by simp
  have "int (bm_size ?o) \<le> bm_highest_set_bit ?o" if bad: "\<not> bm_ok ?o"
  proof -
    from bad iff obtain i where i: "?n \<le> i" "i div 8 < data_len ?n" "bm_test b i" by blast
    then have "raw_bit (bm_data ?o) i" using raw by simp
    with highest_raw[of ?o] size i show ?thesis by (metis linorder_not_less nat_int_comparison(3) order_trans)
  qed
  with iff show ?thesis by blast
qed

theorem bitmap_union_sizes_witness:
  "\<not> bm_ok (bm_or (bm_new 3) (bm_set 5 (bm_new 8))) \<and> 3 \<le> bm_highest_set_bit (bm_or (bm_new 3) (bm_set 5 (bm_new 8)))"
proof -
  have ok: "bm_ok (bm_new 3)" "bm_ok (bm_set 5 (bm_new 8))" "bm_size (bm_new 3) \<le> bm_size (bm_set 5 (bm_new 8))" by code_simp+
  have "bm_test (bm_set 5 (bm_new 8)) 5" "bm_size (bm_new 3) \<le> 5" "5 div 8 < data_len (bm_size (bm_new 3))"
    "bm_size (bm_or (bm_new 3) (bm_set 5 (bm_new 8))) = 3" by code_simp+
  with bitmap_union_sizes[OF ok] show ?thesis by (metis of_nat_numeral)
qed

end
