(* ===== verification/Native_Connector.thy ===== *)
theory Native_Connector
  imports L2_Accounting Bitmaps Memory_Objects
begin

text \<open>
  The L2 adapter over a native storage connector: \<open>NativeConnectorL2Adapter\<close> of
  \<open>lmcache/v1/distributed/l2_adapters/native_connector_l2_adapter.py\<close>, which serves every connector
  behind the native interface. Requests are submitted to the connector under the adapter's lock; a
  demultiplexing thread takes completions, updates the tables under the same lock, and then, without
  it, updates the byte counters and calls the listeners. What the connector answers is an argument
  of the steps. The bytes that travel and the names the connector stores them under do not change
  the state of the adapter.
\<close>

section \<open>State\<close>

datatype op_type = OP_STORE | OP_LOOKUP | OP_LOAD | OP_DELETE

record pending_op =
  po_type :: op_type
  po_task_id :: int
  po_num_keys :: nat
  po_keys :: "object_key list option"

text \<open>An event that a caller of \<open>delete\<close> waits for is named by the task of the call.\<close>

record native_adapter = l2_base +
  pending_ops :: "(int, pending_op) dict"
  completed_stores :: "(int, int) dict"
  completed_lookups :: "(int, bitmap) dict"
  completed_loads :: "(int, bitmap) dict"
  locked_keys :: "(object_key, int) dict"
  has_delete :: bool
  pending_delete_events :: "int list"
  key_sizes :: "(object_key, int) dict"
  pending_store_sizes :: "(int, object_key list \<times> int list) dict"
  next_task_id :: int
  pad_buffers_to_alignment :: bool

definition native_init :: "rat \<Rightarrow> bool \<Rightarrow> bool \<Rightarrow> native_adapter" where
  "native_init max_capacity_gb pad deletes =
     \<lparr>max_capacity_bytes = py_int (float_mul max_capacity_gb (float_of_int (1024 ^ 3))), total_bytes_used = 0,
      bytes_by_cache_salt = [], pending_ops = [], completed_stores = [], completed_lookups = [],
      completed_loads = [], locked_keys = [], has_delete = deletes, pending_delete_events = [],
      key_sizes = [], pending_store_sizes = [], next_task_id = 0, pad_buffers_to_alignment = pad\<rparr>"

text \<open>The length of the byte view of an object that is handed to the connector.\<close>

definition view_length :: "bool \<Rightarrow> memory_obj \<Rightarrow> int" where
  "view_length pad_to_physical obj =
     (if pad_to_physical \<and> mo_class obj = TensorMemoryObj \<and> get_physical_size obj > get_size obj
      then get_physical_size obj else get_size obj)"

section \<open>Requests\<close>

definition get_next_task_id :: "native_adapter \<Rightarrow> int \<times> native_adapter" where
  "get_next_task_id a = (next_task_id a, a\<lparr>next_task_id := next_task_id a + 1\<rparr>)"

definition register_op :: "op_type \<Rightarrow> nat \<Rightarrow> object_key list option \<Rightarrow> int \<Rightarrow> native_adapter \<Rightarrow> int \<times> native_adapter" where
  "register_op t n keys future_id a =
     (let (task_id, a1) = get_next_task_id a
      in (task_id, a1\<lparr>pending_ops := AList.update future_id
            \<lparr>po_type = t, po_task_id = task_id, po_num_keys = n, po_keys = keys\<rparr> (pending_ops a1)\<rparr>))"

definition submit_store_task :: "object_key list \<Rightarrow> memory_obj list \<Rightarrow> int \<Rightarrow> native_adapter \<Rightarrow> int \<times> native_adapter" where
  "submit_store_task keys objects future_id a =
     (let per_key_sizes = map (view_length (pad_buffers_to_alignment a)) objects;
          (task_id, a1) = register_op OP_STORE (length keys) None future_id a
      in (task_id, a1\<lparr>pending_store_sizes := AList.update future_id (keys, per_key_sizes) (pending_store_sizes a1)\<rparr>))"

definition pop_completed_store_tasks :: "native_adapter \<Rightarrow> (int, int) dict \<times> native_adapter" where
  "pop_completed_store_tasks a = (completed_stores a, a\<lparr>completed_stores := []\<rparr>)"

definition submit_lookup_and_lock_task :: "object_key list \<Rightarrow> int \<Rightarrow> native_adapter \<Rightarrow> int \<times> native_adapter" where
  "submit_lookup_and_lock_task keys future_id a = register_op OP_LOOKUP (length keys) (Some keys) future_id a"

definition query_lookup_and_lock_result :: "int \<Rightarrow> native_adapter \<Rightarrow> bitmap option \<times> native_adapter" where
  "query_lookup_and_lock_result task_id a =
     (map_of (completed_lookups a) task_id, a\<lparr>completed_lookups := AList.delete task_id (completed_lookups a)\<rparr>)"

definition unlock_key :: "object_key \<Rightarrow> (object_key, int) dict \<Rightarrow> (object_key, int) dict" where
  "unlock_key key locks =
     (case map_of locks key of
        None \<Rightarrow> locks
      | Some n \<Rightarrow> if n \<le> 1 then AList.delete key locks else AList.update key (n - 1) locks)"

definition submit_unlock :: "object_key list \<Rightarrow> native_adapter \<Rightarrow> native_adapter" where
  "submit_unlock keys a = a\<lparr>locked_keys := fold unlock_key keys (locked_keys a)\<rparr>"

definition submit_load_task :: "object_key list \<Rightarrow> int \<Rightarrow> native_adapter \<Rightarrow> int \<times> native_adapter" where
  "submit_load_task keys future_id a = register_op OP_LOAD (length keys) (Some keys) future_id a"

definition query_load_result :: "int \<Rightarrow> native_adapter \<Rightarrow> bitmap option \<times> native_adapter" where
  "query_load_result task_id a =
     (map_of (completed_loads a) task_id, a\<lparr>completed_loads := AList.delete task_id (completed_loads a)\<rparr>)"

text \<open>
  \<open>delete\<close> up to the point where it waits: the task it waits for, or \<open>None\<close> if it returns at once.
  After 30 seconds without an answer it withdraws the request.
\<close>

definition submit_delete :: "object_key list \<Rightarrow> int \<Rightarrow> native_adapter \<Rightarrow> int option \<times> native_adapter" where
  "submit_delete keys future_id a =
     (if keys = [] \<or> \<not> has_delete a then (None, a)
      else let (task_id, a1) = register_op OP_DELETE (length keys) (Some keys) future_id a
           in (Some task_id, a1\<lparr>pending_delete_events := od_set task_id (pending_delete_events a1)\<rparr>))"

definition delete_timeout :: "int \<Rightarrow> native_adapter \<Rightarrow> native_adapter" where
  "delete_timeout task_id a =
     a\<lparr>pending_delete_events := od_del task_id (pending_delete_events a),
       pending_ops := (case find (\<lambda>(fid, entry). po_task_id entry = task_id) (pending_ops a) of
                         None \<Rightarrow> pending_ops a
                       | Some (fid, _) \<Rightarrow> AList.delete fid (pending_ops a))\<rparr>"

section \<open>Completions\<close>

record completion =
  cp_future_id :: int
  cp_ok :: bool
  cp_result_bools :: "bool list option"

text \<open>What a drained batch of completions has to report once the lock is released.\<close>

record demux_batch =
  db_keys_stored :: "object_key list"
  db_sizes_stored :: "int list"
  db_keys_accessed :: "object_key list"
  db_keys_deleted :: "object_key list"
  db_sizes_deleted :: "int list"
  db_delete_done_events :: "int list"

definition empty_batch :: demux_batch where
  "empty_batch = \<lparr>db_keys_stored = [], db_sizes_stored = [], db_keys_accessed = [], db_keys_deleted = [],
     db_sizes_deleted = [], db_delete_done_events = []\<rparr>"

definition L2StoreResult :: "bool \<Rightarrow> int \<Rightarrow> int result" where
  "L2StoreResult success bytes_transferred =
     (if bytes_transferred < 0 then Inl ValueError else Inr (if success then bytes_transferred else - 1))"

text \<open>The first store of a key is charged; a later one is reported with no bytes.\<close>

fun store_each :: "(object_key \<times> int) list \<Rightarrow> native_adapter \<Rightarrow> demux_batch \<Rightarrow> int \<Rightarrow> native_adapter \<times> demux_batch \<times> int" where
  "store_each [] a b task_bytes = (a, b, task_bytes)"
| "store_each ((key, n) # rest) a b task_bytes =
     (if key \<notin> set (dict_keys (key_sizes a))
      then store_each rest (a\<lparr>key_sizes := AList.update key n (key_sizes a)\<rparr>)
             (b\<lparr>db_keys_stored := db_keys_stored b @ [key], db_sizes_stored := db_sizes_stored b @ [n]\<rparr>) (task_bytes + n)
      else store_each rest a
             (b\<lparr>db_keys_stored := db_keys_stored b @ [key], db_sizes_stored := db_sizes_stored b @ [0]\<rparr>) task_bytes)"

definition complete_store :: "completion \<Rightarrow> pending_op \<Rightarrow> native_adapter \<Rightarrow> demux_batch \<Rightarrow> (native_adapter \<times> demux_batch) result" where
  "complete_store c entry a b =
     (let store_info = map_of (pending_store_sizes a) (cp_future_id c);
          a1 = a\<lparr>pending_store_sizes := AList.delete (cp_future_id c) (pending_store_sizes a)\<rparr>;
          recorded = (case (if cp_ok c then store_info else None) of
                        None \<Rightarrow> Inr (a1, b, 0)
                      | Some (store_keys, sizes) \<Rightarrow>
                          if length store_keys \<noteq> length sizes then Inl ValueError
                          else Inr (store_each (zip store_keys sizes) a1 b 0))
      in case recorded of
           Inl e \<Rightarrow> Inl e
         | Inr (a2, b2, task_bytes) \<Rightarrow>
             (case L2StoreResult (cp_ok c) task_bytes of
                Inl e \<Rightarrow> Inl e
              | Inr r \<Rightarrow> Inr (a2\<lparr>completed_stores := AList.update (po_task_id entry) r (completed_stores a2)\<rparr>, b2)))"

text \<open>Loops over \<open>enumerate(result_bools)\<close>; a positive answer beyond the keys raises.\<close>

fun lock_found ::
  "(nat \<times> bool) list \<Rightarrow> object_key list option \<Rightarrow> bitmap \<Rightarrow> (object_key, int) dict \<Rightarrow> (bitmap \<times> (object_key, int) dict) result" where
  "lock_found [] lookup_keys bm locks = Inr (bm, locks)"
| "lock_found ((i, found) # rest) lookup_keys bm locks =
     (if \<not> found then lock_found rest lookup_keys bm locks
      else case lookup_keys of
             None \<Rightarrow> lock_found rest lookup_keys (bm_set i bm) locks
           | Some ks \<Rightarrow>
               if i < length ks
               then lock_found rest lookup_keys (bm_set i bm)
                      (AList.update (ks ! i) ((case map_of locks (ks ! i) of None \<Rightarrow> 0 | Some n \<Rightarrow> n) + 1) locks)
               else Inl IndexError)"

definition complete_lookup :: "completion \<Rightarrow> pending_op \<Rightarrow> native_adapter \<Rightarrow> demux_batch \<Rightarrow> (native_adapter \<times> demux_batch) result" where
  "complete_lookup c entry a b =
     (case lock_found (enumerate 0 (case (if cp_ok c then cp_result_bools c else None) of None \<Rightarrow> [] | Some bs \<Rightarrow> bs))
             (po_keys entry) (bm_new (po_num_keys entry)) (locked_keys a) of
        Inl e \<Rightarrow> Inl e
      | Inr (bm, locks) \<Rightarrow>
          Inr (a\<lparr>locked_keys := locks, completed_lookups := AList.update (po_task_id entry) bm (completed_lookups a)\<rparr>, b))"

fun mark_loaded ::
  "(nat \<times> bool) list \<Rightarrow> object_key list option \<Rightarrow> bitmap \<Rightarrow> object_key list \<Rightarrow> (bitmap \<times> object_key list) result" where
  "mark_loaded [] lookup_keys bm loaded_keys = Inr (bm, loaded_keys)"
| "mark_loaded ((i, loaded) # rest) lookup_keys bm loaded_keys =
     (if \<not> loaded then mark_loaded rest lookup_keys bm loaded_keys
      else case lookup_keys of
             None \<Rightarrow> mark_loaded rest lookup_keys (bm_set i bm) loaded_keys
           | Some ks \<Rightarrow>
               if i < length ks then mark_loaded rest lookup_keys (bm_set i bm) (loaded_keys @ [ks ! i]) else Inl IndexError)"

definition complete_load :: "completion \<Rightarrow> pending_op \<Rightarrow> native_adapter \<Rightarrow> demux_batch \<Rightarrow> (native_adapter \<times> demux_batch) result" where
  "complete_load c entry a b =
     (let bm = bm_new (po_num_keys entry);
          marked = (case cp_result_bools c of
                      Some bs \<Rightarrow> mark_loaded (enumerate 0 bs) (po_keys entry) bm []
                    | None \<Rightarrow>
                        if cp_ok c
                        then Inr (fold bm_set [0..<po_num_keys entry] bm, case po_keys entry of None \<Rightarrow> [] | Some ks \<Rightarrow> ks)
                        else Inr (bm, []))
      in case marked of
           Inl e \<Rightarrow> Inl e
         | Inr (bm1, loaded_keys) \<Rightarrow>
             Inr (a\<lparr>completed_loads := AList.update (po_task_id entry) bm1 (completed_loads a)\<rparr>,
                  b\<lparr>db_keys_accessed := db_keys_accessed b @ loaded_keys\<rparr>))"

text \<open>Only keys that a store has charged before are reported as deleted.\<close>

fun delete_each :: "(nat \<times> bool) list \<Rightarrow> object_key list \<Rightarrow> native_adapter \<Rightarrow> demux_batch \<Rightarrow> (native_adapter \<times> demux_batch) result" where
  "delete_each [] lookup_keys a b = Inr (a, b)"
| "delete_each ((i, deleted) # rest) lookup_keys a b =
     (if \<not> deleted then delete_each rest lookup_keys a b
      else if i \<ge> length lookup_keys then Inl IndexError
      else case map_of (key_sizes a) (lookup_keys ! i) of
             None \<Rightarrow> delete_each rest lookup_keys a b
           | Some n \<Rightarrow>
               delete_each rest lookup_keys (a\<lparr>key_sizes := AList.delete (lookup_keys ! i) (key_sizes a)\<rparr>)
                 (b\<lparr>db_keys_deleted := db_keys_deleted b @ [lookup_keys ! i], db_sizes_deleted := db_sizes_deleted b @ [n]\<rparr>))"

definition complete_delete :: "completion \<Rightarrow> pending_op \<Rightarrow> native_adapter \<Rightarrow> demux_batch \<Rightarrow> (native_adapter \<times> demux_batch) result" where
  "complete_delete c entry a b =
     (case (case (cp_result_bools c, po_keys entry) of
              (Some bs, Some ks) \<Rightarrow> delete_each (enumerate 0 bs) ks a b
            | _ \<Rightarrow> Inr (a, b)) of
        Inl e \<Rightarrow> Inl e
      | Inr (a1, b1) \<Rightarrow>
          if po_task_id entry \<in> set (pending_delete_events a1)
          then Inr (a1\<lparr>pending_delete_events := od_del (po_task_id entry) (pending_delete_events a1)\<rparr>,
                    b1\<lparr>db_delete_done_events := db_delete_done_events b1 @ [po_task_id entry]\<rparr>)
          else Inr (a1, b1))"

definition complete_one :: "completion \<Rightarrow> native_adapter \<Rightarrow> demux_batch \<Rightarrow> (native_adapter \<times> demux_batch) result" where
  "complete_one c a b =
     (case map_of (pending_ops a) (cp_future_id c) of
        None \<Rightarrow> Inr (a, b)
      | Some entry \<Rightarrow>
          let a1 = a\<lparr>pending_ops := AList.delete (cp_future_id c) (pending_ops a)\<rparr> in
          case po_type entry of
            OP_STORE \<Rightarrow> complete_store c entry a1 b
          | OP_LOOKUP \<Rightarrow> complete_lookup c entry a1 b
          | OP_LOAD \<Rightarrow> complete_load c entry a1 b
          | OP_DELETE \<Rightarrow> complete_delete c entry a1 b)"

fun drain :: "completion list \<Rightarrow> native_adapter \<Rightarrow> demux_batch \<Rightarrow> (native_adapter \<times> demux_batch) result" where
  "drain [] a b = Inr (a, b)"
| "drain (c # cs) a b = (case complete_one c a b of Inl e \<Rightarrow> Inl e | Inr (a1, b1) \<Rightarrow> drain cs a1 b1)"

section \<open>Reports\<close>

text \<open>
  What the demultiplexing thread does after releasing the lock, in this order: update the counters
  for a kind of event, then call the listeners; finally wake the callers of \<open>delete\<close>.
\<close>

datatype demux_task =
    Account_stored "object_key list" "int list"
  | Account_deleted "object_key list" "int list"
  | Call_listeners l2_output
  | Set_events "int list"

definition demux_tasks :: "demux_batch \<Rightarrow> demux_task list" where
  "demux_tasks b =
     (if db_keys_stored b = [] then []
      else [Account_stored (db_keys_stored b) (db_sizes_stored b),
            Call_listeners (On_l2_keys_stored (db_keys_stored b) (db_sizes_stored b))]) @
     (if db_keys_accessed b = [] then [] else [Call_listeners (On_l2_keys_accessed (db_keys_accessed b))]) @
     (if db_keys_deleted b = [] then []
      else [Account_deleted (db_keys_deleted b) (db_sizes_deleted b),
            Call_listeners (On_l2_keys_deleted (db_keys_deleted b))]) @
     [Set_events (db_delete_done_events b)]"

text \<open>
  The adapter with the eviction policy that listens to it, the work its demultiplexing thread still
  has to do before it takes more completions, and the events that are set.
\<close>

record l2_node =
  nd_adapter :: native_adapter
  nd_policy :: policy
  nd_tasks :: "demux_task list"
  nd_set_events :: "int list"
  nd_alive :: bool

definition node_init :: "native_adapter \<Rightarrow> policy \<Rightarrow> l2_node" where
  "node_init a p = \<lparr>nd_adapter = a, nd_policy = p, nd_tasks = [], nd_set_events = [], nd_alive = True\<rparr>"

fun do_task :: "demux_task \<Rightarrow> l2_node \<Rightarrow> l2_node result" where
  "do_task (Account_stored keys sizes) s =
     (case account_stored keys sizes (nd_adapter s) of Inl e \<Rightarrow> Inl e | Inr a \<Rightarrow> Inr (s\<lparr>nd_adapter := a\<rparr>))"
| "do_task (Account_deleted keys sizes) s =
     (case account_deleted keys sizes (nd_adapter s) of Inl e \<Rightarrow> Inl e | Inr a \<Rightarrow> Inr (s\<lparr>nd_adapter := a\<rparr>))"
| "do_task (Call_listeners out) s = Inr (s\<lparr>nd_policy := policy_notify (l2_notification out) (nd_policy s)\<rparr>)"
| "do_task (Set_events events) s = Inr (s\<lparr>nd_set_events := nd_set_events s @ events\<rparr>)"

fun do_tasks :: "demux_task list \<Rightarrow> l2_node \<Rightarrow> l2_node result" where
  "do_tasks [] s = Inr s"
| "do_tasks (t # ts) s = (case do_task t s of Inl e \<Rightarrow> Inl e | Inr s' \<Rightarrow> do_tasks ts s')"

section \<open>Interleavings\<close>

text \<open>
  \<open>submit_touch\<close> calls the listeners from its own thread. An exception ends the demultiplexing
  thread. Of the connector it is assumed that it gives a new request an identifier that no pending
  request has, and that it answers a request, if key by key at all, with one answer per key.
\<close>

datatype l2_label =
    Store "object_key list" "memory_obj list" int
  | Lookup "object_key list" int
  | Load "object_key list" int
  | Delete "object_key list" int
  | Delete_timeout int
  | Unlock "object_key list"
  | Touch "object_key list"
  | Pop_stores
  | Query_lookup int
  | Query_load int
  | Drain "completion list"
  | Report

definition unused_id :: "int \<Rightarrow> native_adapter \<Rightarrow> bool" where
  "unused_id future_id a \<longleftrightarrow> future_id \<notin> set (dict_keys (pending_ops a))"

definition answers_fit :: "completion list \<Rightarrow> native_adapter \<Rightarrow> bool" where
  "answers_fit cs a \<longleftrightarrow> (\<forall>c \<in> set cs. \<forall>entry bs. map_of (pending_ops a) (cp_future_id c) = Some entry \<longrightarrow>
     cp_result_bools c = Some bs \<longrightarrow> length bs = po_num_keys entry)"

inductive l2_step :: "l2_node \<Rightarrow> l2_label \<Rightarrow> l2_node \<Rightarrow> bool" where
  store: "unused_id fid (nd_adapter s) \<Longrightarrow>
    l2_step s (Store keys objects fid) (s\<lparr>nd_adapter := snd (submit_store_task keys objects fid (nd_adapter s))\<rparr>)"
| lookup: "unused_id fid (nd_adapter s) \<Longrightarrow>
    l2_step s (Lookup keys fid) (s\<lparr>nd_adapter := snd (submit_lookup_and_lock_task keys fid (nd_adapter s))\<rparr>)"
| load: "unused_id fid (nd_adapter s) \<Longrightarrow>
    l2_step s (Load keys fid) (s\<lparr>nd_adapter := snd (submit_load_task keys fid (nd_adapter s))\<rparr>)"
| delete: "unused_id fid (nd_adapter s) \<Longrightarrow>
    l2_step s (Delete keys fid) (s\<lparr>nd_adapter := snd (submit_delete keys fid (nd_adapter s))\<rparr>)"
| timeout: "l2_step s (Delete_timeout task_id) (s\<lparr>nd_adapter := delete_timeout task_id (nd_adapter s)\<rparr>)"
| unlock: "l2_step s (Unlock keys) (s\<lparr>nd_adapter := submit_unlock keys (nd_adapter s)\<rparr>)"
| touch: "l2_step s (Touch keys) (s\<lparr>nd_policy := policy_notify (l2_notification (On_l2_keys_accessed keys)) (nd_policy s)\<rparr>)"
| pop_stores: "l2_step s Pop_stores (s\<lparr>nd_adapter := snd (pop_completed_store_tasks (nd_adapter s))\<rparr>)"
| query_lookup: "l2_step s (Query_lookup task_id) (s\<lparr>nd_adapter := snd (query_lookup_and_lock_result task_id (nd_adapter s))\<rparr>)"
| query_load: "l2_step s (Query_load task_id) (s\<lparr>nd_adapter := snd (query_load_result task_id (nd_adapter s))\<rparr>)"
| drain: "nd_alive s \<Longrightarrow> nd_tasks s = [] \<Longrightarrow> answers_fit cs (nd_adapter s) \<Longrightarrow>
    drain cs (nd_adapter s) empty_batch = Inr (a, b) \<Longrightarrow>
    l2_step s (Drain cs) (s\<lparr>nd_adapter := a, nd_tasks := demux_tasks b\<rparr>)"
| drain_raises: "nd_alive s \<Longrightarrow> nd_tasks s = [] \<Longrightarrow> answers_fit cs (nd_adapter s) \<Longrightarrow>
    drain cs (nd_adapter s) empty_batch = Inl e \<Longrightarrow> l2_step s (Drain cs) (s\<lparr>nd_alive := False\<rparr>)"
| report: "nd_alive s \<Longrightarrow> nd_tasks s = t # ts \<Longrightarrow> do_task t s = Inr s' \<Longrightarrow> l2_step s Report (s'\<lparr>nd_tasks := ts\<rparr>)"
| report_raises: "nd_alive s \<Longrightarrow> nd_tasks s = t # ts \<Longrightarrow> do_task t s = Inl e \<Longrightarrow> l2_step s Report (s\<lparr>nd_alive := False\<rparr>)"

inductive l2_steps :: "l2_node \<Rightarrow> l2_label list \<Rightarrow> l2_node \<Rightarrow> bool" where
  refl: "l2_steps s [] s"
| step: "l2_step s l s1 \<Longrightarrow> l2_steps s1 ls s2 \<Longrightarrow> l2_steps s (l # ls) s2"

inductive_cases l2_stepE: "l2_step s l s'"

text \<open>What the interface asks of a store: one object per key; and objects have a size.\<close>

fun l2_label_ok :: "l2_label \<Rightarrow> bool" where
  "l2_label_ok (Store keys objects fid) =
     (length objects = length keys \<and> (\<forall>obj \<in> set objects. 0 \<le> get_size obj))"
| "l2_label_ok _ = True"

section \<open>Completions keep the tables\<close>

text \<open>The requests in the tables are as the submitting methods made them.\<close>

definition requests_ok :: "native_adapter \<Rightarrow> bool" where
  "requests_ok a \<longleftrightarrow>
     (\<forall>fid entry. map_of (pending_ops a) fid = Some entry \<longrightarrow> po_type entry \<noteq> OP_STORE \<longrightarrow>
        (\<exists>ks. po_keys entry = Some ks \<and> length ks = po_num_keys entry)) \<and>
     (\<forall>fid ks sizes. map_of (pending_store_sizes a) fid = Some (ks, sizes) \<longrightarrow>
        length ks = length sizes \<and> (\<forall>n \<in> set sizes. 0 \<le> n))"

text \<open>
  The batch accounts for the difference between the table before, \<open>kvs\<close>, and now: keys only leave
  through its deleted keys and only come through its stored keys.
\<close>

definition batch_ok :: "(object_key, int) dict \<Rightarrow> native_adapter \<Rightarrow> demux_batch \<Rightarrow> bool" where
  "batch_ok kvs a b \<longleftrightarrow> dict_ok (key_sizes a) \<and> (\<forall>n \<in> set (dict_values (key_sizes a)). 0 \<le> n) \<and>
     length (db_keys_stored b) = length (db_sizes_stored b) \<and> length (db_keys_deleted b) = length (db_sizes_deleted b) \<and>
     (\<forall>n \<in> set (db_sizes_stored b). 0 \<le> n) \<and> (\<forall>n \<in> set (db_sizes_deleted b). 0 \<le> n) \<and>
     bytes_of (key_sizes a) = bytes_of kvs + bytes_of (zip (db_keys_stored b) (db_sizes_stored b)) -
       bytes_of (zip (db_keys_deleted b) (db_sizes_deleted b)) \<and>
     (\<forall>salt. salt_sum salt (key_sizes a) = salt_sum salt kvs + salt_sum salt (zip (db_keys_stored b) (db_sizes_stored b)) -
       salt_sum salt (zip (db_keys_deleted b) (db_sizes_deleted b))) \<and>
     set (dict_keys kvs) \<union> set (db_keys_stored b) - set (db_keys_deleted b) \<subseteq> set (dict_keys (key_sizes a)) \<and>
     set (dict_keys (key_sizes a)) \<subseteq> set (dict_keys kvs) \<union> set (db_keys_stored b)"

lemma batch_ok_cong:
  "key_sizes a' = key_sizes a \<Longrightarrow> db_keys_stored b' = db_keys_stored b \<Longrightarrow> db_sizes_stored b' = db_sizes_stored b \<Longrightarrow>
   db_keys_deleted b' = db_keys_deleted b \<Longrightarrow> db_sizes_deleted b' = db_sizes_deleted b \<Longrightarrow> batch_ok kvs a' b' = batch_ok kvs a b"
  by (simp add: batch_ok_def)

lemma store_new_ok:
  assumes "batch_ok kvs a b" "0 \<le> n" "key \<notin> set (dict_keys (key_sizes a))"
  shows "batch_ok kvs (a\<lparr>key_sizes := AList.update key n (key_sizes a)\<rparr>)
    (b\<lparr>db_keys_stored := db_keys_stored b @ [key], db_sizes_stored := db_sizes_stored b @ [n]\<rparr>)"
proof -
  from assms(3) have None: "map_of (key_sizes a) key = None" by (simp add: dict_get_None_iff)
  from assms(1) have "\<forall>m \<in> set (dict_values (key_sizes a)). 0 \<le> m" by (simp add: batch_ok_def)
  then have "\<forall>m \<in> set (dict_values (AList.update key n (key_sizes a))). 0 \<le> m"
    using set_dict_values_update[of key n "key_sizes a"] assms(2) by blast
  with assms None show ?thesis unfolding batch_ok_def by (auto simp: sums_update_new dom_update)
qed

lemma store_again_ok:
  assumes "batch_ok kvs a b" "key \<in> set (dict_keys (key_sizes a))"
  shows "batch_ok kvs a (b\<lparr>db_keys_stored := db_keys_stored b @ [key], db_sizes_stored := db_sizes_stored b @ [0]\<rparr>)"
  using assms unfolding batch_ok_def by auto

lemma delete_one_ok:
  assumes "batch_ok kvs a b" "map_of (key_sizes a) key = Some n"
  shows "batch_ok kvs (a\<lparr>key_sizes := AList.delete key (key_sizes a)\<rparr>)
    (b\<lparr>db_keys_deleted := db_keys_deleted b @ [key], db_sizes_deleted := db_sizes_deleted b @ [n]\<rparr>)"
proof -
  have ok: "dict_ok (key_sizes a)" using assms(1) by (simp add: batch_ok_def)
  have "n \<in> set (dict_values (key_sizes a))" using assms(2) by (force dest: map_of_SomeD)
  with assms(1) have "0 \<le> n" by (auto simp: batch_ok_def)
  moreover from assms(1) have "\<forall>m \<in> set (dict_values (key_sizes a)). 0 \<le> m" by (simp add: batch_ok_def)
  then have "\<forall>m \<in> set (dict_values (AList.delete key (key_sizes a))). 0 \<le> m"
    using set_dict_values_delete[of key "key_sizes a"] by blast
  ultimately show ?thesis
    using assms(1) sums_delete[OF ok assms(2)] dict_ok_delete[OF ok, of key] dict_keys_delete[of key "key_sizes a"]
    unfolding batch_ok_def by auto
qed

definition same_counters :: "native_adapter \<Rightarrow> native_adapter \<Rightarrow> bool" where
  "same_counters a a' \<longleftrightarrow> max_capacity_bytes a' = max_capacity_bytes a \<and> total_bytes_used a' = total_bytes_used a \<and>
     bytes_by_cache_salt a' = bytes_by_cache_salt a"

lemma same_counters_trans: "same_counters a b \<Longrightarrow> same_counters b c \<Longrightarrow> same_counters a c"
  by (simp add: same_counters_def)

lemma store_each_law:
  assumes "batch_ok kvs a b" "\<forall>n \<in> set (dict_values xs). 0 \<le> n" "store_each xs a b t = (a', b', t')"
  shows "batch_ok kvs a' b' \<and> t \<le> t' \<and> a' = a\<lparr>key_sizes := key_sizes a'\<rparr>"
  using assms
proof (induction xs a b t rule: store_each.induct)
  case (2 key n rest a b t)
  show ?case
  proof (cases "key \<in> set (dict_keys (key_sizes a))")
    case True
    with 2(2)[OF _ store_again_ok[OF "2.prems"(1) True]] "2.prems" show ?thesis by simp
  next
    case False
    have "0 \<le> n" using "2.prems"(2) by simp
    from 2(1)[OF False store_new_ok[OF "2.prems"(1) this False]] "2.prems" False show ?thesis
      by (auto intro: order_trans)
  qed
qed simp

lemma delete_each_law:
  assumes "batch_ok kvs a b" "\<forall>(i, d) \<in> set xs. i < length ks"
  shows "ensures (delete_each xs ks a b) (\<lambda>(a', b'). batch_ok kvs a' b' \<and> a' = a\<lparr>key_sizes := key_sizes a'\<rparr>)"
  using assms
proof (induction xs ks a b rule: delete_each.induct)
  case (2 i deleted rest ks a b)
  show ?case
  proof (cases "deleted \<and> map_of (key_sizes a) (ks ! i) \<noteq> None")
    case True
    then obtain n where n: "map_of (key_sizes a) (ks ! i) = Some n" by auto
    from 2(3)[OF _ _ n delete_one_ok[OF "2.prems"(1) n]] "2.prems"(2) True n show ?thesis
      by (auto elim!: ensures_mono)
  next
    case False
    with 2(1,2) "2.prems" show ?thesis by auto
  qed
qed simp

lemma answer_loops:
  assumes "\<forall>(i, d) \<in> set xs. i < length ks"
  shows "\<exists>r. lock_found xs (Some ks) bm locks = Inr r" "\<exists>r. mark_loaded xs (Some ks) bm loaded = Inr r"
  using assms by (induction xs arbitrary: bm locks loaded) auto

lemma complete_store_law:
  assumes "requests_ok a" "batch_ok kvs a b"
  shows "ensures (complete_store c entry a b) (\<lambda>(a', b'). requests_ok a' \<and> batch_ok kvs a' b' \<and> same_counters a a' \<and>
    pending_ops a' = pending_ops a)"
proof -
  let ?a = "a\<lparr>pending_store_sizes := AList.delete (cp_future_id c) (pending_store_sizes a)\<rparr>"
  have a: "requests_ok ?a" "batch_ok kvs ?a b"
    using assms(1) batch_ok_cong[of ?a a b b kvs] assms(2) by (auto simp: requests_ok_def)
  show ?thesis
  proof (cases "if cp_ok c then map_of (pending_store_sizes a) (cp_future_id c) else None")
    case None
    with a show ?thesis
      by (auto simp: complete_store_def L2StoreResult_def requests_ok_def same_counters_def
          batch_ok_cong[of "?a\<lparr>completed_stores := _\<rparr>" ?a b b])
  next
    case (Some info)
    then obtain ks sizes where i: "info = (ks, sizes)" "map_of (pending_store_sizes a) (cp_future_id c) = Some (ks, sizes)"
      by (cases info) (auto split: if_splits)
    with assms(1) have l: "length ks = length sizes" "\<forall>n \<in> set sizes. 0 \<le> n" by (auto simp: requests_ok_def)
    obtain a2 b2 t where s: "store_each (zip ks sizes) ?a b 0 = (a2, b2, t)" by (metis prod.exhaust)
    note law = store_each_law[OF a(2) _ s]
    with l have a2: "batch_ok kvs a2 b2" "0 \<le> t" "a2 = ?a\<lparr>key_sizes := key_sizes a2\<rparr>" by auto
    have "requests_ok a2" "same_counters a a2" "pending_ops a2 = pending_ops a"
      by (subst a2(3), use a(1) in \<open>simp add: requests_ok_def same_counters_def\<close>)+
    with Some i l s a2(1,2) show ?thesis
      by (auto simp: complete_store_def L2StoreResult_def requests_ok_def same_counters_def
          batch_ok_cong[of "a2\<lparr>completed_stores := _\<rparr>" a2 b2 b2])
  qed
qed

lemma complete_delete_law:
  assumes "requests_ok a" "batch_ok kvs a b" "po_keys entry = Some ks" "\<And>bs. cp_result_bools c = Some bs \<Longrightarrow> length bs = length ks"
  shows "ensures (complete_delete c entry a b) (\<lambda>(a', b'). requests_ok a' \<and> batch_ok kvs a' b' \<and> same_counters a a' \<and>
    pending_ops a' = pending_ops a)"
proof -
  let ?r = "case (cp_result_bools c, po_keys entry) of (Some bs, Some ks) \<Rightarrow> delete_each (enumerate 0 bs) ks a b | _ \<Rightarrow> Inr (a, b)"
  have "ensures ?r (\<lambda>(a', b'). batch_ok kvs a' b' \<and> a' = a\<lparr>key_sizes := key_sizes a'\<rparr>)"
  proof (cases "cp_result_bools c")
    case (Some bs)
    with assms(4) have "\<forall>(i, d) \<in> set (enumerate 0 bs). i < length ks" by (auto simp: in_set_enumerate_eq)
    from delete_each_law[OF assms(2) this] Some assms(3) show ?thesis by simp
  qed (use assms(2) in simp)
  then obtain a1 b1 where r: "?r = Inr (a1, b1)" "batch_ok kvs a1 b1" "a1 = a\<lparr>key_sizes := key_sizes a1\<rparr>"
    by (elim ensuresE) auto
  have "requests_ok a1" "same_counters a a1" "pending_ops a1 = pending_ops a"
    by (subst r(3), use assms(1) in \<open>simp add: requests_ok_def same_counters_def\<close>)+
  with r(2) show ?thesis unfolding complete_delete_def r(1)
    by (auto simp: requests_ok_def same_counters_def batch_ok_def)
qed

lemma complete_load_law:
  assumes "requests_ok a" "batch_ok kvs a b" "po_keys entry = Some ks" "\<And>bs. cp_result_bools c = Some bs \<Longrightarrow> length bs = length ks"
  shows "ensures (complete_load c entry a b) (\<lambda>(a', b'). requests_ok a' \<and> batch_ok kvs a' b' \<and> same_counters a a' \<and>
    pending_ops a' = pending_ops a)"
proof (cases "cp_result_bools c")
  case None
  with assms(1-3) show ?thesis
    by (auto simp: complete_load_def Let_def requests_ok_def same_counters_def batch_ok_def)
next
  case (Some bs)
  with assms(4) have "\<forall>(i, d) \<in> set (enumerate 0 bs). i < length ks" by (auto simp: in_set_enumerate_eq)
  from answer_loops(2)[OF this] obtain r where
    "mark_loaded (enumerate 0 bs) (Some ks) (bm_new (po_num_keys entry)) [] = Inr r" by blast
  with Some assms(1-3) show ?thesis
    by (cases r) (auto simp: complete_load_def Let_def requests_ok_def same_counters_def batch_ok_def)
qed

lemma complete_one_law:
  assumes "requests_ok a" "batch_ok kvs a b" "answers_fit [c] a"
  shows "ensures (complete_one c a b) (\<lambda>(a', b'). requests_ok a' \<and> batch_ok kvs a' b' \<and> same_counters a a' \<and>
    (pending_ops a' = pending_ops a \<or> pending_ops a' = AList.delete (cp_future_id c) (pending_ops a)))"
proof (cases "map_of (pending_ops a) (cp_future_id c)")
  case None
  with assms show ?thesis by (simp add: complete_one_def same_counters_def)
next
  case (Some entry)
  let ?a = "a\<lparr>pending_ops := AList.delete (cp_future_id c) (pending_ops a)\<rparr>"
  have a: "requests_ok ?a" "batch_ok kvs ?a b" "same_counters a ?a"
    using assms(1) batch_ok_cong[of ?a a b b kvs] assms(2) by (auto simp: requests_ok_def same_counters_def)
  have keys: "\<exists>ks. po_keys entry = Some ks \<and> (\<forall>bs. cp_result_bools c = Some bs \<longrightarrow> length bs = length ks)"
    if "po_type entry \<noteq> OP_STORE"
    using assms(1,3) Some that by (fastforce simp: requests_ok_def answers_fit_def)
  show ?thesis
  proof (cases "po_type entry")
    case OP_STORE
    from complete_store_law[OF a(1,2), of c entry] Some OP_STORE a(3) show ?thesis
      by (auto simp: complete_one_def elim!: ensures_mono intro: same_counters_trans)
  next
    case OP_LOOKUP
    with keys obtain ks where ks: "po_keys entry = Some ks" "\<And>bs. cp_result_bools c = Some bs \<Longrightarrow> length bs = length ks" by auto
    let ?bs = "case (if cp_ok c then cp_result_bools c else None) of None \<Rightarrow> [] | Some bs \<Rightarrow> bs"
    have "\<forall>(i, d) \<in> set (enumerate 0 ?bs). i < length ks"
      using ks(2) by (auto simp: in_set_enumerate_eq split: option.splits)
    from answer_loops(1)[OF this] obtain r where
      "lock_found (enumerate 0 ?bs) (Some ks) (bm_new (po_num_keys entry)) (locked_keys ?a) = Inr r" by blast
    with Some OP_LOOKUP ks(1) a show ?thesis
      by (cases r) (auto simp: complete_one_def complete_lookup_def requests_ok_def same_counters_def batch_ok_def)
  next
    case OP_LOAD
    with keys obtain ks where ks: "po_keys entry = Some ks" "\<And>bs. cp_result_bools c = Some bs \<Longrightarrow> length bs = length ks" by auto
    from complete_load_law[where c = c, OF a(1,2) ks] Some OP_LOAD a(3) show ?thesis
      by (auto simp: complete_one_def elim!: ensures_mono intro: same_counters_trans)
  next
    case OP_DELETE
    with keys obtain ks where ks: "po_keys entry = Some ks" "\<And>bs. cp_result_bools c = Some bs \<Longrightarrow> length bs = length ks" by auto
    from complete_delete_law[where c = c, OF a(1,2) ks] Some OP_DELETE a(3) show ?thesis
      by (auto simp: complete_one_def elim!: ensures_mono intro: same_counters_trans)
  qed
qed

lemma drain_law:
  "requests_ok a \<Longrightarrow> batch_ok kvs a b \<Longrightarrow> answers_fit cs a \<Longrightarrow>
     ensures (drain cs a b) (\<lambda>(a', b'). requests_ok a' \<and> batch_ok kvs a' b' \<and> same_counters a a')"
proof (induction cs arbitrary: a b)
  case Nil
  then show ?case by (simp add: same_counters_def)
next
  case (Cons c cs)
  from Cons.prems(3) have "answers_fit [c] a" by (simp add: answers_fit_def)
  from complete_one_law[OF Cons.prems(1,2) this] obtain a1 b1 where
    1: "complete_one c a b = Inr (a1, b1)" "requests_ok a1" "batch_ok kvs a1 b1" "same_counters a a1"
      "pending_ops a1 = pending_ops a \<or> pending_ops a1 = AList.delete (cp_future_id c) (pending_ops a)"
    by (elim ensuresE) auto
  from 1(5) Cons.prems(3) have "answers_fit cs a1" by (auto simp: answers_fit_def split: if_splits)
  from Cons.IH[OF 1(2,3) this] 1(1,4) show ?case
    by (auto elim!: ensures_mono intro: same_counters_trans)
qed

section \<open>Invariant\<close>

text \<open>The batches that wait to be counted, and what the policy still has to be told.\<close>

fun uncounted_stored :: "demux_task list \<Rightarrow> (object_key \<times> int) list" where
  "uncounted_stored [] = []"
| "uncounted_stored (Account_stored ks ns # ts) = zip ks ns @ uncounted_stored ts"
| "uncounted_stored (_ # ts) = uncounted_stored ts"

fun uncounted_deleted :: "demux_task list \<Rightarrow> (object_key \<times> int) list" where
  "uncounted_deleted [] = []"
| "uncounted_deleted (Account_deleted ks ns # ts) = zip ks ns @ uncounted_deleted ts"
| "uncounted_deleted (_ # ts) = uncounted_deleted ts"

fun untold :: "demux_task list \<Rightarrow> object_key notification list" where
  "untold [] = []"
| "untold (Call_listeners out # ts) = l2_notification out # untold ts"
| "untold (_ # ts) = untold ts"

text \<open>Well-formed batches; deletions are counted last.\<close>

fun tasks_ok :: "demux_task list \<Rightarrow> bool" where
  "tasks_ok [] = True"
| "tasks_ok (Account_stored ks ns # ts) = (length ks = length ns \<and> uncounted_stored ts = [] \<and> tasks_ok ts)"
| "tasks_ok (Account_deleted ks ns # ts) =
     (length ks = length ns \<and> (\<forall>n \<in> set ns. 0 \<le> n) \<and> uncounted_stored ts = [] \<and> uncounted_deleted ts = [] \<and> tasks_ok ts)"
| "tasks_ok (_ # ts) = tasks_ok ts"

definition node_inv :: "l2_node \<Rightarrow> bool" where
  "node_inv s \<longleftrightarrow> nd_alive s \<and> requests_ok (nd_adapter s) \<and> tasks_ok (nd_tasks s) \<and>
     dict_ok (key_sizes (nd_adapter s)) \<and> (\<forall>n \<in> set (dict_values (key_sizes (nd_adapter s))). 0 \<le> n) \<and>
     ledger (key_sizes (nd_adapter s)) (uncounted_stored (nd_tasks s)) (uncounted_deleted (nd_tasks s)) (nd_adapter s) \<and>
     policy_inv (nd_policy s) \<and>
     fold known (untold (nd_tasks s)) (policy_tracked (nd_policy s)) \<subseteq> set (dict_keys (key_sizes (nd_adapter s)))"

lemma fold_known_mono: "A \<subseteq> B \<Longrightarrow> fold known ns A \<subseteq> fold known ns B"
proof (induction ns arbitrary: A B)
  case (Cons n ns)
  have "known n A \<subseteq> known n B" using Cons.prems by (cases n) auto
  from Cons.IH[OF this] show ?case by simp
qed simp

lemma policy_notify_sub: "policy_inv p \<Longrightarrow> policy_inv (policy_notify n p) \<and> policy_tracked (policy_notify n p) \<subseteq> known n (policy_tracked p)"
  using policy_notify_law[of p n] by auto

lemma node_init_inv: "policy_inv p \<Longrightarrow> policy_tracked p = {} \<Longrightarrow> node_inv (node_init (native_init gb pad deletes) p)"
  by (simp add: node_inv_def node_init_def native_init_def requests_ok_def ledger_def salt_bytes_def)

lemma do_task_inv:
  assumes "node_inv s" "nd_tasks s = t # ts"
  shows "ensures (do_task t s) (\<lambda>s'. node_inv (s'\<lparr>nd_tasks := ts\<rparr>) \<and> key_sizes (nd_adapter s') = key_sizes (nd_adapter s) \<and>
    max_capacity_bytes (nd_adapter s') = max_capacity_bytes (nd_adapter s) \<and>
    pending_ops (nd_adapter s') = pending_ops (nd_adapter s))"
proof (cases t)
  case (Account_stored ks ns)
  with assms have "ledger (key_sizes (nd_adapter s)) (zip ks ns) (uncounted_deleted ts) (nd_adapter s)" "length ks = length ns"
    by (auto simp: node_inv_def)
  then obtain a where a: "account_stored ks ns (nd_adapter s) = Inr a" "ledger (key_sizes (nd_adapter s)) [] (uncounted_deleted ts) a"
      "a = (nd_adapter s)\<lparr>total_bytes_used := total_bytes_used a, bytes_by_cache_salt := bytes_by_cache_salt a\<rparr>"
    by (rule account_stored_law)
  have f: "key_sizes a = key_sizes (nd_adapter s)" "requests_ok a = requests_ok (nd_adapter s)"
      "max_capacity_bytes a = max_capacity_bytes (nd_adapter s)" "pending_ops a = pending_ops (nd_adapter s)"
    by (subst a(3), simp add: requests_ok_def)+
  from assms Account_stored a(1,2) f show ?thesis by (simp add: node_inv_def)
next
  case (Account_deleted ks ns)
  with assms have "ledger (key_sizes (nd_adapter s)) [] (zip ks ns) (nd_adapter s)" "length ks = length ns"
      "\<forall>n \<in> set (dict_values (key_sizes (nd_adapter s))). 0 \<le> n" "\<forall>n \<in> set ns. 0 \<le> n"
    by (auto simp: node_inv_def)
  then obtain a where a: "account_deleted ks ns (nd_adapter s) = Inr a" "ledger (key_sizes (nd_adapter s)) [] [] a"
      "a = (nd_adapter s)\<lparr>total_bytes_used := total_bytes_used a, bytes_by_cache_salt := bytes_by_cache_salt a\<rparr>"
    by (rule account_deleted_law)
  have f: "key_sizes a = key_sizes (nd_adapter s)" "requests_ok a = requests_ok (nd_adapter s)"
      "max_capacity_bytes a = max_capacity_bytes (nd_adapter s)" "pending_ops a = pending_ops (nd_adapter s)"
    by (subst a(3), simp add: requests_ok_def)+
  from assms Account_deleted a(1,2) f show ?thesis by (simp add: node_inv_def)
next
  case (Call_listeners out)
  from assms(1) have p: "policy_inv (nd_policy s)" by (simp add: node_inv_def)
  note sub = policy_notify_sub[OF p, of "l2_notification out"]
  from fold_known_mono[of _ _ "untold ts", OF conjunct2[OF sub]] sub assms Call_listeners show ?thesis
    by (auto simp: node_inv_def)
next
  case (Set_events ids)
  with assms show ?thesis by (simp add: node_inv_def)
qed

lemma demux_tasks_simps:
  "length (db_keys_stored b) = length (db_sizes_stored b) \<Longrightarrow>
     uncounted_stored (demux_tasks b) = zip (db_keys_stored b) (db_sizes_stored b)"
  "uncounted_deleted (demux_tasks b) = zip (db_keys_deleted b) (db_sizes_deleted b)"
  "fold known (untold (demux_tasks b)) T = T \<union> set (db_keys_stored b) - set (db_keys_deleted b)"
  by (auto simp: demux_tasks_def)

lemma drained_inv:
  assumes "node_inv s" "nd_tasks s = []" "answers_fit cs (nd_adapter s)"
  obtains a b where "drain cs (nd_adapter s) empty_batch = Inr (a, b)" "batch_ok (key_sizes (nd_adapter s)) a b"
    "node_inv (s\<lparr>nd_adapter := a, nd_tasks := demux_tasks b\<rparr>)"
proof -
  let ?a = "nd_adapter s" and ?T = "policy_tracked (nd_policy s)"
  from assms(1,2) have s: "requests_ok ?a" "batch_ok (key_sizes ?a) ?a empty_batch" "ledger (key_sizes ?a) [] [] ?a"
      "?T \<subseteq> set (dict_keys (key_sizes ?a))"
    by (simp_all add: node_inv_def batch_ok_def empty_batch_def)
  from drain_law[OF s(1,2) assms(3)] obtain a b where
    d: "drain cs ?a empty_batch = Inr (a, b)" "requests_ok a" "batch_ok (key_sizes ?a) a b" "same_counters ?a a"
    by (elim ensuresE) auto
  from d(3) have len: "length (db_keys_stored b) = length (db_sizes_stored b)" by (simp add: batch_ok_def)
  have "tasks_ok (demux_tasks b)" using d(3) by (simp add: demux_tasks_def batch_ok_def)
  moreover have "ledger (key_sizes a) (uncounted_stored (demux_tasks b)) (uncounted_deleted (demux_tasks b)) a"
    using s(3) d(3,4) len by (simp add: demux_tasks_simps ledger_def batch_ok_def same_counters_def)
  moreover have "fold known (untold (demux_tasks b)) ?T \<subseteq> set (dict_keys (key_sizes a))"
    using s(4) d(3) unfolding demux_tasks_simps(3) batch_ok_def by blast
  ultimately have "node_inv (s\<lparr>nd_adapter := a, nd_tasks := demux_tasks b\<rparr>)"
    using assms(1) d(2,3) by (simp add: node_inv_def batch_ok_def)
  with d(1,3) show ?thesis by (rule that)
qed

lemma do_task_frame:
  "do_task t (s\<lparr>nd_tasks := us\<rparr>) = (case do_task t s of Inl e \<Rightarrow> Inl e | Inr s' \<Rightarrow> Inr (s'\<lparr>nd_tasks := us\<rparr>))"
  by (cases t) (auto split: sum.splits)

lemma do_tasks_frame:
  "do_tasks ts (s\<lparr>nd_tasks := us\<rparr>) = (case do_tasks ts s of Inl e \<Rightarrow> Inl e | Inr s' \<Rightarrow> Inr (s'\<lparr>nd_tasks := us\<rparr>))"
  by (induction ts arbitrary: s) (auto simp: do_task_frame split: sum.splits)

lemma do_tasks_inv:
  "node_inv s \<Longrightarrow> nd_tasks s = ts \<Longrightarrow> nd_policy s \<noteq> NoOp_policy \<Longrightarrow>
     ensures (do_tasks ts s) (\<lambda>s'. node_inv (s'\<lparr>nd_tasks := []\<rparr>) \<and> key_sizes (nd_adapter s') = key_sizes (nd_adapter s) \<and>
       policy_tracked (nd_policy s') = fold known (untold ts) (policy_tracked (nd_policy s)))"
proof (induction ts arbitrary: s)
  case Nil
  then show ?case by (simp add: node_inv_def)
next
  case (Cons t ts)
  note noop = Cons.prems(3)
  have p: "policy_inv (nd_policy s)" using Cons.prems(1) by (simp add: node_inv_def)
  from do_task_inv[OF Cons.prems(1,2)] obtain s1 where
    1: "do_task t s = Inr s1" "node_inv (s1\<lparr>nd_tasks := ts\<rparr>)" "key_sizes (nd_adapter s1) = key_sizes (nd_adapter s)"
    by (elim ensuresE) auto
  from 1(1) noop have pol: "nd_policy s1 \<noteq> NoOp_policy \<and>
      fold known (untold (t # ts)) (policy_tracked (nd_policy s)) = fold known (untold ts) (policy_tracked (nd_policy s1))"
    using policy_notify_law[OF p] by (cases t) (auto split: sum.splits)
  from Cons.IH[OF 1(2)] pol have "ensures (do_tasks ts (s1\<lparr>nd_tasks := ts\<rparr>)) (\<lambda>s'. node_inv (s'\<lparr>nd_tasks := []\<rparr>) \<and>
      key_sizes (nd_adapter s') = key_sizes (nd_adapter s1) \<and>
      policy_tracked (nd_policy s') = fold known (untold ts) (policy_tracked (nd_policy s1)))" by simp
  with 1(1,3) pol show ?case unfolding do_tasks_frame by (auto split: sum.splits)
qed

lemma requests_ok_register:
  "requests_ok a \<Longrightarrow> t = OP_STORE \<or> (\<exists>ks. keys = Some ks \<and> length ks = n) \<Longrightarrow> requests_ok (snd (register_op t n keys fid a))"
  by (auto simp: requests_ok_def register_op_def get_next_task_id_def)

lemma register_op_frame [simp]:
  "key_sizes (snd (register_op t n keys fid a)) = key_sizes a"
  "max_capacity_bytes (snd (register_op t n keys fid a)) = max_capacity_bytes a"
  "total_bytes_used (snd (register_op t n keys fid a)) = total_bytes_used a"
  "bytes_by_cache_salt (snd (register_op t n keys fid a)) = bytes_by_cache_salt a"
  "pending_store_sizes (snd (register_op t n keys fid a)) = pending_store_sizes a"
  by (simp_all add: register_op_def get_next_task_id_def)

text \<open>A step of the adapter that leaves the table of sizes and the counters alone.\<close>

lemma node_inv_adapter:
  assumes "node_inv s" "requests_ok a" "key_sizes a = key_sizes (nd_adapter s)" "same_counters (nd_adapter s) a"
  shows "node_inv (s\<lparr>nd_adapter := a\<rparr>)"
  using assms by (simp add: node_inv_def ledger_def same_counters_def)

lemma submit_store_inv:
  assumes "node_inv s" "length objects = length keys" "\<forall>obj \<in> set objects. 0 \<le> get_size obj"
  shows "node_inv (s\<lparr>nd_adapter := snd (submit_store_task keys objects fid (nd_adapter s))\<rparr>)"
proof (rule node_inv_adapter[OF assms(1)])
  let ?a = "nd_adapter s"
  have "requests_ok ?a" using assms(1) by (simp add: node_inv_def)
  then have "requests_ok (snd (register_op OP_STORE (length keys) None fid ?a))" by (rule requests_ok_register) simp
  moreover have "\<forall>n \<in> set (map (view_length pad) objects). 0 \<le> n" for pad
    using assms(3) by (auto simp: view_length_def)
  ultimately show "requests_ok (snd (submit_store_task keys objects fid ?a))"
    using assms(2) by (auto simp: submit_store_task_def requests_ok_def case_prod_beta)
qed (simp_all add: submit_store_task_def same_counters_def case_prod_beta)

lemma light_ops:
  assumes "requests_ok a"
  shows "requests_ok (snd (submit_lookup_and_lock_task keys fid a))" "requests_ok (snd (submit_load_task keys fid a))"
    "requests_ok (delete_timeout task_id a)" "requests_ok (submit_unlock keys a)"
    "requests_ok (snd (pop_completed_store_tasks a))" "requests_ok (snd (query_lookup_and_lock_result task_id a))"
    "requests_ok (snd (query_load_result task_id a))"
  using assms
  by (auto simp: requests_ok_def register_op_def get_next_task_id_def submit_lookup_and_lock_task_def submit_load_task_def delete_timeout_def submit_unlock_def
      pop_completed_store_tasks_def query_lookup_and_lock_result_def query_load_result_def
      split: option.splits prod.splits if_splits)

lemma light_ops_frame:
  "key_sizes (delete_timeout task_id a) = key_sizes a" "same_counters a (delete_timeout task_id a)"
  "key_sizes (submit_unlock keys a) = key_sizes a" "same_counters a (submit_unlock keys a)"
  "key_sizes (snd (submit_lookup_and_lock_task keys fid a)) = key_sizes a" "same_counters a (snd (submit_lookup_and_lock_task keys fid a))"
  "key_sizes (snd (submit_load_task keys fid a)) = key_sizes a" "same_counters a (snd (submit_load_task keys fid a))"
  "key_sizes (snd (pop_completed_store_tasks a)) = key_sizes a" "same_counters a (snd (pop_completed_store_tasks a))"
  "key_sizes (snd (query_lookup_and_lock_result task_id a)) = key_sizes a"
  "same_counters a (snd (query_lookup_and_lock_result task_id a))"
  "key_sizes (snd (query_load_result task_id a)) = key_sizes a" "same_counters a (snd (query_load_result task_id a))"
  by (simp_all add: delete_timeout_def submit_unlock_def submit_lookup_and_lock_task_def submit_load_task_def
      pop_completed_store_tasks_def query_lookup_and_lock_result_def query_load_result_def same_counters_def)

lemma l2_step_inv:
  assumes "l2_step s l s'" "node_inv s" "l2_label_ok l"
  shows "node_inv s'"
  using assms(1)
proof (cases rule: l2_step.cases)
  case (store fid keys objects)
  with submit_store_inv[OF assms(2), of objects keys fid] assms(3) show ?thesis by simp
next
  case (delete fid keys)
  have r: "requests_ok (nd_adapter s)" using assms(2) by (simp add: node_inv_def)
  from requests_ok_register[OF this, of OP_DELETE "Some keys" "length keys" fid] r
  have "requests_ok (snd (submit_delete keys fid (nd_adapter s)))"
    by (simp add: submit_delete_def case_prod_beta requests_ok_def)
  from node_inv_adapter[OF assms(2) this] delete show ?thesis
    by (simp add: submit_delete_def same_counters_def case_prod_beta)
next
  case (touch keys)
  have p: "policy_inv (nd_policy s)" using assms(2) by (simp add: node_inv_def)
  from policy_notify_sub[OF p, of "Touched keys"]
  have t: "policy_inv (policy_notify (Touched keys) (nd_policy s))"
    "policy_tracked (policy_notify (Touched keys) (nd_policy s)) \<subseteq> policy_tracked (nd_policy s)" by simp_all
  from fold_known_mono[OF t(2), of "untold (nd_tasks s)"] t(1) assms(2) touch show ?thesis
    by (auto simp: node_inv_def)
next
  case (drain cs a b)
  from drained_inv[OF assms(2) drain(4,5)] drain show ?thesis by auto
next
  case (drain_raises cs e)
  from drained_inv[OF assms(2) drain_raises(4,5)] drain_raises show ?thesis by auto
next
  case (report t ts s1)
  from do_task_inv[OF assms(2) report(4)] report show ?thesis by simp
next
  case (report_raises t ts e)
  from do_task_inv[OF assms(2) report_raises(4)] report_raises show ?thesis by simp
qed (use assms(2) in \<open>simp_all add: node_inv_adapter light_ops light_ops_frame conjunct1[OF conjunct2[OF iffD1[OF node_inv_def]]]\<close>)

lemma l2_steps_inv: "l2_steps s ls s' \<Longrightarrow> node_inv s \<Longrightarrow> \<forall>l \<in> set ls. l2_label_ok l \<Longrightarrow> node_inv s'"
  by (induction rule: l2_steps.induct) (auto dest: l2_step_inv)

lemma reports_steps:
  "nd_alive s \<Longrightarrow> nd_tasks s = ts \<Longrightarrow> do_tasks ts s = Inr s' \<Longrightarrow> l2_steps s (replicate (length ts) Report) (s'\<lparr>nd_tasks := []\<rparr>)"
proof (induction ts arbitrary: s s')
  case Nil
  then have "s' = s" "s\<lparr>nd_tasks := []\<rparr> = s" by simp_all
  then show ?case by (simp add: l2_steps.refl)
next
  case (Cons t ts)
  then obtain s1 where 1: "do_task t s = Inr s1" "do_tasks ts s1 = Inr s'" by (auto split: sum.splits)
  have alive: "nd_alive s1" using 1(1) Cons.prems(1) by (cases t) (auto split: sum.splits)
  have "do_tasks ts (s1\<lparr>nd_tasks := ts\<rparr>) = Inr (s'\<lparr>nd_tasks := ts\<rparr>)" by (simp add: do_tasks_frame 1(2))
  from Cons.IH[OF _ _ this] alive have "l2_steps (s1\<lparr>nd_tasks := ts\<rparr>) (replicate (length ts) Report) (s'\<lparr>nd_tasks := []\<rparr>)" by simp
  with l2_step.report[OF Cons.prems(1,2) 1(1)] show ?case by (simp add: l2_steps.step)
qed

section \<open>Properties\<close>

text \<open>
  C38: The byte counters of the adapter are exact. Whatever requests are made, in whatever order the
  connector answers them, whether it reports success or failure, whether callers of delete give up,
  and wherever the threads are interrupted: the demultiplexing thread never raises, the counters
  differ from the sums over the table of stored keys by exactly the batches that thread has taken
  but not counted yet. When it is idle, the usage snapshot gives the
  exact total and, for exactly the salts that hold bytes, the exact bytes; and the eviction policy
  tracks no key that is not stored.
\<close>

theorem l2_usage_exact:
  assumes "CreateEvictionPolicy name = Inr p" "l2_steps (node_init (native_init gb pad deletes) p) ls s"
    and "\<forall>l \<in> set ls. l2_label_ok l"
  shows "nd_alive s \<and>
    ledger (key_sizes (nd_adapter s)) (uncounted_stored (nd_tasks s)) (uncounted_deleted (nd_tasks s)) (nd_adapter s) \<and>
    (nd_tasks s = [] \<longrightarrow> usage_exact (key_sizes (nd_adapter s)) (get_usage (nd_adapter s)) \<and>
       policy_tracked (nd_policy s) \<subseteq> set (dict_keys (key_sizes (nd_adapter s))))"
proof -
  have "node_inv (node_init (native_init gb pad deletes) p)"
    using created_policy_inv[OF assms(1)] by (intro node_init_inv) simp_all
  from l2_steps_inv[OF assms(2) this assms(3)] show ?thesis by (auto simp: node_inv_def intro: ledger_usage)
qed

definition small_obj :: memory_obj where
  "small_obj = new_tensor_obj [[4]] [\<lparr>itemsize = 2\<rparr>] 0 8 KV_2LTD 0 8 MixedAllocator"

definition small_node :: l2_node where
  "small_node = node_init (native_init 1 False True) (LRU_policy (lru_init DISCARD))"

definition answer :: "int \<Rightarrow> bool list option \<Rightarrow> completion" where
  "answer fid bs = \<lparr>cp_future_id = fid, cp_ok = True, cp_result_bools = bs\<rparr>"

definition small_stored :: l2_node where
  "small_stored = (case drain [answer 1 None] (snd (submit_store_task [sample_key] [small_obj] 1 (nd_adapter small_node))) empty_batch of
     Inr (a, b) \<Rightarrow> (case do_tasks (demux_tasks b) (small_node\<lparr>nd_adapter := a, nd_tasks := demux_tasks b\<rparr>) of
        Inr s \<Rightarrow> s\<lparr>nd_tasks := []\<rparr> | Inl _ \<Rightarrow> small_node)
   | Inl _ \<Rightarrow> small_node)"

lemma small_stored_steps:
  "l2_steps small_node [Store [sample_key] [small_obj] 1, Drain [answer 1 None], Report, Report, Report] small_stored"
proof -
  let ?s1 = "small_node\<lparr>nd_adapter := snd (submit_store_task [sample_key] [small_obj] 1 (nd_adapter small_node))\<rparr>"
  have "ensures (drain [answer 1 None] (nd_adapter ?s1) empty_batch) (\<lambda>(a, b). length (demux_tasks b) = 3 \<and>
      ensures (do_tasks (demux_tasks b) (small_node\<lparr>nd_adapter := a, nd_tasks := demux_tasks b\<rparr>)) (\<lambda>_. True))"
    by code_simp
  then obtain a b s where d: "drain [answer 1 None] (nd_adapter ?s1) empty_batch = Inr (a, b)" "length (demux_tasks b) = 3"
      "do_tasks (demux_tasks b) (small_node\<lparr>nd_adapter := a, nd_tasks := demux_tasks b\<rparr>) = Inr s"
    by (elim ensuresE) (auto elim!: ensuresE simp del: drain.simps)
  have 1: "l2_step small_node (Store [sample_key] [small_obj] 1) ?s1"
    by (rule l2_step.store) (simp add: unused_id_def small_node_def node_init_def native_init_def)
  have "l2_step ?s1 (Drain [answer 1 None]) (?s1\<lparr>nd_adapter := a, nd_tasks := demux_tasks b\<rparr>)"
    by (rule l2_step.drain[OF _ _ _ d(1)]) (simp_all add: answers_fit_def answer_def small_node_def node_init_def)
  then have 2: "l2_step ?s1 (Drain [answer 1 None]) (small_node\<lparr>nd_adapter := a, nd_tasks := demux_tasks b\<rparr>)" by simp
  have "l2_steps (small_node\<lparr>nd_adapter := a, nd_tasks := demux_tasks b\<rparr>) (replicate (length (demux_tasks b)) Report) (s\<lparr>nd_tasks := []\<rparr>)"
    by (rule reports_steps[OF _ _ d(3)]) (simp_all add: small_node_def node_init_def)
  moreover have "small_stored = s\<lparr>nd_tasks := []\<rparr>" using d(1,3) by (simp add: small_stored_def)
  ultimately show ?thesis using 1 2 d(2) by (simp add: l2_steps.step numeral_3_eq_3)
qed

theorem l2_usage_exact_witness:
  "usage_exact [(sample_key, 8)] (get_usage (nd_adapter small_stored)) \<and> policy_tracked (nd_policy small_stored) \<subseteq> {sample_key}"
proof -
  have c: "CreateEvictionPolicy ''LRU'' = Inr (LRU_policy (lru_init DISCARD))" by code_simp
  have ok: "\<forall>l \<in> set [Store [sample_key] [small_obj] 1, Drain [answer 1 None], Report, Report, Report]. l2_label_ok l"
    by (simp, code_simp)
  have k: "key_sizes (nd_adapter small_stored) = [(sample_key, 8)]" "nd_tasks small_stored = []" by code_simp+
  from l2_usage_exact[OF c small_stored_steps[unfolded small_node_def] ok] k show ?thesis by simp
qed

text \<open>
  C40: What a batch of completions does to the tracking of keys. If the policy tracks exactly the stored
  keys, then after the demultiplexing thread has taken any batch of completions and reported it, the
  policy tracks exactly the keys stored then, except those that the batch reports as deleted although
  they are stored: all stores of a batch are reported before all deletions of it, so a key whose
  deletion completes before its new store in one batch stays stored and charged but is forgotten.
\<close>

theorem l2_batch_tracking:
  assumes "node_inv s" "nd_tasks s = []" "nd_policy s \<noteq> NoOp_policy" "answers_fit cs (nd_adapter s)"
    and "policy_tracked (nd_policy s) = set (dict_keys (key_sizes (nd_adapter s)))"
  shows "\<exists>a b s'. drain cs (nd_adapter s) empty_batch = Inr (a, b) \<and>
    l2_steps s (Drain cs # replicate (length (demux_tasks b)) Report) s' \<and> nd_tasks s' = [] \<and>
    key_sizes (nd_adapter s') = key_sizes a \<and>
    policy_tracked (nd_policy s') = set (dict_keys (key_sizes (nd_adapter s'))) - set (db_keys_deleted b)"
proof -
  obtain a b where d: "drain cs (nd_adapter s) empty_batch = Inr (a, b)" "batch_ok (key_sizes (nd_adapter s)) a b"
    "node_inv (s\<lparr>nd_adapter := a, nd_tasks := demux_tasks b\<rparr>)" by (rule drained_inv[OF assms(1,2,4)])
  let ?s1 = "s\<lparr>nd_adapter := a, nd_tasks := demux_tasks b\<rparr>"
  have alive: "nd_alive s" using assms(1) by (simp add: node_inv_def)
  from do_tasks_inv[OF d(3)] assms(3) obtain s2 where
    s2: "do_tasks (demux_tasks b) ?s1 = Inr s2" "key_sizes (nd_adapter s2) = key_sizes a"
      "policy_tracked (nd_policy s2) = fold known (untold (demux_tasks b)) (policy_tracked (nd_policy s))"
    by (auto elim: ensuresE)
  have "l2_steps ?s1 (replicate (length (demux_tasks b)) Report) (s2\<lparr>nd_tasks := []\<rparr>)"
    by (rule reports_steps[OF _ _ s2(1)]) (simp_all add: alive)
  with l2_step.drain[OF alive assms(2,4) d(1)]
  have "l2_steps s (Drain cs # replicate (length (demux_tasks b)) Report) (s2\<lparr>nd_tasks := []\<rparr>)" by (rule l2_steps.step)
  moreover have "policy_tracked (nd_policy s2) = set (dict_keys (key_sizes a)) - set (db_keys_deleted b)"
    using d(2) unfolding s2(3) assms(5) demux_tasks_simps(3) batch_ok_def by blast
  ultimately show ?thesis using d(1) s2(2) by (intro exI[of _ a] exI[of _ b] exI[of _ "s2\<lparr>nd_tasks := []\<rparr>"]) simp
qed

text \<open>The key is deleted and stored again while the demultiplexing thread is busy.\<close>

definition small_replaced :: l2_node where
  "small_replaced = small_stored\<lparr>nd_adapter :=
     snd (submit_store_task [sample_key] [small_obj] 3 (snd (submit_delete [sample_key] 2 (nd_adapter small_stored))))\<rparr>"

lemma small_stored_inv: "node_inv small_stored" "0 \<le> get_size small_obj"
proof -
  have "policy_inv (LRU_policy (lru_init DISCARD))" "policy_tracked (LRU_policy (lru_init DISCARD)) = {}"
    by (simp_all add: lru_init_def)
  then have "node_inv small_node" unfolding small_node_def by (rule node_init_inv)
  moreover show "0 \<le> get_size small_obj" by code_simp
  ultimately show "node_inv small_stored" using l2_steps_inv[OF small_stored_steps] by simp
qed

lemma small_replaced_inv: "node_inv small_replaced"
proof -
  have "l2_step small_stored (Delete [sample_key] 2) (small_stored\<lparr>nd_adapter := snd (submit_delete [sample_key] 2 (nd_adapter small_stored))\<rparr>)"
    by (rule l2_step.delete) code_simp
  from l2_step_inv[OF this small_stored_inv(1)] have "node_inv (small_stored\<lparr>nd_adapter := snd (submit_delete [sample_key] 2 (nd_adapter small_stored))\<rparr>)" by simp
  from submit_store_inv[OF this, of "[small_obj]" "[sample_key]" 3] small_stored_inv(2) show ?thesis
    by (simp add: small_replaced_def)
qed

theorem l2_batch_tracking_witness:
  "\<exists>n s'. l2_steps small_replaced (Drain [answer 2 (Some [True]), answer 3 None] # replicate n Report) s' \<and> nd_tasks s' = [] \<and>
     key_sizes (nd_adapter s') = [(sample_key, 8)] \<and> policy_tracked (nd_policy s') = {}"
proof -
  let ?cs = "[answer 2 (Some [True]), answer 3 None]"
  have fit: "answers_fit ?cs (nd_adapter small_replaced)"
  proof -
    have "map_option po_num_keys (map_of (pending_ops (nd_adapter small_replaced)) 2) = Some 1" by code_simp
    then show ?thesis by (auto simp: answers_fit_def answer_def)
  qed
  have c: "case nd_policy small_replaced of LRU_policy l \<Rightarrow> lru_order l = [sample_key] | _ \<Rightarrow> False"
    "nd_tasks small_replaced = []" "key_sizes (nd_adapter small_replaced) = [(sample_key, 8)]" by code_simp+
  then have t: "nd_tasks small_replaced = []" "nd_policy small_replaced \<noteq> NoOp_policy"
    "policy_tracked (nd_policy small_replaced) = set (dict_keys (key_sizes (nd_adapter small_replaced)))"
    by (auto split: policy.splits)
  have r: "ensures (drain ?cs (nd_adapter small_replaced) empty_batch)
      (\<lambda>(a, b). key_sizes a = [(sample_key, 8)] \<and> db_keys_deleted b = [sample_key])" by code_simp
  from l2_batch_tracking[OF small_replaced_inv t(1,2) fit t(3)] obtain a b s' where
    s: "drain ?cs (nd_adapter small_replaced) empty_batch = Inr (a, b)"
      "l2_steps small_replaced (Drain ?cs # replicate (length (demux_tasks b)) Report) s'" "nd_tasks s' = []"
      "key_sizes (nd_adapter s') = key_sizes a"
      "policy_tracked (nd_policy s') = set (dict_keys (key_sizes (nd_adapter s'))) - set (db_keys_deleted b)" by blast
  from r s(1) have "key_sizes a = [(sample_key, 8)]" "db_keys_deleted b = [sample_key]" by simp_all
  with s(2-5) show ?thesis by (intro exI[of _ "length (demux_tasks b)"] exI[of _ s']) simp
qed

end
