(* ===== verification/L2_Eviction.thy ===== *)
theory L2_Eviction
  imports Native_Connector L1_Eviction
begin

text \<open>
  Quotas and eviction of the L2 adapters: \<open>QuotaManager\<close> of
  \<open>lmcache/v1/distributed/quota_manager.py\<close> and \<open>L2EvictionController\<close> of
  \<open>lmcache/v1/distributed/storage_controllers/eviction_controller.py\<close>. The controller is written over
  the two methods of an adapter it calls, \<open>get_usage\<close> and \<open>delete\<close>; the locale \<open>l2_adapter\<close> states what
  it relies on, and the native connector adapter satisfies it.
\<close>

section \<open>Quota registry\<close>

record quota_manager =
  qm_limits :: "(string, int) dict"
  qm_default_limit_bytes :: "int option"

record quota_entry =
  qe_cache_salt :: string
  qe_limit_bytes :: int


definition set_quota :: "string \<Rightarrow> int \<Rightarrow> quota_manager \<Rightarrow> quota_manager result" where
  "set_quota salt limit_bytes qm =
     (if limit_bytes < 0 then Inl ValueError else Inr (qm\<lparr>qm_limits := AList.update salt limit_bytes (qm_limits qm)\<rparr>))"

definition delete_quota :: "string \<Rightarrow> quota_manager \<Rightarrow> bool \<times> quota_manager" where
  "delete_quota salt qm = (map_of (qm_limits qm) salt \<noteq> None, qm\<lparr>qm_limits := AList.delete salt (qm_limits qm)\<rparr>)"

definition get_limit_bytes :: "string \<Rightarrow> quota_manager \<Rightarrow> int" where
  "get_limit_bytes salt qm = (case map_of (qm_limits qm) salt of None \<Rightarrow> 0 | Some n \<Rightarrow> n)"

definition set_default_limit_bytes :: "int option \<Rightarrow> quota_manager \<Rightarrow> quota_manager result" where
  "set_default_limit_bytes limit_bytes qm =
     (case limit_bytes of
        None \<Rightarrow> Inr (qm\<lparr>qm_default_limit_bytes := None\<rparr>)
      | Some n \<Rightarrow> if n < 0 then Inl ValueError else Inr (qm\<lparr>qm_default_limit_bytes := Some n\<rparr>))"

definition get_default_limit_bytes :: "quota_manager \<Rightarrow> int option" where
  "get_default_limit_bytes qm = qm_default_limit_bytes qm"

definition effective_limit_bytes :: "string \<Rightarrow> quota_manager \<Rightarrow> int option" where
  "effective_limit_bytes salt qm =
     (case map_of (qm_limits qm) salt of Some n \<Rightarrow> Some n | None \<Rightarrow> qm_default_limit_bytes qm)"

definition has_quota :: "string \<Rightarrow> quota_manager \<Rightarrow> bool" where
  "has_quota salt qm \<longleftrightarrow> map_of (qm_limits qm) salt \<noteq> None"

definition quota_capture :: "quota_manager \<Rightarrow> (string, int) dict \<times> int option" where
  "quota_capture qm = (qm_limits qm, qm_default_limit_bytes qm)"

definition quota_restore :: "(string, int) dict \<times> int option \<Rightarrow> quota_manager \<Rightarrow> quota_manager" where
  "quota_restore state qm = qm\<lparr>qm_limits := fst state, qm_default_limit_bytes := snd state\<rparr>"

definition list_quotas :: "quota_manager \<Rightarrow> quota_entry list" where
  "list_quotas qm = map (\<lambda>(salt, limit). \<lparr>qe_cache_salt = salt, qe_limit_bytes = limit\<rparr>) (qm_limits qm)"

section \<open>Controller\<close>

text \<open>
  What the controller calls of an adapter. \<open>delete\<close> returns the adapter and the callbacks it has made
  to its listeners.
\<close>

record 'a l2_ops =
  l2_get_usage :: "'a \<Rightarrow> adapter_usage"
  l2_delete :: "object_key list \<Rightarrow> 'a \<Rightarrow> ('a \<times> l2_output list) result"

record 'a l2_eviction_state =
  es_adapter_id :: int
  es_adapter :: 'a
  es_config :: eviction_config
  es_eviction_policy :: policy

definition l2_state_init :: "int \<Rightarrow> 'a \<Rightarrow> eviction_config \<Rightarrow> 'a l2_eviction_state result" where
  "l2_state_init adapter_id adapter cfg =
     (case CreateEvictionPolicy (ec_eviction_policy cfg) of
        Inl e \<Rightarrow> Inl e
      | Inr p \<Rightarrow> Inr \<lparr>es_adapter_id = adapter_id, es_adapter = adapter, es_config = cfg, es_eviction_policy = p\<rparr>)"

text \<open>Both branches of the source discard, whatever the destination is.\<close>

definition execute_l2_action :: "'a l2_ops \<Rightarrow> object_key eviction_action \<Rightarrow> 'a l2_eviction_state \<Rightarrow> 'a l2_eviction_state result" where
  "execute_l2_action ops action st =
     (case l2_delete ops (ea_keys action) (es_adapter st) of
        Inl e \<Rightarrow> Inl e
      | Inr (a, outs) \<Rightarrow>
          Inr (st\<lparr>es_adapter := a,
                 es_eviction_policy := fold policy_notify (map l2_notification outs) (es_eviction_policy st)\<rparr>))"

fun execute_l2_actions :: "'a l2_ops \<Rightarrow> object_key eviction_action list \<Rightarrow> 'a l2_eviction_state \<Rightarrow> 'a l2_eviction_state result" where
  "execute_l2_actions ops [] st = Inr st"
| "execute_l2_actions ops (action # actions) st =
     (case execute_l2_action ops action st of Inl e \<Rightarrow> Inl e | Inr st' \<Rightarrow> execute_l2_actions ops actions st')"

definition check_and_evict_global :: "'a l2_ops \<Rightarrow> 'a l2_eviction_state \<Rightarrow> 'a l2_eviction_state result" where
  "check_and_evict_global ops st =
     (case usage_fraction (l2_get_usage ops (es_adapter st)) of
        Inl e \<Rightarrow> Inl e
      | Inr current_usage \<Rightarrow>
          if current_usage < 0 \<or> current_usage < ec_trigger_watermark (es_config st) then Inr st
          else (case get_eviction_actions (ec_eviction_ratio (es_config st)) None None (es_eviction_policy st) () of
                  Inl e \<Rightarrow> Inl e
                | Inr ((actions, p), _) \<Rightarrow> execute_l2_actions ops actions (st\<lparr>es_eviction_policy := p\<rparr>)))"

text \<open>\<open>pending.setdefault(destination, []).extend(keys)\<close>.\<close>

definition extend_pending ::
  "object_key eviction_action \<Rightarrow> (eviction_destination, object_key list) dict \<Rightarrow> (eviction_destination, object_key list) dict" where
  "extend_pending action pending =
     AList.update (ea_destination action)
       ((case map_of pending (ea_destination action) of None \<Rightarrow> [] | Some ks \<Rightarrow> ks) @ ea_keys action) pending"

fun scan_salts ::
  "quota_manager \<Rightarrow> eviction_config \<Rightarrow> (string \<times> int) list \<Rightarrow> (eviction_destination, object_key list) dict \<Rightarrow> policy
     \<Rightarrow> ((eviction_destination, object_key list) dict \<times> policy) result" where
  "scan_salts qm cfg [] pending p = Inr (pending, p)"
| "scan_salts qm cfg ((salt, user_bytes) # rest) pending p =
     (if user_bytes \<le> 0 then scan_salts qm cfg rest pending p
      else let limit = get_limit_bytes salt qm in
        if of_int user_bytes < float_mul (ec_trigger_watermark cfg) (float_of_int limit)
        then scan_salts qm cfg rest pending p
        else let effective_ratio = (if limit = 0 then 1 else ec_eviction_ratio cfg) in
          case get_eviction_actions effective_ratio None (Some salt) p () of
            Inl e \<Rightarrow> Inl e
          | Inr ((actions, p'), _) \<Rightarrow> scan_salts qm cfg rest (fold extend_pending actions pending) p')"

definition check_and_evict_by_cache_salt :: "quota_manager \<Rightarrow> 'a l2_ops \<Rightarrow> 'a l2_eviction_state \<Rightarrow> 'a l2_eviction_state result" where
  "check_and_evict_by_cache_salt qm ops st =
     (case scan_salts qm (es_config st) (au_bytes_by_cache_salt (l2_get_usage ops (es_adapter st))) [] (es_eviction_policy st) of
        Inl e \<Rightarrow> Inl e
      | Inr (pending, p) \<Rightarrow>
          execute_l2_actions ops (map (\<lambda>(d, ks). \<lparr>ea_destination = d, ea_keys = ks\<rparr>) pending) (st\<lparr>es_eviction_policy := p\<rparr>))"

definition check_and_evict :: "quota_manager option \<Rightarrow> 'a l2_ops \<Rightarrow> 'a l2_eviction_state \<Rightarrow> 'a l2_eviction_state result" where
  "check_and_evict quota ops st =
     (case quota of
        Some qm \<Rightarrow> if support_isolation (es_eviction_policy st) then check_and_evict_by_cache_salt qm ops st
                  else check_and_evict_global ops st
      | None \<Rightarrow> check_and_evict_global ops st)"

text \<open>One round of the loop over all adapters, and the registration of adapters at runtime.\<close>

definition l2_eviction_round :: "quota_manager option \<Rightarrow> 'a l2_ops \<Rightarrow> 'a l2_eviction_state list \<Rightarrow> 'a l2_eviction_state list result" where
  "l2_eviction_round quota ops states = traverse (check_and_evict quota ops) states"

definition add_adapter_state :: "'a l2_eviction_state \<Rightarrow> 'a l2_eviction_state list \<Rightarrow> 'a l2_eviction_state list" where
  "add_adapter_state st states = states @ [st]"

definition remove_adapter_state :: "int \<Rightarrow> 'a l2_eviction_state list \<Rightarrow> 'a l2_eviction_state list" where
  "remove_adapter_state adapter_id states = filter (\<lambda>s. es_adapter_id s \<noteq> adapter_id) states"

section \<open>What a scan selects\<close>

definition over_quota :: "quota_manager \<Rightarrow> eviction_config \<Rightarrow> string \<Rightarrow> int \<Rightarrow> bool" where
  "over_quota qm cfg salt n \<longleftrightarrow> 0 < n \<and> float_mul (ec_trigger_watermark cfg) (float_of_int (get_limit_bytes salt qm)) \<le> of_int n"

definition quota_victims :: "quota_manager \<Rightarrow> eviction_config \<Rightarrow> string \<Rightarrow> object_key list \<Rightarrow> object_key list" where
  "quota_victims qm cfg salt order =
     take (nat (target_count (length order) (if get_limit_bytes salt qm = 0 then 1 else ec_eviction_ratio cfg))) order"

definition scan_victims :: "quota_manager \<Rightarrow> eviction_config \<Rightarrow> iso_policy \<Rightarrow> (string \<times> int) list \<Rightarrow> object_key list" where
  "scan_victims qm cfg i items = concat (map (\<lambda>(salt, n). if over_quota qm cfg salt n then quota_victims qm cfg salt (bucket i salt) else []) items)"

lemma iso_actions_unfiltered:
  "iso_actions r None (Some salt) i () =
     (let vs = take (nat (target_count (length (bucket i salt)) r)) (bucket i salt)
      in Inr ((if vs = [] then [] else [\<lparr>ea_destination = choose_destination (iso_destinations i) (iso_default_destination i), ea_keys = vs\<rparr>], i), ()))"
proof -
  let ?b = "bucket i salt" and ?t = "target_count (length (bucket i salt)) r"
  have "select_victims None ?t ?b [] () = (take (nat ?t) ?b, ())" if "?t \<noteq> 0"
    using select_victims_fixed[of "[]" ?t "\<lambda>_. True" ?b "()"] that target_count_nonneg[of "length ?b" r]
    by (simp add: select_victims_None)
  then show ?thesis unfolding iso_actions_def iso_salt_actions_def bucket_def[symmetric] by (auto simp: Let_def)
qed

lemma scan_salts_isolated:
  fixes i :: iso_policy
  defines "pend \<equiv> \<lambda>ks. if ks = [] then [] else [(choose_destination (iso_destinations i) (iso_default_destination i), ks)]"
  shows "scan_salts qm cfg items (pend ks) (Isolated_policy i) = Inr (pend (ks @ scan_victims qm cfg i items), Isolated_policy i)"
proof (induction items arbitrary: ks)
  case (Cons item items)
  obtain salt n where item: "item = (salt, n)" by (cases item)
  let ?r = "if get_limit_bytes salt qm = 0 then 1 else ec_eviction_ratio cfg"
  let ?d = "choose_destination (iso_destinations i) (iso_default_destination i)"
  have ext: "fold extend_pending (if vs = [] then [] else [\<lparr>ea_destination = ?d, ea_keys = vs\<rparr>]) (pend ks) = pend (ks @ vs)" for vs
    by (simp add: pend_def extend_pending_def)
  have act: "get_eviction_actions ?r None (Some salt) (Isolated_policy i) () =
      Inr ((if quota_victims qm cfg salt (bucket i salt) = [] then [] else [\<lparr>ea_destination = ?d, ea_keys = quota_victims qm cfg salt (bucket i salt)\<rparr>], Isolated_policy i), ())"
    unfolding get_eviction_actions.simps iso_actions_unfiltered quota_victims_def by (simp add: Let_def)
  show ?case
  proof (cases "over_quota qm cfg salt n")
    case True
    then have "scan_salts qm cfg (item # items) (pend ks) (Isolated_policy i) =
        scan_salts qm cfg items (pend (ks @ quota_victims qm cfg salt (bucket i salt))) (Isolated_policy i)"
      unfolding item by (simp add: over_quota_def Let_def act ext not_less del: get_eviction_actions.simps)
    with Cons.IH[of "ks @ quota_victims qm cfg salt (bucket i salt)"] True show ?thesis by (simp add: item scan_victims_def)
  next
    case False
    then have "scan_salts qm cfg (item # items) (pend ks) (Isolated_policy i) = scan_salts qm cfg items (pend ks) (Isolated_policy i)"
      unfolding item by (auto simp: over_quota_def Let_def not_less not_le)
    with Cons.IH[of ks] False show ?thesis by (simp add: item scan_victims_def)
  qed
qed (simp add: scan_victims_def)

text \<open>Victims are keys of the salts over their quota, and of no other.\<close>

lemma scan_victims_salt:
  assumes "iso_inv i" "dict_ok items" "\<And>salt. map_of items salt = (if sum_of salt > 0 then Some (sum_of salt) else None)"
  shows "k \<in> set (scan_victims qm cfg i items) \<longleftrightarrow>
    over_quota qm cfg (cache_salt k) (sum_of (cache_salt k)) \<and> k \<in> set (quota_victims qm cfg (cache_salt k) (bucket i (cache_salt k)))"
proof -
  have salt: "cache_salt k = salt" if "k \<in> set (quota_victims qm cfg salt (bucket i salt))" for salt
    using that bucket_inv[OF assms(1), of salt] by (auto simp: quota_victims_def dest: in_set_takeD)
  have "k \<in> set (scan_victims qm cfg i items) \<longleftrightarrow>
      (\<exists>salt n. (salt, n) \<in> set items \<and> over_quota qm cfg salt n \<and> k \<in> set (quota_victims qm cfg salt (bucket i salt)))"
    by (auto simp: scan_victims_def split: if_splits)
  also have "\<dots> \<longleftrightarrow> (\<exists>n. map_of items (cache_salt k) = Some n \<and> over_quota qm cfg (cache_salt k) n \<and>
      k \<in> set (quota_victims qm cfg (cache_salt k) (bucket i (cache_salt k))))"
    using salt assms(2) by (auto simp: map_of_eq_Some_iff)
  also have "\<dots> \<longleftrightarrow> over_quota qm cfg (cache_salt k) (sum_of (cache_salt k)) \<and> k \<in> set (quota_victims qm cfg (cache_salt k) (bucket i (cache_salt k)))"
    by (auto simp: assms(3) over_quota_def)
  finally show ?thesis .
qed

section \<open>The adapter interface\<close>

text \<open>
  An adapter has a table of the keys it stores with their sizes; its usage report is exact; deleting
  removes those of the given keys that the storage can delete, and tells the listeners which of them
  were stored.
\<close>

definition told_deleted :: "object_key set \<Rightarrow> l2_output list \<Rightarrow> bool" where
  "told_deleted K outs \<longleftrightarrow> (outs = [] \<and> K = {}) \<or> (\<exists>ks. outs = [On_l2_keys_deleted ks] \<and> set ks = K)"

text \<open>
  A settled adapter under the per-salt policy: the policy tracks exactly the stored keys.
\<close>

definition l2_settled :: "('a \<Rightarrow> bool) \<Rightarrow> ('a \<Rightarrow> (object_key, int) dict) \<Rightarrow> 'a l2_eviction_state \<Rightarrow> bool" where
  "l2_settled ainv stored st \<longleftrightarrow> ainv (es_adapter st) \<and>
     (\<exists>i. es_eviction_policy st = Isolated_policy i \<and> iso_inv i \<and> iso_tracked i = set (dict_keys (stored (es_adapter st))))"

definition salt_order :: "'a l2_eviction_state \<Rightarrow> string \<Rightarrow> object_key list" where
  "salt_order st salt = (case es_eviction_policy st of Isolated_policy i \<Rightarrow> bucket i salt | _ \<Rightarrow> [])"

definition quota_selected :: "quota_manager \<Rightarrow> (object_key, int) dict \<Rightarrow> 'a l2_eviction_state \<Rightarrow> object_key \<Rightarrow> bool" where
  "quota_selected qm kvs st k \<longleftrightarrow> over_quota qm (es_config st) (cache_salt k) (salt_sum (cache_salt k) kvs) \<and>
     k \<in> set (quota_victims qm (es_config st) (cache_salt k) (salt_order st (cache_salt k)))"

fun quota_passes :: "nat \<Rightarrow> quota_manager \<Rightarrow> 'a l2_ops \<Rightarrow> 'a l2_eviction_state \<Rightarrow> 'a l2_eviction_state result" where
  "quota_passes 0 qm ops st = Inr st"
| "quota_passes (Suc n) qm ops st =
     (case check_and_evict (Some qm) ops st of Inl e \<Rightarrow> Inl e | Inr st' \<Rightarrow> quota_passes n qm ops st')"

lemma bucket_removed: "iso_inv i \<Longrightarrow> bucket (iso_removed ks i) salt = filter (\<lambda>k. k \<notin> set ks) (bucket i salt)"
  using bucket_inv[of i salt] by (auto simp: iso_removed_def bucket_folds fold_od_removed intro!: filter_cong)

lemma policy_told_deleted:
  assumes "told_deleted K outs" "iso_inv i"
  obtains j where "fold policy_notify (map l2_notification outs) (Isolated_policy i) = Isolated_policy j" "iso_inv j"
    "\<forall>salt. bucket j salt = filter (\<lambda>k. k \<notin> K) (bucket i salt)"
proof (cases "outs = []")
  case True
  with assms that[of i] show ?thesis by (simp add: told_deleted_def)
next
  case False
  with assms(1) obtain ks where "outs = [On_l2_keys_deleted ks]" "set ks = K" by (auto simp: told_deleted_def)
  with that[of "iso_removed ks i"] assms(2) bucket_removed[OF assms(2), of ks] iso_fold_inv(3)[OF assms(2), of ks] show ?thesis
    by (simp add: policy_notify_def iso_removed_def)
qed

lemma quota_victims_pos:
  assumes "order \<noteq> []" "0 < ec_eviction_ratio cfg"
  shows "hd order \<in> set (quota_victims qm cfg salt order)"
proof -
  let ?r = "if get_limit_bytes salt qm = 0 then 1 else ec_eviction_ratio cfg"
  have "1 \<le> target_count (length order) ?r" using assms by (intro target_count_pos) auto
  then obtain m where "nat (target_count (length order) ?r) = Suc m" by (cases "nat (target_count (length order) ?r)") auto
  with assms(1) show ?thesis by (cases order) (simp_all add: quota_victims_def)
qed

locale l2_adapter =
  fixes ainv :: "'a \<Rightarrow> bool"
    and stored :: "'a \<Rightarrow> (object_key, int) dict"
    and ops :: "'a l2_ops"
    and deletable :: "object_key \<Rightarrow> bool"
  assumes usage_law: "ainv a \<Longrightarrow> usage_exact (stored a) (l2_get_usage ops a)"
    and stored_law: "ainv a \<Longrightarrow> dict_ok (stored a)"
    and delete_law: "ainv a \<Longrightarrow> ensures (l2_delete ops keys a) (\<lambda>(a', outs). ainv a' \<and>
      stored a' = filter (\<lambda>(k, n). \<not> (k \<in> set keys \<and> deletable k)) (stored a) \<and>
      told_deleted {k \<in> set keys. deletable k \<and> k \<in> set (dict_keys (stored a))} outs)"

begin

abbreviation settled :: "'a l2_eviction_state \<Rightarrow> bool" where
  "settled \<equiv> l2_settled ainv stored"

lemma by_salt_law:
  assumes "settled st"
  shows "ensures (check_and_evict (Some qm) ops st) (\<lambda>st'. settled st' \<and> es_config st' = es_config st \<and>
    es_adapter_id st' = es_adapter_id st \<and>
    stored (es_adapter st') = filter (\<lambda>(k, n). \<not> (quota_selected qm (stored (es_adapter st)) st k \<and> deletable k)) (stored (es_adapter st)) \<and>
    (\<forall>salt. salt_order st' salt =
       filter (\<lambda>k. \<not> (quota_selected qm (stored (es_adapter st)) st k \<and> deletable k)) (salt_order st salt)))"
proof -
  let ?a = "es_adapter st" and ?S = "stored (es_adapter st)" and ?cfg = "es_config st"
  from assms obtain i where a: "ainv ?a" and i: "es_eviction_policy st = Isolated_policy i" "iso_inv i" "iso_tracked i = set (dict_keys ?S)"
    by (auto simp: l2_settled_def)
  let ?items = "au_bytes_by_cache_salt (l2_get_usage ops ?a)" and ?d = "choose_destination (iso_destinations i) (iso_default_destination i)"
  let ?V = "scan_victims qm ?cfg i ?items"
  from usage_law[OF a] have u: "dict_ok ?items" "\<And>salt. map_of ?items salt = (if salt_sum salt ?S > 0 then Some (salt_sum salt ?S) else None)"
    by (simp_all add: usage_exact_def)
  have sel: "k \<in> set ?V \<longleftrightarrow> quota_selected qm ?S st k" for k
    using scan_victims_salt[OF i(2) u, of k qm ?cfg] by (simp add: quota_selected_def salt_order_def i(1))
  have run: "check_and_evict (Some qm) ops st =
      execute_l2_actions ops (if ?V = [] then [] else [\<lparr>ea_destination = ?d, ea_keys = ?V\<rparr>]) (st\<lparr>es_eviction_policy := Isolated_policy i\<rparr>)"
    using scan_salts_isolated[where qm = qm and cfg = ?cfg and items = ?items and i = i and ks = "[]"] i(1)
    by (simp add: check_and_evict_def check_and_evict_by_cache_salt_def)
  show ?thesis
  proof (cases "?V = []")
    case True
    with sel have "\<not> quota_selected qm ?S st k" for k by (metis empty_iff empty_set)
    with True run assms i(1) show ?thesis by (simp add: l2_settled_def salt_order_def)
  next
    case False
    from delete_law[OF a, of ?V] obtain a' outs where d: "l2_delete ops ?V ?a = Inr (a', outs)" "ainv a'"
        "stored a' = filter (\<lambda>(k, n). \<not> (k \<in> set ?V \<and> deletable k)) ?S"
        "told_deleted {k \<in> set ?V. deletable k \<and> k \<in> set (dict_keys ?S)} outs" by (elim ensuresE) auto
    obtain j where
      j: "fold policy_notify (map l2_notification outs) (Isolated_policy i) = Isolated_policy j" "iso_inv j"
        "\<forall>salt. bucket j salt = filter (\<lambda>k. k \<notin> {k \<in> set ?V. deletable k \<and> k \<in> set (dict_keys ?S)}) (bucket i salt)"
      by (rule policy_told_deleted[OF d(4) i(2)])
    let ?st = "st\<lparr>es_adapter := a', es_eviction_policy := Isolated_policy j\<rparr>"
    have res: "check_and_evict (Some qm) ops st = Inr ?st" using run False d(1) j(1) by (simp add: execute_l2_action_def)
    have b: "bucket j salt = filter (\<lambda>k. \<not> (k \<in> set ?V \<and> deletable k)) (bucket i salt)" for salt
    proof -
      have "k \<in> set (dict_keys ?S)" if "k \<in> set (bucket i salt)" for k
        using that bucket_inv[OF i(2), of salt] i(3) by (auto simp: iso_tracked_def)
      then show ?thesis unfolding spec[OF j(3), of salt] by (intro filter_cong) auto
    qed
    have "iso_tracked j = set (dict_keys (stored a'))"
    proof -
      have "iso_tracked j = {k \<in> iso_tracked i. \<not> (k \<in> set ?V \<and> deletable k)}" by (auto simp: iso_tracked_def b)
      then show ?thesis unfolding i(3) d(3) by force
    qed
    with d(2) j(2) have "settled ?st" by (simp add: l2_settled_def)
    with res d(3) b i(1) show ?thesis by (simp add: salt_order_def sel)
  qed
qed

lemma not_over_untouched:
  "\<not> over_quota qm (es_config st) salt (salt_sum salt kvs) \<Longrightarrow> cache_salt k = salt \<Longrightarrow> \<not> quota_selected qm kvs st k"
  by (auto simp: quota_selected_def)

lemma settled_orders: "settled st \<Longrightarrow> set (salt_order st salt) = {k \<in> set (dict_keys (stored (es_adapter st))). cache_salt k = salt}"
proof -
  assume "settled st"
  then obtain i where i: "es_eviction_policy st = Isolated_policy i" "iso_inv i" "iso_tracked i = set (dict_keys (stored (es_adapter st)))"
    by (auto simp: l2_settled_def)
  have "set (bucket i salt) = {k \<in> iso_tracked i. cache_salt k = salt}"
    using bucket_inv[OF i(2), of salt] by (auto simp: iso_tracked_def)
  with i(1,3) show ?thesis by (simp add: salt_order_def)
qed

lemma over_selects:
  assumes "settled st" "0 < ec_eviction_ratio (es_config st)" "over_quota qm (es_config st) salt (salt_sum salt (stored (es_adapter st)))"
  obtains k n where "(k, n) \<in> set (stored (es_adapter st))" "quota_selected qm (stored (es_adapter st)) st k"
proof -
  let ?S = "stored (es_adapter st)"
  from assms(3) have "filter (\<lambda>(k, n). cache_salt k = salt) ?S \<noteq> []" by (auto simp: over_quota_def salt_sum_def)
  then obtain k0 n0 where "(k0, n0) \<in> set ?S" "cache_salt k0 = salt" by (auto simp: filter_empty_conv)
  with settled_orders[OF assms(1), of salt] have ne: "salt_order st salt \<noteq> []" by force
  let ?k = "hd (salt_order st salt)"
  have k: "?k \<in> set (dict_keys ?S)" "cache_salt ?k = salt" using settled_orders[OF assms(1), of salt] hd_in_set[OF ne] by auto
  then obtain n where "(?k, n) \<in> set ?S" by auto
  moreover have "quota_selected qm ?S st ?k"
    using assms(3) k(2) quota_victims_pos[OF ne assms(2), of qm salt] by (simp add: quota_selected_def)
  ultimately show ?thesis by (rule that)
qed

lemma quota_enforced:
  assumes "settled st" "0 < ec_eviction_ratio (es_config st)" "\<And>k. deletable k"
  shows "\<exists>n st'. n \<le> length (stored (es_adapter st)) \<and> quota_passes n qm ops st = Inr st' \<and> settled st' \<and>
    (\<forall>salt. \<not> over_quota qm (es_config st) salt (salt_sum salt (stored (es_adapter st')))) \<and>
    (\<forall>salt. \<not> over_quota qm (es_config st) salt (salt_sum salt (stored (es_adapter st))) \<longrightarrow>
       salt_order st' salt = salt_order st salt \<and>
       filter (\<lambda>(k, n). cache_salt k = salt) (stored (es_adapter st')) = filter (\<lambda>(k, n). cache_salt k = salt) (stored (es_adapter st)))"
  using assms(1,2)
proof (induction "length (stored (es_adapter st))" arbitrary: st rule: less_induct)
  case less
  let ?S = "stored (es_adapter st)" and ?over = "over_quota qm (es_config st)"
  show ?case
  proof (cases "\<exists>salt. ?over salt (salt_sum salt ?S)")
    case False
    then show ?thesis using less.prems(1) by (intro exI[of _ 0] exI[of _ st]) simp
  next
    case True
    then obtain salt where o: "?over salt (salt_sum salt ?S)" by blast
    from by_salt_law[OF less.prems(1), of qm] obtain st1 where s1: "check_and_evict (Some qm) ops st = Inr st1" "settled st1"
        "es_config st1 = es_config st" "stored (es_adapter st1) = filter (\<lambda>(k, n). \<not> quota_selected qm ?S st k) ?S"
        "\<And>salt. salt_order st1 salt = filter (\<lambda>k. \<not> quota_selected qm ?S st k) (salt_order st salt)"
      using assms(3) by (elim ensuresE) auto
    have under: "salt_order st1 salt = salt_order st salt \<and>
        filter (\<lambda>(k, n). cache_salt k = salt) (stored (es_adapter st1)) = filter (\<lambda>(k, n). cache_salt k = salt) ?S"
      if "\<not> ?over salt (salt_sum salt ?S)" for salt
      using not_over_untouched[OF that] settled_orders[OF less.prems(1), of salt] unfolding s1(4,5)
      by (auto simp: filter_filter intro!: filter_cong filter_True)
    then have sums: "salt_sum salt (stored (es_adapter st1)) = salt_sum salt ?S" if "\<not> ?over salt (salt_sum salt ?S)" for salt
      using that by (simp add: salt_sum_def)
    have "length (stored (es_adapter st1)) < length ?S"
    proof -
      obtain k n where k: "(k, n) \<in> set ?S" "quota_selected qm ?S st k" by (rule over_selects[OF less.prems o])
      show ?thesis unfolding s1(4) by (rule length_filter_less[OF k(1)]) (simp add: k(2))
    qed
    from less.hyps[OF this s1(2)] less.prems(2) s1(3) obtain n st2 where
      n: "n \<le> length (stored (es_adapter st1))" "quota_passes n qm ops st1 = Inr st2" "settled st2"
        "\<forall>salt. \<not> ?over salt (salt_sum salt (stored (es_adapter st2)))"
        "\<forall>salt. \<not> ?over salt (salt_sum salt (stored (es_adapter st1))) \<longrightarrow> salt_order st2 salt = salt_order st1 salt \<and>
          filter (\<lambda>(k, n). cache_salt k = salt) (stored (es_adapter st2)) = filter (\<lambda>(k, n). cache_salt k = salt) (stored (es_adapter st1))"
      by auto
    show ?thesis
    proof (intro exI[of _ "Suc n"] exI[of _ st2] conjI)
      show "Suc n \<le> length ?S" using n(1) \<open>length (stored (es_adapter st1)) < length ?S\<close> by simp
    qed (use n s1(1) under sums in auto)
  qed
qed

end

section \<open>The native connector adapter\<close>

text \<open>
  A call of \<open>delete\<close> that nothing interrupts: the request, the connector's answer, and the reports of
  the demultiplexing thread. The identifier of the request and, for every key, whether the storage
  can delete it are up to the connector.
\<close>

fun report_tasks :: "demux_task list \<Rightarrow> native_adapter \<Rightarrow> (native_adapter \<times> l2_output list) result" where
  "report_tasks [] a = Inr (a, [])"
| "report_tasks (Account_stored keys sizes # ts) a =
     (case account_stored keys sizes a of Inl e \<Rightarrow> Inl e | Inr a' \<Rightarrow> report_tasks ts a')"
| "report_tasks (Account_deleted keys sizes # ts) a =
     (case account_deleted keys sizes a of Inl e \<Rightarrow> Inl e | Inr a' \<Rightarrow> report_tasks ts a')"
| "report_tasks (Call_listeners out # ts) a =
     (case report_tasks ts a of Inl e \<Rightarrow> Inl e | Inr (a', outs) \<Rightarrow> Inr (a', out # outs))"
| "report_tasks (Set_events events # ts) a = report_tasks ts a"

definition native_delete ::
  "(native_adapter \<Rightarrow> int) \<Rightarrow> (object_key \<Rightarrow> bool) \<Rightarrow> object_key list \<Rightarrow> native_adapter \<Rightarrow> (native_adapter \<times> l2_output list) result" where
  "native_delete next_id deletable keys a =
     (case submit_delete keys (next_id a) a of
        (None, a1) \<Rightarrow> Inr (a1, [])
      | (Some _, a1) \<Rightarrow>
          (case drain [answer (next_id a) (Some (map deletable keys))] a1 empty_batch of
             Inl e \<Rightarrow> Inl e
           | Inr (a2, b) \<Rightarrow> report_tasks (demux_tasks b) a2))"

definition native_ops :: "(native_adapter \<Rightarrow> int) \<Rightarrow> (object_key \<Rightarrow> bool) \<Rightarrow> native_adapter l2_ops" where
  "native_ops next_id deletable = \<lparr>l2_get_usage = get_usage, l2_delete = native_delete next_id deletable\<rparr>"

definition native_inv :: "native_adapter \<Rightarrow> bool" where
  "native_inv a \<longleftrightarrow> has_delete a \<and> requests_ok a \<and> dict_ok (key_sizes a) \<and> (\<forall>n \<in> set (dict_values (key_sizes a)). 0 \<le> n) \<and>
     ledger (key_sizes a) [] [] a"

text \<open>The keys at the positions with a positive answer.\<close>

definition hits :: "(nat \<times> bool) list \<Rightarrow> object_key list \<Rightarrow> object_key set" where
  "hits xs ks = (\<lambda>i. ks ! i) ` {i. (i, True) \<in> set xs}"

lemma hits_simps [simp]: "hits [] ks = {}" "hits ((i, d) # xs) ks = (if d then insert (ks ! i) (hits xs ks) else hits xs ks)"
  by (auto simp: hits_def)

lemma hits_enumerate: "hits (enumerate 0 (map P ks)) ks = {k \<in> set ks. P k}"
proof -
  have "{i. (i, True) \<in> set (enumerate 0 (map P ks))} = {i. i < length ks \<and> P (ks ! i)}" by (auto simp: in_set_enumerate_eq)
  then show ?thesis by (auto simp: hits_def set_conv_nth)
qed

lemma filter_hit:
  "filter (\<lambda>p. fst p \<notin> H) (AList.delete k d) = filter (\<lambda>p. fst p \<notin> insert k H) d"
  "k \<notin> fst ` set d \<Longrightarrow> filter (\<lambda>p. fst p \<noteq> k \<and> fst p \<notin> H) d = filter (\<lambda>p. fst p \<notin> H) d"
  by (auto simp: AList.delete_eq filter_filter intro!: filter_cong)

lemma delete_each_result:
  assumes "delete_each xs ks a b = Inr (a', b')"
  shows "key_sizes a' = filter (\<lambda>p. fst p \<notin> hits xs ks) (key_sizes a) \<and>
    set (db_keys_deleted b') = set (db_keys_deleted b) \<union> (hits xs ks \<inter> fst ` set (key_sizes a)) \<and>
    db_keys_stored b' = db_keys_stored b \<and> db_keys_accessed b' = db_keys_accessed b"
  using assms
proof (induction xs ks a b rule: delete_each.induct)
  case (2 i deleted rest ks a b)
  show ?case
  proof (cases "deleted \<and> map_of (key_sizes a) (ks ! i) \<noteq> None")
    case True
    then obtain n where n: "map_of (key_sizes a) (ks ! i) = Some n" and d: "deleted" by auto
    with "2.prems" have fit: "\<not> length ks \<le> i" by (auto split: if_splits)
    have "ks ! i \<in> fst ` set (key_sizes a)" using n by (force dest: map_of_SomeD)
    with 2(3)[OF _ fit n] "2.prems" d n fit dict_keys_delete[of "ks ! i" "key_sizes a"] show ?thesis
      by (auto simp: filter_hit(1))
  next
    case False
    then have absent: "deleted \<Longrightarrow> ks ! i \<notin> fst ` set (key_sizes a)" by (auto simp: map_of_eq_None_iff)
    with 2(1,2) "2.prems" False show ?thesis by (cases deleted) (auto simp: filter_hit(2) split: if_splits)
  qed
qed simp

lemma native_drain:
  assumes "native_inv a" "submit_delete keys fid a = (Some t, a1)"
  obtains a2 b where "drain [answer fid (Some (map deletable keys))] a1 empty_batch = Inr (a2, b)"
    "requests_ok a2" "batch_ok (key_sizes a) a2 b" "same_counters a a2" "has_delete a2"
    "key_sizes a2 = filter (\<lambda>p. fst p \<notin> {k \<in> set keys. deletable k}) (key_sizes a)"
    "set (db_keys_deleted b) = {k \<in> set keys. deletable k} \<inter> fst ` set (key_sizes a)"
    "db_keys_stored b = []" "db_keys_accessed b = []"
proof -
  let ?c = "answer fid (Some (map deletable keys))"
  from assms have a: "requests_ok a" "has_delete a" "keys \<noteq> []" by (auto simp: native_inv_def submit_delete_def split: if_splits)
  obtain entry where e: "map_of (pending_ops a1) fid = Some entry" "po_type entry = OP_DELETE" "po_keys entry = Some keys"
      "po_num_keys entry = length keys" and a1: "key_sizes a1 = key_sizes a" "same_counters a a1" "has_delete a1" "requests_ok a1"
    using assms(2) a by (auto simp: submit_delete_def register_op_def get_next_task_id_def same_counters_def requests_ok_def split: if_splits)
  have b: "batch_ok (key_sizes a) a1 empty_batch" using assms(1) a1(1) by (simp add: native_inv_def batch_ok_def empty_batch_def)
  have "answers_fit [?c] a1" using e(1,4) by (simp add: answers_fit_def answer_def)
  from drain_law[OF a1(4) b this] obtain a2 b where
    d: "drain [?c] a1 empty_batch = Inr (a2, b)" "requests_ok a2" "batch_ok (key_sizes a) a2 b" "same_counters a1 a2"
    by (elim ensuresE) auto
  let ?a1 = "a1\<lparr>pending_ops := AList.delete fid (pending_ops a1)\<rparr>"
  have fit: "\<forall>(i, d) \<in> set (enumerate 0 (map deletable keys)). i < length keys" by (auto simp: in_set_enumerate_eq)
  have "batch_ok (key_sizes a) ?a1 empty_batch" using b by (simp add: batch_ok_def)
  from delete_each_law[OF this fit] obtain a3 b3 where
    r: "delete_each (enumerate 0 (map deletable keys)) keys ?a1 empty_batch = Inr (a3, b3)" "a3 = ?a1\<lparr>key_sizes := key_sizes a3\<rparr>"
    by (elim ensuresE) auto
  have "has_delete a3" by (subst r(2)) (simp add: a1(3))
  with d(1) r(1) e(1,2,3) have res: "key_sizes a2 = key_sizes a3" "has_delete a2" "db_keys_deleted b = db_keys_deleted b3"
      "db_keys_stored b = db_keys_stored b3" "db_keys_accessed b = db_keys_accessed b3"
    by (auto simp: complete_one_def answer_def complete_delete_def split: if_splits)
  note dr = delete_each_result[OF r(1), unfolded hits_enumerate]
  show ?thesis
    by (rule that[OF d(1-3) same_counters_trans[OF a1(2) d(4)] res(2)])
      (use dr a1(1) in \<open>simp_all add: res empty_batch_def\<close>)
qed

lemma native_delete_law:
  assumes "native_inv a"
  shows "ensures (native_delete next_id deletable keys a) (\<lambda>(a', outs). native_inv a' \<and>
    key_sizes a' = filter (\<lambda>(k, n). \<not> (k \<in> set keys \<and> deletable k)) (key_sizes a) \<and>
    told_deleted {k \<in> set keys. deletable k \<and> k \<in> set (dict_keys (key_sizes a))} outs)"
proof (cases "fst (submit_delete keys (next_id a) a)")
  case None
  with assms have "keys = []" by (auto simp: native_inv_def submit_delete_def case_prod_beta split: if_splits)
  with assms show ?thesis by (simp add: native_delete_def submit_delete_def told_deleted_def)
next
  case (Some t)
  then obtain a1 where s: "submit_delete keys (next_id a) a = (Some t, a1)" by (cases "submit_delete keys (next_id a) a") simp
  let ?gone = "{k \<in> set keys. deletable k}"
  obtain a2 b where d: "drain [answer (next_id a) (Some (map deletable keys))] a1 empty_batch = Inr (a2, b)"
    "requests_ok a2" "batch_ok (key_sizes a) a2 b" "same_counters a a2" "has_delete a2"
    "key_sizes a2 = filter (\<lambda>p. fst p \<notin> ?gone) (key_sizes a)"
    "set (db_keys_deleted b) = ?gone \<inter> fst ` set (key_sizes a)" "db_keys_stored b = []" "db_keys_accessed b = []"
    by (rule native_drain[OF assms s])
  have run: "native_delete next_id deletable keys a = report_tasks (demux_tasks b) a2" by (simp add: native_delete_def s d(1) del: drain.simps)
  have sizes: "key_sizes a2 = filter (\<lambda>(k, n). \<not> (k \<in> set keys \<and> deletable k)) (key_sizes a)"
    unfolding d(6) by (intro filter_cong) auto
  have l: "ledger (key_sizes a2) [] (zip (db_keys_deleted b) (db_sizes_deleted b)) a2"
    using assms d(3,4,8) by (simp add: native_inv_def ledger_def batch_ok_def same_counters_def)
  show ?thesis
  proof (cases "db_keys_deleted b = []")
    case True
    have "native_inv a2" using l d(2,3,5) True by (simp add: native_inv_def batch_ok_def)
    moreover have "report_tasks (demux_tasks b) a2 = Inr (a2, [])" using True d(8,9) by (simp add: demux_tasks_def)
    ultimately show ?thesis using run sizes d(7) True by (auto simp: told_deleted_def)
  next
    case False
    from d(3) have "length (db_keys_deleted b) = length (db_sizes_deleted b)" "\<forall>n \<in> set (dict_values (key_sizes a2)). 0 \<le> n"
        "\<forall>n \<in> set (db_sizes_deleted b). 0 \<le> n" by (simp_all add: batch_ok_def)
    with l obtain a3 where a3: "account_deleted (db_keys_deleted b) (db_sizes_deleted b) a2 = Inr a3" "ledger (key_sizes a2) [] [] a3"
        "a3 = a2\<lparr>total_bytes_used := total_bytes_used a3, bytes_by_cache_salt := bytes_by_cache_salt a3\<rparr>"
      by (elim account_deleted_law)
    have f: "key_sizes a3 = key_sizes a2" "requests_ok a3 = requests_ok a2" "has_delete a3 = has_delete a2"
      by (subst a3(3), simp add: requests_ok_def)+
    have "native_inv a3" using a3(2) d(2,3,5) f by (simp add: native_inv_def batch_ok_def)
    moreover have "report_tasks (demux_tasks b) a2 = Inr (a3, [On_l2_keys_deleted (db_keys_deleted b)])"
      using False d(8,9) a3(1) by (simp add: demux_tasks_def)
    ultimately show ?thesis using run sizes f(1) d(7) by (auto simp: told_deleted_def)
  qed
qed

interpretation native: l2_adapter native_inv key_sizes "native_ops next_id deletable" deletable for next_id deletable
proof
  show "usage_exact (key_sizes a) (l2_get_usage (native_ops next_id deletable) a)" if "native_inv a" for a
    using that by (simp add: native_ops_def native_inv_def ledger_usage)
  show "dict_ok (key_sizes a)" if "native_inv a" for a using that by (simp add: native_inv_def)
  show "ensures (l2_delete (native_ops next_id deletable) keys a) (\<lambda>(a', outs). native_inv a' \<and>
      key_sizes a' = filter (\<lambda>(k, n). \<not> (k \<in> set keys \<and> deletable k)) (key_sizes a) \<and>
      told_deleted {k \<in> set keys. deletable k \<and> k \<in> set (dict_keys (key_sizes a))} outs)" if "native_inv a" for a keys
    using native_delete_law[OF that] by (simp add: native_ops_def)
qed

section \<open>A pass\<close>

text \<open>
  What a pass of the quota eviction does to an adapter whose policy tracks its stored keys and that
  nothing else uses meanwhile. It raises nothing. Salts whose bytes are below the watermark of their
  quota keep all their keys in their order, however much other salts store. A salt at or above it
  loses exactly its least recently used keys, as many as the configured ratio of its keys demands and
  all of them if it has no quota, except keys the storage does not delete. Keys, counters and policy
  agree again afterwards.
\<close>

lemma l2_quota_pass:
  assumes "l2_settled native_inv key_sizes st"
  shows "\<exists>st'. check_and_evict (Some qm) (native_ops next_id deletable) st = Inr st' \<and> l2_settled native_inv key_sizes st' \<and>
    (\<forall>salt. salt_order st' salt =
       (if over_quota qm (es_config st) salt (salt_sum salt (key_sizes (es_adapter st)))
        then filter (\<lambda>k. k \<notin> set (quota_victims qm (es_config st) salt (salt_order st salt)) \<or> \<not> deletable k) (salt_order st salt)
        else salt_order st salt) \<and>
       (get_limit_bytes salt qm = 0 \<and> int (length (salt_order st salt)) \<le> 2 ^ 53 \<longrightarrow>
          quota_victims qm (es_config st) salt (salt_order st salt) = salt_order st salt)) \<and>
    key_sizes (es_adapter st') = filter (\<lambda>(k, n). k \<in> set (salt_order st' (cache_salt k))) (key_sizes (es_adapter st))"
proof -
  let ?K = "key_sizes (es_adapter st)"
  from native.by_salt_law[OF assms, of qm next_id deletable] obtain st' where
    s: "check_and_evict (Some qm) (native_ops next_id deletable) st = Inr st'" "l2_settled native_inv key_sizes st'"
      "key_sizes (es_adapter st') = filter (\<lambda>(k, n). \<not> (quota_selected qm ?K st k \<and> deletable k)) ?K"
      "\<And>salt. salt_order st' salt = filter (\<lambda>k. \<not> (quota_selected qm ?K st k \<and> deletable k)) (salt_order st salt)"
    by (elim ensuresE) auto
  note ord = native.settled_orders[OF assms]
  have "salt_order st' salt = (if over_quota qm (es_config st) salt (salt_sum salt ?K)
      then filter (\<lambda>k. k \<notin> set (quota_victims qm (es_config st) salt (salt_order st salt)) \<or> \<not> deletable k) (salt_order st salt)
      else salt_order st salt)" for salt
    unfolding s(4) using ord[of salt] by (auto simp: quota_selected_def intro!: filter_cong filter_True)
  moreover have "quota_victims qm (es_config st) salt (salt_order st salt) = salt_order st salt"
    if "get_limit_bytes salt qm = 0" "int (length (salt_order st salt)) \<le> 2 ^ 53" for salt
    using that by (simp add: quota_victims_def target_count_all)
  moreover have "key_sizes (es_adapter st') = filter (\<lambda>(k, n). k \<in> set (salt_order st' (cache_salt k))) ?K"
    unfolding s(3) s(4) using ord by (force intro!: filter_cong)
  ultimately show ?thesis using s(1,2) by blast
qed

section \<open>Properties\<close>






end
