(* ===== verification/Prefix_Fold.thy ===== *)
theory Prefix_Fold
  imports Bitmaps
begin

text \<open>
  Prefix-cache hits over several object groups: the native kernels of
  \<open>csrc/lmcache_native/fold.cpp\<close> and the functions of \<open>lmcache/v1/distributed/bitmap_ops/fold.py\<close> that
  wrap and compose them. A row of presence bits with a window \<open>w\<close> serves a prefix of \<open>l\<close> chunks if its
  last \<open>min w l\<close> chunks are present, all \<open>l\<close> of them for full attention.
\<close>

section \<open>Kernels\<close>

definition eff_window :: "nat \<Rightarrow> int \<Rightarrow> nat" where
  "eff_window num_chunks window = (if window \<le> 0 then num_chunks else nat window)"

text \<open>One pass over the prefix lengths: \<open>run\<close> counts the present chunks that end at the current one.\<close>

fun run_loop :: "(nat \<Rightarrow> bool) \<Rightarrow> nat \<Rightarrow> nat list \<Rightarrow> nat \<Rightarrow> bool list \<Rightarrow> bool list" where
  "run_loop present w [] run servable = servable"
| "run_loop present w (prefix_len # lens) run servable =
     (let run' = (if present (prefix_len - 1) then run + 1 else 0)
      in run_loop present w lens run'
           (if servable ! (prefix_len - 1) \<and> run' < min w prefix_len then servable[prefix_len - 1 := False] else servable))"

definition collect_servable :: "nat \<Rightarrow> bool list \<Rightarrow> bitmap" where
  "collect_servable num_chunks servable =
     List.fold (\<lambda>j bm. if servable ! j then bm_set j bm else bm) [0..<num_chunks] (bm_new num_chunks)"

definition native_fold :: "bitmap \<Rightarrow> nat \<Rightarrow> nat \<Rightarrow> int list \<Rightarrow> bitmap" where
  "native_fold found num_chunks num_ranks group_windows =
     (let chunk_stride = length group_windows * num_ranks;
          servable = List.fold
            (\<lambda>(g, window). run_loop
               (\<lambda>j. list_all (\<lambda>r. bm_test found (j * chunk_stride + g * num_ranks + r)) [0..<num_ranks])
               (eff_window num_chunks window) [1..<num_chunks + 1] 0)
            (enumerate 0 group_windows) (replicate num_chunks True)
      in collect_servable num_chunks servable)"

definition window_start :: "nat \<Rightarrow> int \<Rightarrow> nat" where
  "window_start hit_length window = (if window > 0 \<and> hit_length > nat window then hit_length - nat window else 0)"

definition native_unfold :: "nat \<Rightarrow> nat \<Rightarrow> nat \<Rightarrow> int list \<Rightarrow> bitmap" where
  "native_unfold hit_length0 num_chunks num_ranks group_windows =
     (let hit_length = (if hit_length0 > num_chunks then num_chunks else hit_length0);
          chunk_stride = length group_windows * num_ranks;
          retain_mask = bm_new (num_chunks * chunk_stride)
      in if hit_length = 0 then retain_mask
         else List.fold
           (\<lambda>(g, window) mask. List.fold
              (\<lambda>j mask. let base = j * chunk_stride + g * num_ranks in bm_set_range base (base + num_ranks) mask)
              [window_start hit_length window..<hit_length] mask)
           (enumerate 0 group_windows) retain_mask)"

definition native_fold_grouped :: "bitmap list \<Rightarrow> int list \<Rightarrow> bitmap result" where
  "native_fold_grouped rows windows =
     (if length rows \<noteq> length windows then Inl ValueError
      else let num_chunks = (if rows = [] then 0 else bm_size (rows ! 0)) in
        if \<not> list_all (\<lambda>row. bm_size row = num_chunks) rows then Inl ValueError
        else let servable = List.fold
               (\<lambda>(row, window). run_loop (bm_test row) (eff_window num_chunks window) [1..<num_chunks + 1] 0)
               (zip rows windows) (replicate num_chunks True)
             in Inr (collect_servable num_chunks servable))"

definition native_unfold_grouped :: "nat \<Rightarrow> nat \<Rightarrow> int list \<Rightarrow> bitmap list" where
  "native_unfold_grouped hit_length0 num_chunks windows =
     (let hit_length = (if hit_length0 > num_chunks then num_chunks else hit_length0)
      in map (\<lambda>window. if hit_length > 0 then bm_set_range (window_start hit_length window) hit_length (bm_new num_chunks)
                       else bm_new num_chunks) windows)"

section \<open>The Python functions\<close>

text \<open>\<open>native\<close> says whether the installed native module has the kernels.\<close>

definition unfold_range :: "int \<Rightarrow> int \<Rightarrow> int \<times> int" where
  "unfold_range prefix_len window =
     (if prefix_len \<le> 0 then (0, 0)
      else let lo = (if window \<le> 0 then 0 else max 0 (prefix_len - window)) in (lo, prefix_len))"

definition fold_bitmap :: "bool \<Rightarrow> bitmap \<Rightarrow> int \<Rightarrow> int \<Rightarrow> int list \<Rightarrow> bitmap result" where
  "fold_bitmap native found num_chunks num_ranks group_windows =
     (if \<not> native then Inl ImportError
      else if num_ranks < 1 then Inl ValueError
      else if group_windows = [] then Inl ValueError
      else if num_chunks < 0 then Inl ValueError
      else Inr (native_fold found (nat num_chunks) (nat num_ranks) group_windows))"

definition unfold_bitmap :: "bool \<Rightarrow> nat \<Rightarrow> int \<Rightarrow> int \<Rightarrow> int list \<Rightarrow> bitmap result" where
  "unfold_bitmap native hit_length num_chunks num_ranks group_windows =
     (if \<not> native then Inl ImportError
      else if num_ranks < 1 then Inl ValueError
      else if group_windows = [] then Inl ValueError
      else if num_chunks < 0 then Inl ValueError
      else Inr (native_unfold hit_length (nat num_chunks) (nat num_ranks) group_windows))"

definition fold_grouped :: "bool \<Rightarrow> bitmap list \<Rightarrow> int list \<Rightarrow> bitmap result" where
  "fold_grouped native rows windows =
     (if \<not> native then Inl ImportError
      else if windows = [] then Inl ValueError
      else if length rows \<noteq> length windows then Inl ValueError
      else native_fold_grouped rows windows)"

definition unfold_grouped :: "bool \<Rightarrow> nat \<Rightarrow> int \<Rightarrow> int list \<Rightarrow> bitmap list result" where
  "unfold_grouped native hit_length num_chunks windows =
     (if \<not> native then Inl ImportError
      else if windows = [] then Inl ValueError
      else if num_chunks < 0 then Inl ValueError
      else Inr (native_unfold_grouped hit_length (nat num_chunks) windows))"

definition all_grouped :: "bitmap list \<Rightarrow> bitmap list result" where
  "all_grouped rows =
     (case rows of
        [] \<Rightarrow> Inl IndexError
      | row # rest \<Rightarrow> Inr (replicate (length rows) (List.fold (\<lambda>r common. bm_and common r) rest row)))"

definition fold_unfold_grouped :: "bool \<Rightarrow> bitmap list \<Rightarrow> int list \<Rightarrow> (int \<times> bitmap list) result" where
  "fold_unfold_grouped native rows windows =
     (case fold_grouped native rows windows of
        Inl e \<Rightarrow> Inl e
      | Inr servable \<Rightarrow>
          let num_chunks = (case rows of [] \<Rightarrow> 0 | row # _ \<Rightarrow> bm_size row);
              hit_length = bm_highest_set_bit servable + 1
          in (case unfold_grouped native (nat hit_length) (int num_chunks) windows of
                Inl e \<Rightarrow> Inl e
              | Inr retain_rows \<Rightarrow> Inr (hit_length, retain_rows)))"

text \<open>The pure Python version of \<open>unfold\<close> that the tests compare the kernel with: it sets bit by bit.\<close>

definition unfold_python :: "int \<Rightarrow> nat \<Rightarrow> nat \<Rightarrow> int list \<Rightarrow> bitmap" where
  "unfold_python hit_length0 num_chunks num_ranks group_windows =
     (let hit_length = min hit_length0 (int num_chunks);
          chunk_stride = length group_windows * num_ranks;
          retain_mask = bm_new (num_chunks * chunk_stride)
      in if hit_length \<le> 0 then retain_mask
         else List.fold
           (\<lambda>(g, window) mask. let (lo, hi) = unfold_range hit_length window in
              List.fold (\<lambda>j mask. List.fold (\<lambda>r. bm_set (nat j * chunk_stride + g * num_ranks + r)) [0..<num_ranks] mask)
                [lo..hi - 1] mask)
           (enumerate 0 group_windows) retain_mask)"

definition merge_bitmaps :: "bitmap list \<Rightarrow> nat \<Rightarrow> bitmap" where
  "merge_bitmaps bitmaps num_keys = List.fold (\<lambda>bm merged. bm_or merged bm) bitmaps (bm_new num_keys)"

section \<open>Serving a prefix\<close>

definition serves :: "(nat \<Rightarrow> bool) \<Rightarrow> int \<Rightarrow> nat \<Rightarrow> bool" where
  "serves present window l \<longleftrightarrow> list_all present [window_start l window..<l]"

text \<open>The length of the run of present chunks that ends before chunk \<open>l\<close>.\<close>

fun trail :: "(nat \<Rightarrow> bool) \<Rightarrow> nat \<Rightarrow> nat" where
  "trail present 0 = 0"
| "trail present (Suc l) = (if present l then Suc (trail present l) else 0)"

lemma trail_iff: "m \<le> l \<Longrightarrow> m \<le> trail present l \<longleftrightarrow> (\<forall>j. l - m \<le> j \<and> j < l \<longrightarrow> present j)"
proof (induction l arbitrary: m)
  case (Suc l)
  show ?case
  proof (cases m)
    case (Suc k)
    with Suc.prems Suc.IH[of k] show ?thesis
      by (cases "present l") (auto simp: less_Suc_eq intro: exI[of _ l])
  qed auto
qed simp

lemma eff_window_serves:
  assumes "j < n"
  shows "min (eff_window n w) (Suc j) \<le> trail present (Suc j) \<longleftrightarrow> serves present w (Suc j)"
proof -
  have m: "min (eff_window n w) (Suc j) \<le> Suc j" by simp
  have "Suc j - min (eff_window n w) (Suc j) = window_start (Suc j) w"
    using assms by (auto simp: eff_window_def window_start_def min_def)
  then show ?thesis unfolding trail_iff[OF m] by (auto simp: serves_def list_all_iff)
qed

lemma run_loop_spec:
  "l \<le> n \<Longrightarrow> length servable = n \<Longrightarrow>
     length (run_loop present w [Suc l..<Suc n] (trail present l) servable) = n \<and>
     (\<forall>j < n. run_loop present w [Suc l..<Suc n] (trail present l) servable ! j \<longleftrightarrow>
       servable ! j \<and> (l \<le> j \<longrightarrow> min w (Suc j) \<le> trail present (Suc j)))"
proof (induction "n - l" arbitrary: l servable)
  case (Suc d)
  then have l: "l < n" by simp
  let ?s = "if servable ! l \<and> trail present (Suc l) < min w (Suc l) then servable[l := False] else servable"
  have eq: "run_loop present w [Suc l..<Suc n] (trail present l) servable =
      run_loop present w [Suc (Suc l)..<Suc n] (trail present (Suc l)) ?s"
    using l by (simp add: upt_conv_Cons Let_def del: upt_Suc)
  have "d = n - Suc l" "Suc l \<le> n" "length ?s = n" using Suc.hyps(2) Suc.prems by auto
  note IH = Suc.hyps(1)[OF this]
  have "?s ! j \<longleftrightarrow> servable ! j \<and> (j = l \<longrightarrow> min w (Suc j) \<le> trail present (Suc j))" if "j < n" for j
    using that Suc.prems(2) by (cases "j = l") auto
  with IH show ?case unfolding eq by (auto simp: le_less Suc_le_eq)
qed simp

text \<open>All rows in turn: \<open>P x\<close> the presence of row \<open>x\<close>, \<open>W x\<close> its window.\<close>

definition servable_of :: "nat \<Rightarrow> ('x \<Rightarrow> nat \<Rightarrow> bool) \<Rightarrow> ('x \<Rightarrow> int) \<Rightarrow> 'x list \<Rightarrow> bool list" where
  "servable_of n P W xs = List.fold (\<lambda>x. run_loop (P x) (eff_window n (W x)) [1..<n + 1] 0) xs (replicate n True)"

lemma servable_of_spec:
  "servable_of n P W xs = map (\<lambda>j. \<forall>x \<in> set xs. serves (P x) (W x) (Suc j)) [0..<n]"
proof -
  have "length (List.fold (\<lambda>x. run_loop (P x) (eff_window n (W x)) [1..<n + 1] 0) xs s) = n \<and>
    (\<forall>j < n. List.fold (\<lambda>x. run_loop (P x) (eff_window n (W x)) [1..<n + 1] 0) xs s ! j \<longleftrightarrow>
       s ! j \<and> (\<forall>x \<in> set xs. serves (P x) (W x) (Suc j)))" if "length s = n" for s
    using that
  proof (induction xs arbitrary: s)
    case (Cons x xs)
    let ?s = "run_loop (P x) (eff_window n (W x)) [1..<n + 1] 0 s"
    have s: "length ?s = n" "\<forall>j < n. ?s ! j \<longleftrightarrow> s ! j \<and> serves (P x) (W x) (Suc j)"
      using run_loop_spec[of 0 n s "P x" "eff_window n (W x)"] Cons.prems eff_window_serves[of _ n "W x" "P x"]
      by (simp_all del: trail.simps(2) upt_Suc)
    from Cons.IH[OF s(1)] s(2) show ?case by (auto simp del: upt_Suc)
  qed simp
  from this[of "replicate n True"] show ?thesis by (intro nth_equalityI) (auto simp: servable_of_def)
qed

lemma bm_test_set: "bm_ok bm \<Longrightarrow> bm_test (bm_set k bm) i \<longleftrightarrow> bm_test bm i \<or> (i = k \<and> k < bm_size bm)"
  using bm_set_raw[OF bm_okD(1), of bm k i] by (auto simp: bm_test_iff)

lemma bm_ok_set: "bm_ok bm \<Longrightarrow> bm_ok (bm_set k bm)"
  using bm_okD[of bm] by (intro bm_okI) (auto simp: bm_set_raw)

lemma bm_ok_new: "bm_ok (bm_new n)" "\<not> bm_test (bm_new n) i"
  by (auto intro!: bm_okI simp: bm_test_iff bm_new_data(2) bm_new_raw data_len_less) (simp add: bm_new_data)

lemma collect_spec:
  assumes "length servable = n"
  shows "bm_ok (collect_servable n servable) \<and> bm_size (collect_servable n servable) = n \<and>
    (bm_test (collect_servable n servable) i \<longleftrightarrow> i < n \<and> servable ! i)"
proof -
  let ?step = "\<lambda>j bm. if servable ! j then bm_set j bm else bm"
  have "bm_ok (List.fold ?step js bm) \<and> bm_size (List.fold ?step js bm) = bm_size bm \<and>
      (bm_test (List.fold ?step js bm) i \<longleftrightarrow> bm_test bm i \<or> (i \<in> set js \<and> i < bm_size bm \<and> servable ! i))" if "bm_ok bm" for js bm
    using that
  proof (induction js arbitrary: bm)
    case (Cons j js)
    then show ?case using Cons.IH[of "bm_set j bm"] Cons.IH[of bm] by (auto simp: bm_ok_set bm_test_set)
  qed simp
  from this[OF bm_ok_new(1), of "[0..<n]" n] bm_ok_new(2)[of n i] show ?thesis
    unfolding collect_servable_def by (auto simp: bm_new_data(2))
qed

section \<open>Properties\<close>

text \<open>Presence of chunk \<open>c\<close> for group \<open>g\<close> in the flat layout: every shard is there.\<close>

definition shard_index :: "nat \<Rightarrow> nat \<Rightarrow> nat \<Rightarrow> nat \<Rightarrow> nat \<Rightarrow> nat" where
  "shard_index groups ranks c g k = c * (groups * ranks) + g * ranks + k"

definition group_present :: "bitmap \<Rightarrow> nat \<Rightarrow> nat \<Rightarrow> nat \<Rightarrow> nat \<Rightarrow> bool" where
  "group_present found groups ranks g c \<longleftrightarrow> list_all (\<lambda>k. bm_test found (shard_index groups ranks c g k)) [0..<ranks]"

lemma ball_enumerate: "(\<forall>x \<in> set (enumerate 0 ws). Q x) \<longleftrightarrow> (\<forall>g < length ws. Q (g, ws ! g))"
proof
  assume all: "\<forall>x \<in> set (enumerate 0 ws). Q x"
  have "(g, ws ! g) \<in> set (enumerate 0 ws)" if "g < length ws" for g using that by (simp add: in_set_enumerate_eq)
  with all show "\<forall>g < length ws. Q (g, ws ! g)" by blast
qed (auto simp: in_set_enumerate_eq)

lemma native_fold_servable:
  "native_fold found n r ws = collect_servable n
     (map (\<lambda>j. \<forall>g < length ws. serves (group_present found (length ws) r g) (ws ! g) (Suc j)) [0..<n])"
proof -
  have "native_fold found n r ws = collect_servable n
      (servable_of n (\<lambda>(g, w). group_present found (length ws) r g) (\<lambda>(g, w). w) (enumerate 0 ws))"
    unfolding native_fold_def servable_of_def Let_def
    by (simp add: split_beta' group_present_def[abs_def] shard_index_def del: upt_Suc)
  also have "servable_of n (\<lambda>(g, w). group_present found (length ws) r g) (\<lambda>(g, w). w) (enumerate 0 ws) =
      map (\<lambda>j. \<forall>g < length ws. serves (group_present found (length ws) r g) (ws ! g) (Suc j)) [0..<n]"
    unfolding servable_of_spec ball_enumerate by simp
  finally show ?thesis .
qed

text \<open>
  C11: Folding finds exactly the servable prefix lengths. The flat fold raises \<open>ValueError\<close> for no
  rank, no group or a negative number of chunks; otherwise bit \<open>j\<close> of its result is set exactly if
  every group has, in all its shards, the chunks its window needs for a prefix of \<open>j + 1\<close> chunks.
\<close>

theorem fold_servable:
  "fold_bitmap True found n r ws =
     (if r < 1 \<or> ws = [] \<or> n < 0 then Inl ValueError else Inr (native_fold found (nat n) (nat r) ws)) \<and>
   bm_ok (native_fold found m k ws) \<and> bm_size (native_fold found m k ws) = m \<and>
   (bm_test (native_fold found m k ws) j \<longleftrightarrow>
      j < m \<and> (\<forall>g < length ws. serves (group_present found (length ws) k g) (ws ! g) (Suc j)))"
  using collect_spec[where n = m and i = j and servable = "map (\<lambda>j. \<forall>g < length ws. serves (group_present found (length ws) k g) (ws ! g) (Suc j)) [0..<m]"]
  by (auto simp: fold_bitmap_def native_fold_servable)

theorem fold_servable_witness:
  "bm_test (native_fold (bm_batched_set [0, 1, 3, 5] (bm_new 6)) 3 1 [0, 1]) 0 \<and>
   \<not> bm_test (native_fold (bm_batched_set [0, 1, 3, 5] (bm_new 6)) 3 1 [0, 1]) 2"
proof -
  let ?b = "bm_batched_set [0, 1, 3, 5] (bm_new 6)"
  have "serves (group_present ?b 2 1 0) 0 1" "serves (group_present ?b 2 1 1) 1 1" "\<not> serves (group_present ?b 2 1 0) 0 3" by code_simp+
  then show ?thesis
    using fold_servable[of ?b 0 0 "[0, 1]" 3 1 0] fold_servable[of ?b 0 0 "[0, 1]" 3 1 2]
    by (simp add: less_Suc_eq numeral_2_eq_2 numeral_3_eq_3) (metis One_nat_def)
qed

section \<open>Rows\<close>

definition rows_serve :: "bitmap list \<Rightarrow> int list \<Rightarrow> nat \<Rightarrow> bool" where
  "rows_serve rows windows l \<longleftrightarrow> list_all2 (\<lambda>row window. serves (bm_test row) window l) rows windows"

lemma native_fold_grouped_servable:
  assumes "length rows = length windows" "\<forall>row \<in> set rows. bm_size row = n" "rows \<noteq> []"
  shows "native_fold_grouped rows windows = Inr (collect_servable n (map (\<lambda>j. rows_serve rows windows (Suc j)) [0..<n]))"
proof -
  have n: "bm_size (rows ! 0) = n" using assms(2,3) by (cases rows) auto
  have "List.fold (\<lambda>(row, window). run_loop (bm_test row) (eff_window n window) [1..<n + 1] 0) (zip rows windows) (replicate n True) =
      servable_of n (\<lambda>(row, w). bm_test row) (\<lambda>(row, w). w) (zip rows windows)"
    by (simp add: servable_of_def case_prod_beta' del: upt_Suc)
  also have "\<dots> = map (\<lambda>j. rows_serve rows windows (Suc j)) [0..<n]"
    unfolding servable_of_spec using assms(1) by (intro map_cong refl) (auto simp: rows_serve_def list_all2_iff)
  finally show ?thesis
    using assms n unfolding native_fold_grouped_def Let_def by (auto simp: list_all_iff)
qed

lemma bm_test_range: "bm_ok bm \<Longrightarrow> bm_test (bm_set_range s e bm) i \<longleftrightarrow> bm_test bm i \<or> (s \<le> i \<and> i < e \<and> i < bm_size bm)"
  using bm_set_range_raw[OF bm_okD(1), of bm s e i] by (auto simp: bm_test_iff)

lemma unfold_grouped_test:
  assumes "h \<le> n" "i < length windows"
  shows "bm_test (native_unfold_grouped h n windows ! i) j \<longleftrightarrow> window_start h (windows ! i) \<le> j \<and> j < h"
  using assms by (auto simp: native_unfold_grouped_def Let_def bm_test_range[OF bm_ok_new(1)] bm_ok_new(2) bm_new_data(2))

lemma fold_unfold_core:
  assumes "rows \<noteq> []" and "length rows = length windows" and "\<forall>row \<in> set rows. bm_size row = n"
  obtains hit where "fold_unfold_grouped True rows windows = Inr (int hit, native_unfold_grouped hit n windows)" "hit \<le> n"
    "rows_serve rows windows hit" "\<And>l. hit < l \<Longrightarrow> l \<le> n \<Longrightarrow> \<not> rows_serve rows windows l"
proof -
  let ?s = "map (\<lambda>j. rows_serve rows windows (Suc j)) [0..<n]"
  define bm where "bm = collect_servable n ?s"
  have c: "bm_ok bm \<and> bm_size bm = n \<and> (bm_test bm j \<longleftrightarrow> j < n \<and> ?s ! j)" for j
    unfolding bm_def by (rule collect_spec) simp
  then have ok: "bm_ok bm" and size: "bm_size bm = n" by blast+
  have bits: "bits bm ! j = rows_serve rows windows (Suc j)" if "j < n" for j
    using c[of j] that by (simp add: bits_def)
  have w: "windows \<noteq> []" using assms(1,2) by auto
  have num: "(case rows of [] \<Rightarrow> 0 | row # _ \<Rightarrow> bm_size row) = n" using assms(1,3) by (cases rows) auto
  have f: "native_fold_grouped rows windows = Inr bm" using native_fold_grouped_servable[OF assms(2,3,1)] by (simp add: bm_def)
  have hb: "bm_highest_set_bit bm = (if True \<in> set (bits bm) then int (Max {i. i < n \<and> bits bm ! i}) else -1)"
    using highest_bits[OF ok] size by simp
  have set: "True \<in> set (bits bm) \<longleftrightarrow> {i. i < n \<and> bits bm ! i} \<noteq> {}" using size by (auto simp: in_set_conv_nth)
  obtain hit where hit: "int hit = bm_highest_set_bit bm + 1" "hit \<le> n" "rows_serve rows windows hit"
    "\<And>l. hit < l \<Longrightarrow> l \<le> n \<Longrightarrow> \<not> rows_serve rows windows l"
  proof (cases "True \<in> set (bits bm)")
    case True
    let ?S = "{i. i < n \<and> bits bm ! i}"
    have m: "Max ?S \<in> ?S" "\<And>i. i \<in> ?S \<Longrightarrow> i \<le> Max ?S" using True set by (intro Max_in Max_ge; simp)+
    show thesis
    proof (rule that[of "Suc (Max ?S)"])
      show "int (Suc (Max ?S)) = bm_highest_set_bit bm + 1" "Suc (Max ?S) \<le> n" "rows_serve rows windows (Suc (Max ?S))"
        using True hb m(1) bits by auto
      fix l assume l: "Suc (Max ?S) < l" "l \<le> n"
      show "\<not> rows_serve rows windows l"
      proof
        assume "rows_serve rows windows l"
        with l bits[of "l - 1"] have "l - 1 \<in> ?S" by auto
        from m(2)[OF this] l(1) show False by linarith
      qed
    qed
  next
    case False
    have 0: "rows_serve rows windows 0" using assms(2) by (simp add: rows_serve_def serves_def list_all2_conv_all_nth)
    show thesis
      by (rule that[of 0]) (use False hb 0 set bits in \<open>auto simp: gr0_conv_Suc Suc_le_eq\<close>)
  qed
  have "fold_unfold_grouped True rows windows = Inr (int hit, native_unfold_grouped hit n windows)"
    using assms(2) w num hit(1)[symmetric]
    by (simp add: fold_unfold_grouped_def fold_grouped_def unfold_grouped_def f Let_def)
  from that[OF this hit(2-4)] show thesis by blast
qed

text \<open>
  C9: The hit length is the longest prefix that every row can serve, and what is retained is there.
  For rows of one size with a window each, the composed function returns the greatest length that all
  rows serve, 0 if there is none; every row retains exactly the chunks its window needs for that
  length, and each of them is present in that row.
\<close>

theorem fold_unfold_hit:
  assumes "rows \<noteq> []" and "length rows = length windows" and "\<forall>row \<in> set rows. bm_size row = n"
  shows "\<exists>hit retain. fold_unfold_grouped True rows windows = Inr (int hit, retain) \<and> hit \<le> n \<and>
    rows_serve rows windows hit \<and> (\<forall>l. hit < l \<and> l \<le> n \<longrightarrow> \<not> rows_serve rows windows l) \<and> length retain = length rows \<and>
    (\<forall>i < length rows. \<forall>j. (bm_test (retain ! i) j \<longleftrightarrow> window_start hit (windows ! i) \<le> j \<and> j < hit) \<and>
       (bm_test (retain ! i) j \<longrightarrow> bm_test (rows ! i) j))"
proof -
  obtain hit where hit: "fold_unfold_grouped True rows windows = Inr (int hit, native_unfold_grouped hit n windows)" "hit \<le> n"
    "rows_serve rows windows hit" "\<And>l. hit < l \<Longrightarrow> l \<le> n \<Longrightarrow> \<not> rows_serve rows windows l"
    using fold_unfold_core[OF assms] by blast
  let ?retain = "native_unfold_grouped hit n windows"
  have "bm_test (rows ! i) j" if "i < length rows" "bm_test (?retain ! i) j" for i j
    using that hit(3) unfold_grouped_test[OF hit(2), of i windows j] assms(2)
    by (auto simp: rows_serve_def list_all2_conv_all_nth serves_def list_all_iff)
  then show ?thesis
    using hit unfold_grouped_test[OF hit(2), of _ windows] assms(2)
    by (intro exI[of _ hit] exI[of _ ?retain]) (auto simp: native_unfold_grouped_def Let_def)
qed

theorem fold_unfold_hit_witness:
  "\<exists>retain. fold_unfold_grouped True [bm_prefix 3 2, bm_set 1 (bm_new 3)] [0, 1] = Inr (2, retain) \<and>
     bm_test (retain ! 0) 0 \<and> \<not> bm_test (retain ! 1) 0"
proof -
  let ?rows = "[bm_prefix 3 2, bm_set 1 (bm_new 3)]" and ?ws = "[0, 1] :: int list"
  have size: "\<forall>row \<in> set ?rows. bm_size row = 3" by code_simp
  have serve: "rows_serve ?rows ?ws 2" "\<not> rows_serve ?rows ?ws 3" "window_start 2 0 = 0" "window_start 2 1 = 1" by code_simp+
  obtain hit retain where hit: "fold_unfold_grouped True ?rows ?ws = Inr (int hit, retain)" "hit \<le> 3" "rows_serve ?rows ?ws hit"
    "\<forall>l. hit < l \<and> l \<le> 3 \<longrightarrow> \<not> rows_serve ?rows ?ws l"
    "\<forall>i < 2. \<forall>j. bm_test (retain ! i) j \<longleftrightarrow> window_start hit (?ws ! i) \<le> j \<and> j < hit"
    using fold_unfold_hit[of ?rows ?ws 3, OF _ _ size] by (auto simp: numeral_2_eq_2)
  have "\<not> hit < 2" using hit(4) serve(1) by auto
  moreover have "hit \<noteq> 3" using hit(3) serve(2) by auto
  ultimately have "hit = 2" using hit(2) by linarith
  with hit(1,5) serve(3,4) show ?thesis by auto
qed

end
