(* ===== verification/Spec2Isabelle.thy ===== *)
theory Spec2Isabelle
  imports Mixed_Allocator TTL_Lock L1_Dram Object_Keys L1_Eviction L2_Eviction Prefix_Fold
begin

text \<open>
  LMCache keeps the key-value tensors that an inference engine computes for a prompt, so that a later
  prompt with the same prefix need not compute them again. Every chunk of tokens, worker shard and
  object group is one object, named by an object key and stored in a buffer of host memory (the L1
  cache), from where it may be copied to slower storage (L2). This development verifies the part that
  decides which bytes belong to whom and how long they stay: the memory allocators, the L1 object
  table with its locks, the eviction policies and the threads that run them, the byte accounts and
  quotas of L2 storage, the object keys, and the bitmaps with which a lookup turns found objects into
  a prefix hit.

  \<^bold>\<open>Parts and theories.\<close> Paths are below \<open>src/\<close>; \<open>D/\<close> stands for \<open>lmcache/v1/distributed/\<close>.

  \<^item> \<open>Prelude\<close>: exceptions as values (\<open>py_error + 'a\<close>), dictionaries as association lists with
    distinct keys, ordered key sets as distinct lists, the predicates \<open>ensures\<close> (returns, and the result
    satisfies P) and \<open>yields\<close> (if it returns, the result satisfies P) with their rules for sequencing.
  \<^item> \<open>Address_Manager\<close>: \<open>AddressManager\<close> of \<open>lmcache/v1/memory_management.py\<close>, the first-fit heap of
    byte ranges; \<open>am_allocate\<close>, \<open>am_batched_allocate\<close>, \<open>am_free\<close>, \<open>am_sbrk\<close> are its methods. The
    free list is a third-party sorted list, a parameter constrained by the locale of its contract.
  \<^item> \<open>Memory_Objects\<close>, \<open>Tensor_Allocator\<close>, \<open>Mixed_Allocator\<close>: the objects handed out
    (\<open>memory_management.py\<close>), \<open>tensor_memory_allocator.py\<close>, \<open>buffer_allocator.py\<close> and
    \<open>mixed_memory_allocator.py\<close> of \<open>lmcache/v1/memory_allocators/\<close>, the reference and pin counts and
    the destructor of an object (as an operation: when the interpreter runs it is not modelled), and
    \<open>L1MemoryManager\<close> of \<open>D/memory_manager/l1_memory_manager.py\<close>. An object is an index into a store of
    object records; invalidating it, sharing it and counting its references update that store.
  \<^item> \<open>Memory_Interface\<close>: the protocol between an L1 manager and its memory manager
    (\<open>D/memory_manager/l1_manager_protocol.py\<close>) as a locale; \<open>Mixed_Allocator\<close> interprets it.
  \<^item> \<open>TTL_Lock\<close>: \<open>csrc/lmcache_native/ttl_lock.cpp\<close>, once as sequential functions and once as the
    single atomic accesses of concurrent \<open>lock()\<close> calls.
  \<^item> \<open>L1_Manager\<close>: all operations of \<open>BaseL1Manager\<close> in \<open>D/l1_manager/base.py\<close> over the interface;
    \<open>L1_Invariant\<close>, \<open>L1_Operations\<close>, \<open>L1_Protection\<close> and \<open>L1_Tracking\<close> prove what each of them keeps,
    once for every memory manager; \<open>L1_Dram\<close> is the manager on pinned host memory.
  \<^item> \<open>Object_Keys\<close>: identities, wire form, capture encoding and the expansion of a request into the
    keys of all shards (\<open>D/api.py\<close>, \<open>lmcache/v1/multiprocess/custom_types.py\<close>,
    \<open>lmcache/v1/mp_coordinator/utils/encoding.py\<close>).
  \<^item> \<open>Python_Floats\<close>: binary64 arithmetic as rationals with rounding to nearest, ties to even.
  \<^item> \<open>Eviction_Policy\<close> (the interface of \<open>D/eviction.py\<close> as a locale, and \<open>lru.py\<close>), \<open>ARC_Policy\<close>
    (\<open>arc.py\<close>), \<open>Isolated_LRU\<close> (\<open>isolated_lru.py\<close>), \<open>Eviction_Policies\<close> (\<open>factory.py\<close>, \<open>noop.py\<close>,
    the bridges from cache callbacks to policies), all in \<open>D/eviction_policy/\<close>.
  \<^item> \<open>L1_Eviction\<close>: \<open>L1EvictionController\<close> of \<open>D/storage_controllers/eviction_controller.py\<close> together
    with the L1 manager, its policy and its clients, as a labelled transition system.
  \<^item> \<open>L2_Accounting\<close>: the byte counters and the usage snapshot that every L2 adapter inherits
    (\<open>D/l2_adapters/base.py\<close>). \<open>Native_Connector\<close>: \<open>NativeConnectorL2Adapter\<close> of
    \<open>D/l2_adapters/native_connector_l2_adapter.py\<close>, its requests, its demultiplexing thread and the
    listening policy, as a labelled transition system in which the answers of the connector are
    arguments. \<open>L2_Eviction\<close>: \<open>D/quota_manager.py\<close> and \<open>L2EvictionController\<close>, over a locale of what
    the controller needs of an adapter; the native connector adapter interprets it.
  \<^item> \<open>Bitmaps\<close>, \<open>Prefix_Fold\<close>: \<open>csrc/lmcache_native/bitmap.cpp\<close> on bytes, \<open>fold.cpp\<close> beside it and
    \<open>D/bitmap_ops/fold.py\<close>.

  \<^bold>\<open>How the parts interact.\<close> A client reserves keys for writing; the L1 manager asks the memory manager
  for buffers, which come from the mixed allocator, the tensor allocator and finally the address
  manager, and stages them under a tagged lock. Finishing the write moves a buffer to the object table
  or frees it when another writer came first. Readers take TTL locks on table entries. Every change is
  told to listeners; the eviction policy is one of them. The controller compares the bytes in use with
  its watermark, asks the policy for victims that are not locked, and deletes them through the manager.

  \<^bold>\<open>What the lemmas show.\<close>
  \<^item> Memory. In every reachable heap the free blocks and the held regions partition the address
    space, blocks are maximal, and each operation takes or returns exactly the region it should; an
    allocation fails only if no free run is long enough. Freeing a batch, which sorts and merges
    first, is the same as freeing one object at a time.
  \<^item> L1. No sequence of operations raises; the live memory objects are exactly those in the tables,
    so nothing leaks and nothing is freed twice (for requests without a repeated key: after a repeated
    key one buffer is left to its destructor and the staging counter stays too large, which is proved
    as well). A read-locked object is neither removed nor moved until its locks are released, expire,
    or a forced operation comes; what was written is what is read.
  \<^item> Eviction. LRU and the per-salt LRU refine an abstract order of last uses; ARC keeps its bounds on
    resident and ghost lists and its victim loop equals a reference merge; confirmed rounds drain a
    policy. Under every interleaving of clients with the controller, resident objects stay tracked and
    readers stay protected; on a quiet cache usage falls below the watermark. With the per-salt policy
    the first pass at the watermark ends the thread.
  \<^item> L2. The counters of a native connector adapter are exact up to the batch in flight, in every
    interleaving. Quota passes bring every salt below its quota and touch no salt that is below; a
    batch that deletes a key and stores it again leaves that key untracked.
  \<^item> Locks. A lone compare-and-swap loop returns and refines the sequential lock; concurrent acquisitions of a live
    lock are all counted, those of an expired lock need not be.
  \<^item> Keys and hits. Wire forms round trip, packed ranks identify their parts, a lookup addresses the
    shards the workers address. Bitmap operations refine operations on lists of truth values, and the
    fold yields the longest prefix that all groups can serve, keeping only the chunks they need.

  \<^bold>\<open>Modelling choices and bounds.\<close> A method that holds its object's mutex for its whole body is one
  function from state to state; the places where the source releases it (between the controller's
  usage query, its request to the policy, the checks of the filter and the deletions; inside \<open>TTLLock::lock\<close>) are separate steps, and other
  threads may run between them. Python integers are unbounded; the bytes of a bitmap are 8-bit words;
  \<open>size_t\<close> indices are natural numbers, as all of them are bounded by the size of an array in memory;
  packed KV ranks are written out bit by bit. Clock readings are an arbitrary stream of the environment,
  so a theorem holds however time passes. Hashes, tensor shapes and third-party containers are
  parameters. Loops are structural recursions or recursions with a measure; the only fuel is the number
  of passes in the liveness theorems, bounded by the number of tracked or stored keys.

  \<^bold>\<open>Not modelled.\<close>
  \<^item> Bytes inside buffers, CUDA and SYCL kernels, GPU connectors, quantisation and encryption codecs:
    numeric code on device memory, whose meaning is outside of a functional model of ownership.
  \<^item> The other L2 adapters, native storage connectors and transfer channels: clients of external stores
    and of network or file descriptors. The store and prefetch controllers and the storage manager drive
    them through event descriptors and are left out with them. A quota pass is modelled on an adapter
    that no other thread uses meanwhile and whose connector answers in time.
  \<^item> Paged, lazy, device and GPU allocators, GPU direct storage and device-DAX memory: they bind other
    media to the same interfaces.
  \<^item> The multiprocess server and its transports, the coordinator, observability, the command line, the
    SDK, engine integrations, the frontend and the Kubernetes operator: request routing, serialisation
    and reporting around the core.
  \<^item> The in-process engine under \<open>lmcache/inprocess\<close>, which is the older implementation and shares no
    state with the modules above.
\<close>

end
